(* ===== verification/Dicker_Prelude.thy ===== *)
theory Dicker_Prelude
  imports Main "HOL-Library.Word"
begin

text \<open>
  Shared vocabulary of the development: the machine integers of the C++ sources, the
  \<open>std::string\<close> searches the parsers use, the fact collections the component theories add
  to, and the generic list lemmas their proofs share.

  A \<open>std::uint8_t\<close> is an \<^typ>\<open>8 word\<close>; a \<open>std::string\<close> (a sequence of bytes in C++) is a
  HOL \<^typ>\<open>string\<close>, whose characters are exactly the 256 bytes; \<open>bytes_of\<close> and \<open>string_of\<close>
  are the \<open>reinterpret_cast\<close>s between the two.  A \<open>std::size_t\<close> that only counts bytes held
  in memory is a \<^typ>\<open>nat\<close>; integers whose width the code relies on are words.
\<close>

unbundle bit_operations_syntax

type_synonym byte = "8 word"
type_synonym u16 = "16 word"
type_synonym u32 = "32 word"
type_synonym u64 = "64 word"
type_synonym bytes = "8 word list"

named_theorems wire_simps \<open>little-endian field encoders and decoders\<close>
named_theorems chan_simps \<open>byte channel reads on the stream it holds\<close>
named_theorems dicker_defs \<open>plain definitions that are unfolded together\<close>

section \<open>Strings and bytes\<close>

definition bytes_of :: "string \<Rightarrow> bytes" where
  "bytes_of s = map of_char s"

definition string_of :: "bytes \<Rightarrow> string" where
  "string_of bs = map (\<lambda>b. char_of (unat b)) bs"

lemma length_bytes_of [simp]: "length (bytes_of s) = length s"
  by (simp add: bytes_of_def)

lemma length_string_of [simp]: "length (string_of bs) = length bs"
  by (simp add: string_of_def)

lemma bytes_of_simps [simp]:
  "bytes_of [] = []" "bytes_of (c # s) = of_char c # bytes_of s"
  "bytes_of (s @ t) = bytes_of s @ bytes_of t"
  by (simp_all add: bytes_of_def)

lemma string_of_simps [simp]:
  "string_of [] = []" "string_of (b # bs) = char_of (unat b) # string_of bs"
  "string_of (bs @ cs) = string_of bs @ string_of cs"
  by (simp_all add: string_of_def)

lemma of_char_word: "(of_char c :: byte) = of_nat (of_char c)"
  by (rule of_nat_of_char [symmetric])

lemma unat_of_char [simp]: "unat (of_char c :: byte) = of_char c"
  by (simp add: of_char_word unsigned_of_nat take_bit_eq_mod)

lemma unat_byte_less [simp]: "unat (b :: byte) < 256"
  using unsigned_less [of b] by simp

lemma char_of_byte_inverse [simp]: "of_char (char_of (unat b)) = (b :: byte)"
  by (simp add: of_char_word)

lemma string_of_bytes_of [simp]: "string_of (bytes_of s) = s"
  by (induction s) auto

lemma bytes_of_string_of [simp]: "bytes_of (string_of bs) = bs"
  by (induction bs) auto

lemma bytes_of_eq_iff [simp]: "bytes_of s = bytes_of t \<longleftrightarrow> s = t"
  by (metis string_of_bytes_of)

text \<open>The bytes a C function sees of a \<open>std::string\<close>: those before its first NUL.\<close>

definition c_str :: "string \<Rightarrow> string" where
  "c_str s = takeWhile (\<lambda>c. c \<noteq> CHR 0x00) s"

text \<open>\<open>std::tolower\<close> in the \<open>C\<close> locale.\<close>

definition tolower :: "char \<Rightarrow> char" where
  "tolower c = (let n = of_char c :: nat in if 65 \<le> n \<and> n \<le> 90 then char_of (n + 32) else c)"

section \<open>\<open>std::string\<close> searches\<close>

text \<open>
  \<open>s.find(c)\<close>, \<open>s.find(c, pos)\<close>, \<open>s.rfind(c)\<close> and \<open>s.find("...")\<close>, with \<^const>\<open>None\<close> for
  \<open>std::string::npos\<close>; \<open>s.substr(pos, n)\<close> is \<^term>\<open>take n (drop pos s)\<close>.
\<close>

fun str_find :: "'a \<Rightarrow> 'a list \<Rightarrow> nat option" where
  "str_find c [] = None"
| "str_find c (x # xs) = (if x = c then Some 0 else map_option Suc (str_find c xs))"

definition str_find_from :: "'a \<Rightarrow> nat \<Rightarrow> 'a list \<Rightarrow> nat option" where
  "str_find_from c pos s = map_option ((+) pos) (str_find c (drop pos s))"

definition str_rfind :: "'a \<Rightarrow> 'a list \<Rightarrow> nat option" where
  "str_rfind c s = map_option (\<lambda>i. length s - 1 - i) (str_find c (rev s))"

fun str_prefix :: "'a list \<Rightarrow> 'a list \<Rightarrow> bool" where
  "str_prefix [] s = True"
| "str_prefix (p # ps) [] = False"
| "str_prefix (p # ps) (x # xs) = (p = x \<and> str_prefix ps xs)"

fun str_find_sub :: "'a list \<Rightarrow> 'a list \<Rightarrow> nat option" where
  "str_find_sub n [] = (if n = [] then Some 0 else None)"
| "str_find_sub n (x # xs) =
     (if str_prefix n (x # xs) then Some 0 else map_option Suc (str_find_sub n xs))"

lemma str_prefix_iff: "str_prefix p s \<longleftrightarrow> (\<exists>t. s = p @ t)"
  by (induction p s rule: str_prefix.induct) auto

lemma str_prefix_take: "str_prefix p s \<longleftrightarrow> length p \<le> length s \<and> take (length p) s = p"
  by (metis append_eq_conv_conj append_take_drop_id length_take min.absorb_iff2 str_prefix_iff)

lemma str_prefix_append [simp]: "str_prefix p (p @ s)"
  by (simp add: str_prefix_iff)

lemma str_find_None: "str_find c s = None \<longleftrightarrow> c \<notin> set s"
  by (induction s) auto

lemma str_find_append [simp]: "c \<notin> set a \<Longrightarrow> str_find c (a @ c # b) = Some (length a)"
  by (induction a) auto

lemma str_find_SomeD:
  "str_find c s = Some i \<Longrightarrow> \<exists>a b. s = a @ c # b \<and> length a = i \<and> c \<notin> set a"
proof (induction s arbitrary: i)
  case Nil
  then show ?case by simp
next
  case (Cons x xs)
  show ?case
  proof (cases "x = c")
    case True
    with Cons.prems have "x # xs = [] @ c # xs \<and> length [] = i \<and> c \<notin> set []"
      by simp
    then show ?thesis by blast
  next
    case False
    with Cons.prems obtain j where "i = Suc j" and "str_find c xs = Some j"
      by auto
    moreover from this Cons.IH obtain a b where "xs = a @ c # b" "length a = j" "c \<notin> set a"
      by blast
    ultimately have "x # xs = (x # a) @ c # b \<and> length (x # a) = i \<and> c \<notin> set (x # a)"
      using False by simp
    then show ?thesis by blast
  qed
qed

lemma str_find_Some:
  "str_find c s = Some i \<longleftrightarrow> (\<exists>a b. s = a @ c # b \<and> length a = i \<and> c \<notin> set a)"
  using str_find_SomeD by fastforce

lemma str_find_absent [simp]: "c \<notin> set s \<Longrightarrow> str_find c s = None"
  by (simp add: str_find_None)

lemma str_rfind_append [simp]: "c \<notin> set b \<Longrightarrow> str_rfind c (a @ c # b) = Some (length a)"
proof -
  assume "c \<notin> set b"
  then have "str_find c (rev (a @ c # b)) = Some (length (rev b))"
    using str_find_append [of c "rev b" "rev a"] by simp
  then show ?thesis
    by (simp add: str_rfind_def)
qed

lemma str_rfind_absent [simp]: "c \<notin> set s \<Longrightarrow> str_rfind c s = None"
  by (simp add: str_rfind_def)

lemma str_find_bound: "str_find c s = Some i \<Longrightarrow> i < length s"
  by (auto simp: str_find_Some)

lemma str_find_sub_Some:
  "str_find_sub n s = Some i \<Longrightarrow> i + length n \<le> length s \<and> str_prefix n (drop i s)"
proof (induction n s arbitrary: i rule: str_find_sub.induct)
  case (1 n)
  then show ?case by (auto split: if_splits)
next
  case (2 n x xs)
  then show ?case
    by (auto simp: str_prefix_take split: if_splits)
qed

lemma str_find_sub_None:
  "str_find_sub n s = None \<Longrightarrow> \<not> str_prefix n (drop i s)"
proof (induction n s arbitrary: i rule: str_find_sub.induct)
  case (1 n)
  then show ?case by (cases n) (auto split: if_splits)
next
  case (2 n x xs)
  then show ?case
    by (cases i) (auto split: if_splits)
qed

section \<open>Bytes inside wider words\<close>

lemma bit_byte_ge [simp]: "8 \<le> m \<Longrightarrow> \<not> bit (a :: byte) m"
  using bit_imp_le_length [of a m] by auto

text \<open>Gathering the next byte of \<open>v\<close> extends the low \<open>m\<close> bits to the low \<open>m + 8\<close> bits.\<close>

lemma take_bit_gather:
  "take_bit m v OR push_bit m (take_bit 8 (drop_bit m v)) = take_bit (m + 8) (v :: 'a::len word)"
  by (rule bit_word_eqI) (auto simp: bit_simps)

lemmas gather_bytes =
  take_bit_gather [of 8, simplified] take_bit_gather [of 16, simplified]
  take_bit_gather [of 24, simplified] take_bit_gather [of 32, simplified]
  take_bit_gather [of 40, simplified] take_bit_gather [of 48, simplified]
  take_bit_gather [of 56, simplified]

lemma ucast_low_byte: "(ucast (ucast w :: byte) :: 'a::len word) = take_bit 8 (w :: 'a word)"
  by (rule bit_word_eqI) (auto simp: bit_simps)

text \<open>Picking byte \<open>m / 8\<close> out of a word that holds the byte \<open>b\<close> at bit \<open>n\<close>.\<close>

lemma field_byte:
  fixes b :: byte
  assumes "n + 8 \<le> LENGTH('a)" and "m = n \<or> m + 8 \<le> n \<or> n + 8 \<le> m"
  shows "(ucast (drop_bit m (push_bit n (ucast b :: 'a::len word))) :: byte) =
    (if m = n then b else 0)"
  using assms by (auto intro!: bit_word_eqI simp: bit_simps)

lemma field_byte_low:
  fixes b :: byte
  shows "n + 8 \<le> LENGTH('a) \<Longrightarrow> 8 \<le> n \<Longrightarrow> (ucast (push_bit n (ucast b :: 'a::len word)) :: byte) = 0"
    and "8 \<le> LENGTH('a) \<Longrightarrow> (ucast (ucast b :: 'a word) :: byte) = b"
    and "8 \<le> LENGTH('a) \<Longrightarrow> 8 \<le> m \<Longrightarrow> (ucast (drop_bit m (ucast b :: 'a word)) :: byte) = 0"
  using field_byte [of n 0 b, where 'a = 'a] field_byte [of 0 0 b, where 'a = 'a]
    field_byte [of 0 m b, where 'a = 'a] by simp_all

lemma ucast_or: "(ucast (a OR b) :: 'b::len word) = ucast a OR ucast (b :: 'a::len word)"
  by (rule bit_word_eqI) (auto simp: bit_simps)

lemma drop_bit_or_word: "drop_bit m (a OR b) = drop_bit m a OR drop_bit m (b :: 'a::len word)"
  by (rule bit_word_eqI) (auto simp: bit_simps)

lemmas scatter_bytes = ucast_or drop_bit_or_word field_byte field_byte_low

end
