(* ===== verification/Streaming_Hash.thy ===== *)
theory Streaming_Hash
  imports Dicker_Prelude
begin

text \<open>
  The contract the checksum and authentication code relies on: a hash that is fed in pieces
  (\<open>update\<close> after \<open>update\<close>) has absorbed exactly the concatenation of the pieces.  Both
  hashes of \<open>shared/\<close> provide it, \<open>Sha256\<close> and the streaming \<open>XXH64\<close>; the clients are the
  HMAC, the per-unit checksums of the uploader and of the server, which cut the same unit
  into different blocks.
\<close>

locale streaming_hash =
  fixes init :: 's
    and update :: "'s \<Rightarrow> bytes \<Rightarrow> 's"
    and digest :: "'s \<Rightarrow> 'd"
    and inv :: "'s \<Rightarrow> bool"
    and absorbed :: "'s \<Rightarrow> 'x"
  assumes inv_init: "inv init"
    and inv_update: "inv s \<Longrightarrow> inv (update s d)"
    and update_cong: "inv s \<Longrightarrow> inv t \<Longrightarrow> absorbed s = absorbed t \<Longrightarrow>
      absorbed (update s d) = absorbed (update t d)"
    and update_Nil: "inv s \<Longrightarrow> absorbed (update s []) = absorbed s"
    and update_append: "inv s \<Longrightarrow> absorbed (update (update s a) b) = absorbed (update s (a @ b))"
    and digest_cong: "inv s \<Longrightarrow> inv t \<Longrightarrow> absorbed s = absorbed t \<Longrightarrow> digest s = digest t"
begin

definition feed :: "'s \<Rightarrow> bytes list \<Rightarrow> 's" where
  "feed s chunks = foldl update s chunks"

lemma inv_feed: "inv s \<Longrightarrow> inv (feed s chunks)"
  by (induction chunks arbitrary: s) (auto simp: feed_def inv_update)

lemma absorbed_feed: "inv s \<Longrightarrow> absorbed (feed s chunks) = absorbed (update s (concat chunks))"
proof (induction chunks arbitrary: s)
  case Nil
  then show ?case by (simp add: feed_def update_Nil)
next
  case (Cons c cs)
  have "absorbed (feed s (c # cs)) = absorbed (feed (update s c) cs)"
    by (simp add: feed_def)
  also have "\<dots> = absorbed (update (update s c) (concat cs))"
    using Cons by (simp add: inv_update)
  also have "\<dots> = absorbed (update s (c @ concat cs))"
    using Cons.prems by (rule update_append)
  finally show ?case by simp
qed

lemma digest_feed: "digest (feed init chunks) = digest (update init (concat chunks))"
  by (rule digest_cong) (auto simp: inv_feed inv_update inv_init absorbed_feed)

text \<open>Two ends that cut the same bytes differently compute the same digest.\<close>

lemma digest_feed_same:
  "concat as = concat bs \<Longrightarrow> digest (feed init as) = digest (feed init bs)"
  by (simp add: digest_feed)

end

end
