(* ===== verification/Wire.thy ===== *)
theory Wire
  imports Dicker_Prelude
begin

text \<open>
  \<open>shared/protocol.h\<close> and \<open>shared/wire.h\<close>: the constants and enumerations of the wire
  protocol, and the little-endian readers and writers of its integer fields.  A pointer
  argument \<open>p\<close> is the list of bytes it points at; a writer returns the bytes it stores
  through \<open>p\<close>.
\<close>

section \<open>\<open>protocol.h\<close>\<close>

definition kMagic :: bytes where
  "kMagic = bytes_of ''DKR1''"

definition kProtocolVersion :: u16 where
  "kProtocolVersion = 2"

definition kMinProtocolVersion :: u16 where
  "kMinProtocolVersion = 1"

definition Cmd_Upload :: byte where
  "Cmd_Upload = 0x33"

text \<open>
  The scoped enumerations have \<open>std::uint8_t\<close> as underlying type, and \<open>static_cast\<close> from a
  received byte may yield a value with no enumerator: each type has a constructor for those,
  so that the casts are total and injective.
\<close>

datatype CompressionAlgo = AlgoNone | Lz4 | Zstd | AlgoOther byte

fun algo_of_byte :: "byte \<Rightarrow> CompressionAlgo" where
  "algo_of_byte b =
     (if b = 0 then AlgoNone else if b = 1 then Lz4 else if b = 2 then Zstd else AlgoOther b)"

fun byte_of_algo :: "CompressionAlgo \<Rightarrow> byte" where
  "byte_of_algo AlgoNone = 0"
| "byte_of_algo Lz4 = 1"
| "byte_of_algo Zstd = 2"
| "byte_of_algo (AlgoOther b) = b"

datatype UnitType = File | Chunk | Probe | Accepted | End | UnitOther byte

fun unit_of_byte :: "byte \<Rightarrow> UnitType" where
  "unit_of_byte b =
     (if b = 0 then File else if b = 1 then Chunk else if b = 2 then Probe
      else if b = 3 then Accepted else if b = 0xFF then End else UnitOther b)"

fun byte_of_unit :: "UnitType \<Rightarrow> byte" where
  "byte_of_unit File = 0"
| "byte_of_unit Chunk = 1"
| "byte_of_unit Probe = 2"
| "byte_of_unit Accepted = 3"
| "byte_of_unit End = 0xFF"
| "byte_of_unit (UnitOther b) = b"

datatype ServerMode = ModeAccept | HashFirst

fun byte_of_mode :: "ServerMode \<Rightarrow> byte" where
  "byte_of_mode ModeAccept = push_bit 0 1"
| "byte_of_mode HashFirst = push_bit 1 1"

datatype ProbeDecision = Accept | Reject

fun byte_of_decision :: "ProbeDecision \<Rightarrow> byte" where
  "byte_of_decision Accept = 0"
| "byte_of_decision Reject = 1"

datatype BlockType = EndOfUnit | Data | BlockOther byte

fun block_of_byte :: "byte \<Rightarrow> BlockType" where
  "block_of_byte b = (if b = 0 then EndOfUnit else if b = 1 then Data else BlockOther b)"

fun byte_of_block :: "BlockType \<Rightarrow> byte" where
  "byte_of_block EndOfUnit = 0"
| "byte_of_block Data = 1"
| "byte_of_block (BlockOther b) = b"

datatype HandshakeFlag = IntegrityChecks

fun byte_of_flag :: "HandshakeFlag \<Rightarrow> byte" where
  "byte_of_flag IntegrityChecks = push_bit 0 1"

datatype HandshakeStatus = Ok | BadMagic | BadVersion | AuthFailed | BadAlgo | ServerError

fun byte_of_status :: "HandshakeStatus \<Rightarrow> byte" where
  "byte_of_status Ok = 0"
| "byte_of_status BadMagic = 1"
| "byte_of_status BadVersion = 2"
| "byte_of_status AuthFailed = 3"
| "byte_of_status BadAlgo = 4"
| "byte_of_status ServerError = 5"

definition kSessionIdSize :: nat where
  "kSessionIdSize = 16"

definition kHmacSize :: nat where
  "kHmacSize = 32"

definition kHandshakeSignedPrefixSize :: nat where
  "kHandshakeSignedPrefixSize = length kMagic + 2 + 1 + 1 + kSessionIdSize"

definition kHandshakeRequestSize :: nat where
  "kHandshakeRequestSize = kHandshakeSignedPrefixSize + kHmacSize"

definition kHandshakeReplySize :: nat where
  "kHandshakeReplySize = length kMagic + 1"

definition kHandshakeModeSize :: nat where
  "kHandshakeModeSize = 1"

definition kProbeHashSize :: nat where
  "kProbeHashSize = 32"

definition kProbeReplySize :: nat where
  "kProbeReplySize = 1 + 8"

definition kMaxPathLength :: u16 where
  "kMaxPathLength = 4096"

definition kMaxBlockSize :: u32 where
  "kMaxBlockSize = 64 * 1024 * 1024"

definition has_flag :: "byte \<Rightarrow> HandshakeFlag \<Rightarrow> bool" where
  "has_flag flags flag \<longleftrightarrow> flags AND byte_of_flag flag \<noteq> 0"

definition has_mode :: "byte \<Rightarrow> ServerMode \<Rightarrow> bool" where
  "has_mode mode flag \<longleftrightarrow> mode AND byte_of_mode flag \<noteq> 0"

section \<open>\<open>wire.h\<close>\<close>

definition read_u16_le :: "bytes \<Rightarrow> u16" where
  "read_u16_le p = ucast (p ! 0) OR push_bit 8 (ucast (p ! 1))"

definition read_u32_le :: "bytes \<Rightarrow> u32" where
  "read_u32_le p =
     ucast (p ! 0) OR push_bit 8 (ucast (p ! 1)) OR push_bit 16 (ucast (p ! 2))
     OR push_bit 24 (ucast (p ! 3))"

definition read_u64_le :: "bytes \<Rightarrow> u64" where
  "read_u64_le p =
     ucast (p ! 0) OR push_bit 8 (ucast (p ! 1)) OR push_bit 16 (ucast (p ! 2))
     OR push_bit 24 (ucast (p ! 3)) OR push_bit 32 (ucast (p ! 4)) OR push_bit 40 (ucast (p ! 5))
     OR push_bit 48 (ucast (p ! 6)) OR push_bit 56 (ucast (p ! 7))"

definition write_u16_le :: "u16 \<Rightarrow> bytes" where
  "write_u16_le v = [ucast v, ucast (drop_bit 8 v)]"

definition write_u32_le :: "u32 \<Rightarrow> bytes" where
  "write_u32_le v =
     [ucast v, ucast (drop_bit 8 v), ucast (drop_bit 16 v), ucast (drop_bit 24 v)]"

definition write_u64_le :: "u64 \<Rightarrow> bytes" where
  "write_u64_le v =
     [ucast v, ucast (drop_bit 8 v), ucast (drop_bit 16 v), ucast (drop_bit 24 v),
      ucast (drop_bit 32 v), ucast (drop_bit 40 v), ucast (drop_bit 48 v), ucast (drop_bit 56 v)]"

definition append_u16 :: "bytes \<Rightarrow> u16 \<Rightarrow> bytes" where
  "append_u16 out value = out @ write_u16_le value"

definition append_u64 :: "bytes \<Rightarrow> u64 \<Rightarrow> bytes" where
  "append_u64 out value = out @ write_u64_le value"

section \<open>The integer fields as codecs\<close>

text \<open>
  What every fixed-width field promises: the writer stores \<open>width\<close> bytes, the reader inverts
  it, and the writer inverts the reader, so that no two encodings decode alike.
\<close>

locale field_codec =
  fixes enc :: "'v \<Rightarrow> bytes"
    and dec :: "bytes \<Rightarrow> 'v"
    and width :: nat
  assumes enc_length: "length (enc v) = width"
    and dec_prefix: "dec (enc v @ rest) = v"
    and enc_dec: "length bs = width \<Longrightarrow> enc (dec bs) = bs"
begin

lemma dec_enc: "dec (enc v) = v"
  using dec_prefix [of v "[]"] by simp

lemma enc_inject: "enc v = enc w \<longleftrightarrow> v = w"
  by (metis dec_enc)

lemma take_enc: "take width (enc v @ rest) = enc v"
  by (simp add: enc_length)

lemma drop_enc: "drop width (enc v @ rest) = rest"
  by (simp add: enc_length)

lemma dec_take: "dec (take width (enc v @ rest)) = v"
  by (simp only: take_enc dec_enc)

lemmas codec_simps = enc_length dec_prefix dec_enc enc_inject

end

interpretation u16_field: field_codec write_u16_le read_u16_le 2
proof unfold_locales
  show "length (write_u16_le v) = 2" for v
    by (simp add: write_u16_le_def)
  show "read_u16_le (write_u16_le v @ rest) = v" for v rest
    by (simp add: read_u16_le_def write_u16_le_def ucast_low_byte or.assoc [symmetric]
        gather_bytes take_bit_word_eq_self)
  show "write_u16_le (read_u16_le bs) = bs" if "length bs = 2" for bs
  proof -
    obtain a b where "bs = [a, b]"
      using \<open>length bs = 2\<close> by (auto simp: length_Suc_conv numeral_eq_Suc)
    then show ?thesis
      by (simp add: read_u16_le_def write_u16_le_def scatter_bytes)
  qed
qed

interpretation u32_field: field_codec write_u32_le read_u32_le 4
proof unfold_locales
  show "length (write_u32_le v) = 4" for v
    by (simp add: write_u32_le_def)
  show "read_u32_le (write_u32_le v @ rest) = v" for v rest
    by (simp add: read_u32_le_def write_u32_le_def ucast_low_byte or.assoc [symmetric]
        gather_bytes take_bit_word_eq_self)
  show "write_u32_le (read_u32_le bs) = bs" if "length bs = 4" for bs
  proof -
    obtain a b c d where "bs = [a, b, c, d]"
      using \<open>length bs = 4\<close> by (auto simp: length_Suc_conv numeral_eq_Suc)
    then show ?thesis
      by (simp add: read_u32_le_def write_u32_le_def scatter_bytes)
  qed
qed

interpretation u64_field: field_codec write_u64_le read_u64_le 8
proof unfold_locales
  show "length (write_u64_le v) = 8" for v
    by (simp add: write_u64_le_def)
  show "read_u64_le (write_u64_le v @ rest) = v" for v rest
    by (simp add: read_u64_le_def write_u64_le_def ucast_low_byte or.assoc [symmetric]
        gather_bytes take_bit_word_eq_self)
  show "write_u64_le (read_u64_le bs) = bs" if "length bs = 8" for bs
  proof -
    obtain a b c d e f g h where "bs = [a, b, c, d, e, f, g, h]"
      using \<open>length bs = 8\<close> by (auto simp: length_Suc_conv numeral_eq_Suc)
    then show ?thesis
      by (simp add: read_u64_le_def write_u64_le_def scatter_bytes)
  qed
qed

lemmas wire_codec [wire_simps, simp] =
  u16_field.codec_simps u32_field.codec_simps u64_field.codec_simps

text \<open>A reader looks at its own bytes only.\<close>

lemma read_prefix:
  "2 \<le> length p \<Longrightarrow> read_u16_le (p @ q) = read_u16_le p"
  "4 \<le> length p \<Longrightarrow> read_u32_le (p @ q) = read_u32_le p"
  "8 \<le> length p \<Longrightarrow> read_u64_le (p @ q) = read_u64_le p"
proof -
  have nth: "i < length p \<Longrightarrow> (p @ q) ! i = p ! i" for i
    by (simp add: nth_append)
  show "2 \<le> length p \<Longrightarrow> read_u16_le (p @ q) = read_u16_le p"
    "4 \<le> length p \<Longrightarrow> read_u32_le (p @ q) = read_u32_le p"
    "8 \<le> length p \<Longrightarrow> read_u64_le (p @ q) = read_u64_le p"
    unfolding read_u16_le_def read_u32_le_def read_u64_le_def by (simp_all only: nth)
qed

lemma append_fields [simp]:
  "append_u16 out v = out @ write_u16_le v" "append_u64 out w = out @ write_u64_le w"
  by (simp_all add: append_u16_def append_u64_def)

lemma length_kMagic [simp]: "length kMagic = 4"
  by (simp add: kMagic_def)

lemma size_constants [simp]:
  "kSessionIdSize = 16" "kHmacSize = 32" "kHandshakeSignedPrefixSize = 24"
  "kHandshakeRequestSize = 56" "kHandshakeReplySize = 5" "kHandshakeModeSize = 1"
  "kProbeHashSize = 32" "kProbeReplySize = 9"
  by (simp_all add: kSessionIdSize_def kHmacSize_def kHandshakeSignedPrefixSize_def
      kHandshakeRequestSize_def kHandshakeReplySize_def kHandshakeModeSize_def
      kProbeHashSize_def kProbeReplySize_def)

section \<open>The enumerations as bytes\<close>

lemma enum_byte_inverse [simp]:
  "byte_of_algo (algo_of_byte b) = b" "byte_of_unit (unit_of_byte b) = b"
  "byte_of_block (block_of_byte b) = b"
  by simp_all

lemma enum_of_byte_values [simp]:
  "unit_of_byte 0 = File" "unit_of_byte 1 = Chunk" "unit_of_byte 2 = Probe" "unit_of_byte 3 = Accepted"
  "unit_of_byte 0xFF = End" "block_of_byte 0 = EndOfUnit" "block_of_byte 1 = Data"
  "algo_of_byte 0 = AlgoNone" "algo_of_byte 1 = Lz4" "algo_of_byte 2 = Zstd"
  by simp_all

lemma enum_of_byte_eq:
  "unit_of_byte b = File \<longleftrightarrow> b = 0" "unit_of_byte b = Chunk \<longleftrightarrow> b = 1"
  "unit_of_byte b = Probe \<longleftrightarrow> b = 2" "unit_of_byte b = Accepted \<longleftrightarrow> b = 3"
  "unit_of_byte b = End \<longleftrightarrow> b = 0xFF" "block_of_byte b = EndOfUnit \<longleftrightarrow> b = 0"
  "block_of_byte b = Data \<longleftrightarrow> b = 1"
  by simp_all

declare unit_of_byte.simps [simp del] block_of_byte.simps [simp del] algo_of_byte.simps [simp del]

lemma byte_of_status_inject [simp]: "byte_of_status s = byte_of_status t \<longleftrightarrow> s = t"
  by (cases s; cases t) simp_all

lemma has_flag_odd: "has_flag flags IntegrityChecks \<longleftrightarrow> odd flags"
  by (simp add: has_flag_def and_one_eq mod_2_eq_odd)

end
