(* ===== verification/Sha256.thy ===== *)
theory Sha256
  imports Streaming_Hash Wire
begin

text \<open>
  \<open>shared/sha256.h\<close> and \<open>shared/hmac_sha256.h\<close>: the incremental SHA-256 with its 64-byte
  buffer, the one-shot \<open>sha256\<close>, HMAC-SHA256 and the constant-time comparison.  The results
  are that the incremental hash is the padded-message fold of the standard (\<open>sha256_spec\<close>),
  that it does not depend on how the input is cut, and that the comparison is equality.
\<close>

section \<open>\<open>sha256.h\<close>\<close>

definition kSha256DigestSize :: nat where
  "kSha256DigestSize = 32"

definition kSha256BlockSize :: nat where
  "kSha256BlockSize = 64"

text \<open>The table, in the rows of eight the source has.\<close>

definition kRoundConstants :: "u32 list" where
  "kRoundConstants = concat
    [[0x428a2f98, 0x71374491, 0xb5c0fbcf, 0xe9b5dba5, 0x3956c25b, 0x59f111f1, 0x923f82a4, 0xab1c5ed5],
     [0xd807aa98, 0x12835b01, 0x243185be, 0x550c7dc3, 0x72be5d74, 0x80deb1fe, 0x9bdc06a7, 0xc19bf174],
     [0xe49b69c1, 0xefbe4786, 0x0fc19dc6, 0x240ca1cc, 0x2de92c6f, 0x4a7484aa, 0x5cb0a9dc, 0x76f988da],
     [0x983e5152, 0xa831c66d, 0xb00327c8, 0xbf597fc7, 0xc6e00bf3, 0xd5a79147, 0x06ca6351, 0x14292967],
     [0x27b70a85, 0x2e1b2138, 0x4d2c6dfc, 0x53380d13, 0x650a7354, 0x766a0abb, 0x81c2c92e, 0x92722c85],
     [0xa2bfe8a1, 0xa81a664b, 0xc24b8b70, 0xc76c51a3, 0xd192e819, 0xd6990624, 0xf40e3585, 0x106aa070],
     [0x19a4c116, 0x1e376c08, 0x2748774c, 0x34b0bcb5, 0x391c0cb3, 0x4ed8aa4a, 0x5b9cca4f, 0x682e6ff3],
     [0x748f82ee, 0x78a5636f, 0x84c87814, 0x8cc70208, 0x90befffa, 0xa4506ceb, 0xbef9a3f7, 0xc67178f2]]"

definition rotate_right :: "u32 \<Rightarrow> nat \<Rightarrow> u32" where
  "rotate_right value bits = drop_bit bits value OR push_bit (32 - bits) value"

record Sha256 =
  sha_state :: "u32 list"
  bit_count :: u64
  sha_buffer :: bytes
  buffer_len :: nat

definition sha_reset :: "Sha256 \<Rightarrow> Sha256" where
  "sha_reset h = h\<lparr>sha_state :=
      [0x6a09e667, 0xbb67ae85, 0x3c6ef372, 0xa54ff53a,
       0x510e527f, 0x9b05688c, 0x1f83d9ab, 0x5be0cd19],
    bit_count := 0, buffer_len := 0\<rparr>"

text \<open>The constructor leaves the buffer's bytes indeterminate; no byte beyond \<open>buffer_len\<close> is read.\<close>

definition sha_new :: Sha256 where
  "sha_new = sha_reset \<lparr>sha_state = [], bit_count = 0, sha_buffer = replicate 64 0, buffer_len = 0\<rparr>"

subsection \<open>\<open>process_block\<close>\<close>

definition block_word :: "bytes \<Rightarrow> nat \<Rightarrow> u32" where
  "block_word block i =
     push_bit 24 (ucast (block ! (i * 4))) OR push_bit 16 (ucast (block ! (i * 4 + 1)))
     OR push_bit 8 (ucast (block ! (i * 4 + 2))) OR ucast (block ! (i * 4 + 3))"

definition schedule_step :: "nat \<Rightarrow> u32 list \<Rightarrow> u32 list" where
  "schedule_step i w =
     (let s0 = rotate_right (w ! (i - 15)) 7 XOR rotate_right (w ! (i - 15)) 18
                 XOR drop_bit 3 (w ! (i - 15));
          s1 = rotate_right (w ! (i - 2)) 17 XOR rotate_right (w ! (i - 2)) 19
                 XOR drop_bit 10 (w ! (i - 2))
      in w @ [w ! (i - 16) + s0 + w ! (i - 7) + s1])"

definition schedule :: "bytes \<Rightarrow> u32 list" where
  "schedule block = fold schedule_step [16..<64] (map (block_word block) [0..<16])"

definition round_step ::
  "u32 list \<Rightarrow> nat \<Rightarrow> u32 \<times> u32 \<times> u32 \<times> u32 \<times> u32 \<times> u32 \<times> u32 \<times> u32 \<Rightarrow>
   u32 \<times> u32 \<times> u32 \<times> u32 \<times> u32 \<times> u32 \<times> u32 \<times> u32" where
  "round_step w i = (\<lambda>(a, b, c, d, e, f, g, h).
     let big_s1 = rotate_right e 6 XOR rotate_right e 11 XOR rotate_right e 25;
         chosen = (e AND f) XOR (NOT e AND g);
         temp1 = h + big_s1 + chosen + kRoundConstants ! i + w ! i;
         big_s0 = rotate_right a 2 XOR rotate_right a 13 XOR rotate_right a 22;
         majority = (a AND b) XOR (a AND c) XOR (b AND c);
         temp2 = big_s0 + majority
     in (temp1 + temp2, a, b, c, d + temp1, e, f, g))"

definition process_block :: "u32 list \<Rightarrow> bytes \<Rightarrow> u32 list" where
  "process_block st block =
     (let w = schedule block;
          (a, b, c, d, e, f, g, h) = fold (round_step w) [0..<64]
            (st ! 0, st ! 1, st ! 2, st ! 3, st ! 4, st ! 5, st ! 6, st ! 7)
      in [st ! 0 + a, st ! 1 + b, st ! 2 + c, st ! 3 + d,
          st ! 4 + e, st ! 5 + f, st ! 6 + g, st ! 7 + h])"

subsection \<open>\<open>update\<close> and \<open>finish\<close>\<close>

text \<open>\<open>std::memcpy(buf + at, src, n)\<close> for a region inside the buffer.\<close>

definition memcpy_at :: "'a list \<Rightarrow> nat \<Rightarrow> 'a list \<Rightarrow> 'a list" where
  "memcpy_at buf at src = take at buf @ src @ drop (at + length src) buf"

definition sha_copy :: "Sha256 \<Rightarrow> bytes \<Rightarrow> Sha256" where
  "sha_copy h chunk =
     (let h1 = h\<lparr>sha_buffer := memcpy_at (sha_buffer h) (buffer_len h) chunk,
                 buffer_len := buffer_len h + length chunk\<rparr>
      in if buffer_len h1 = kSha256BlockSize
         then h1\<lparr>sha_state := process_block (sha_state h1) (sha_buffer h1), buffer_len := 0\<rparr>
         else h1)"

lemma buffer_len_sha_copy:
  "buffer_len (sha_copy h c) =
    (if buffer_len h + length c = 64 then 0 else buffer_len h + length c)"
  by (simp add: sha_copy_def Let_def kSha256BlockSize_def)

text \<open>
  The \<open>while (len > 0)\<close> loop of \<open>update\<close>.  The buffer is never full between two iterations,
  so each iteration copies at least one byte; a state with a full buffer does not occur
  (\<open>sha_inv\<close>) and ends the loop.
\<close>

function sha_update_loop :: "Sha256 \<Rightarrow> bytes \<Rightarrow> Sha256" where
  "sha_update_loop h data =
     (if data = [] \<or> kSha256BlockSize \<le> buffer_len h then h
      else let space = kSha256BlockSize - buffer_len h;
               n = (if length data < space then length data else space)
           in sha_update_loop (sha_copy h (take n data)) (drop n data))"
  by pat_completeness auto
termination
  by (relation "measure (\<lambda>(h, data). length data)") (auto simp: Let_def)

declare sha_update_loop.simps [simp del]

definition sha_update :: "Sha256 \<Rightarrow> bytes \<Rightarrow> Sha256" where
  "sha_update h data =
     sha_update_loop (h\<lparr>bit_count := bit_count h + of_nat (length data) * 8\<rparr>) data"

lemma buffer_len_update_loop_one:
  "buffer_len h < 64 \<Longrightarrow>
    buffer_len (sha_update_loop h [x]) = (if buffer_len h = 63 then 0 else buffer_len h + 1)"
  by (auto simp: sha_update_loop.simps [of h] sha_update_loop.simps [of _ "[]"]
      kSha256BlockSize_def Let_def buffer_len_sha_copy)

text \<open>The padding loop of \<open>finish\<close>: zero bytes until eight bytes are left in the block.\<close>

function sha_pad :: "Sha256 \<Rightarrow> Sha256" where
  "sha_pad h =
     (if buffer_len h = kSha256BlockSize - 8 \<or> kSha256BlockSize \<le> buffer_len h then h
      else sha_pad (sha_update h [0]))"
  by pat_completeness auto
termination
  by (relation "measure (\<lambda>h. (120 - buffer_len h) mod 64)")
    (auto simp: kSha256BlockSize_def sha_update_def buffer_len_update_loop_one mod_if)

declare sha_pad.simps [simp del]

definition length_block :: "u64 \<Rightarrow> bytes" where
  "length_block total_bits = map (\<lambda>i. ucast (drop_bit (56 - i * 8) total_bits)) [0..<8]"

definition sha_output :: "u32 list \<Rightarrow> bytes" where
  "sha_output st = concat (map (\<lambda>i.
     [ucast (drop_bit 24 (st ! i)), ucast (drop_bit 16 (st ! i)), ucast (drop_bit 8 (st ! i)),
      ucast (st ! i)]) [0..<8])"

definition sha_finish :: "Sha256 \<Rightarrow> bytes" where
  "sha_finish h =
     (let total_bits = bit_count h;
          h1 = sha_update h [0x80];
          h2 = sha_pad h1;
          h3 = sha_update h2 (length_block total_bits)
      in sha_output (sha_state h3))"

definition sha256 :: "bytes \<Rightarrow> bytes" where
  "sha256 data = sha_finish (sha_update sha_new data)"

section \<open>\<open>hmac_sha256.h\<close>\<close>

definition hmac_block_key :: "bytes \<Rightarrow> bytes" where
  "hmac_block_key key =
     memcpy_at (replicate kSha256BlockSize 0) 0
       (if kSha256BlockSize < length key then sha256 key else key)"

definition hmac_sha256 :: "bytes \<Rightarrow> bytes \<Rightarrow> bytes" where
  "hmac_sha256 key message =
     (let block_key = hmac_block_key key;
          inner_pad = map (\<lambda>b. b XOR 0x36) block_key;
          outer_pad = map (\<lambda>b. b XOR 0x5c) block_key;
          inner_digest = sha_finish (sha_update (sha_update sha_new inner_pad) message)
      in sha_finish (sha_update (sha_update sha_new outer_pad) inner_digest))"

text \<open>\<open>constant_time_equal(a, b, len)\<close>: the loop ORs the differences of the first \<open>len\<close> bytes.\<close>

definition constant_time_equal :: "bytes \<Rightarrow> bytes \<Rightarrow> nat \<Rightarrow> bool" where
  "constant_time_equal a b len \<longleftrightarrow>
     fold (\<lambda>i difference. difference OR (a ! i XOR b ! i)) [0..<len] (0 :: byte) = 0"

section \<open>The incremental hasher as a fold over single bytes\<close>

text \<open>
  Between calls the buffer holds fewer than 64 bytes.  Under this invariant the block-copying
  loop is the fold of copying one byte at a time, which makes the cut of the input into
  \<open>update\<close> calls irrelevant.
\<close>

definition sha_inv :: "Sha256 \<Rightarrow> bool" where
  "sha_inv h \<longleftrightarrow> buffer_len h < 64 \<and> length (sha_buffer h) = 64 \<and> length (sha_state h) = 8"

lemma length_memcpy_at: "at + length src \<le> length buf \<Longrightarrow> length (memcpy_at buf at src) = length buf"
  by (simp add: memcpy_at_def)

lemma memcpy_at_twice:
  "at + length a + length b \<le> length buf \<Longrightarrow>
    memcpy_at (memcpy_at buf at a) (at + length a) b = memcpy_at buf at (a @ b)"
  by (simp add: memcpy_at_def ac_simps)

lemma memcpy_at_whole: "length src = length buf \<Longrightarrow> memcpy_at buf 0 src = src"
  by (simp add: memcpy_at_def)

lemma length_process_block [simp]: "length (process_block st b) = 8"
  by (simp add: process_block_def Let_def split: prod.split)

lemma sha_inv_new: "sha_inv sha_new"
  by (simp add: sha_inv_def sha_new_def sha_reset_def)

lemma sha_inv_copy:
  "sha_inv h \<Longrightarrow> buffer_len h + length c \<le> 64 \<Longrightarrow> sha_inv (sha_copy h c)"
  by (auto simp: sha_inv_def sha_copy_def Let_def kSha256BlockSize_def length_memcpy_at)

lemma sha_copy_twice:
  "sha_inv h \<Longrightarrow> buffer_len h + length a < 64 \<Longrightarrow> buffer_len h + length a + length b \<le> 64 \<Longrightarrow>
    sha_copy (sha_copy h a) b = sha_copy h (a @ b)"
  by (auto simp: sha_inv_def sha_copy_def Let_def kSha256BlockSize_def memcpy_at_twice add.assoc)

abbreviation sha_step :: "Sha256 \<Rightarrow> byte \<Rightarrow> Sha256" where
  "sha_step h x \<equiv> sha_copy h [x]"

lemma sha_inv_step: "sha_inv h \<Longrightarrow> sha_inv (sha_step h x)"
  by (rule sha_inv_copy) (simp_all add: sha_inv_def)

lemma sha_inv_steps: "sha_inv h \<Longrightarrow> sha_inv (foldl sha_step h xs)"
  by (induction xs arbitrary: h) (simp_all add: sha_inv_step)

lemma sha_copy_steps:
  "sha_inv h \<Longrightarrow> xs \<noteq> [] \<Longrightarrow> buffer_len h + length xs \<le> 64 \<Longrightarrow> foldl sha_step h xs = sha_copy h xs"
proof (induction xs arbitrary: h)
  case Nil
  then show ?case by simp
next
  case (Cons x xs)
  show ?case
  proof (cases "xs = []")
    case False
    then have lt: "buffer_len h + 1 < 64"
      using Cons.prems by (cases xs) auto
    then have "buffer_len (sha_copy h [x]) = buffer_len h + 1"
      by (simp add: buffer_len_sha_copy)
    moreover have "sha_inv (sha_copy h [x])"
      using Cons.prems by (intro sha_inv_copy) auto
    ultimately have "foldl sha_step (sha_copy h [x]) xs = sha_copy (sha_copy h [x]) xs"
      using False Cons.prems by (intro Cons.IH) auto
    also have "\<dots> = sha_copy h (x # xs)"
      using sha_copy_twice [of h "[x]" xs] Cons.prems lt by simp
    finally show ?thesis by simp
  qed simp
qed

lemma sha_update_loop_steps: "sha_inv h \<Longrightarrow> sha_update_loop h data = foldl sha_step h data"
proof (induction h data rule: sha_update_loop.induct)
  case (1 h data)
  show ?case
  proof (cases "data = []")
    case True
    then show ?thesis by (simp add: sha_update_loop.simps)
  next
    case False
    define n where "n = (if length data < 64 - buffer_len h then length data else 64 - buffer_len h)"
    have bl: "buffer_len h < 64"
      using "1.prems" by (simp add: sha_inv_def)
    have n: "0 < n" "n \<le> length data" "buffer_len h + n \<le> 64"
      using False bl by (auto simp: n_def)
    have ne: "take n data \<noteq> []"
      using n by auto
    have copy: "foldl sha_step h (take n data) = sha_copy h (take n data)"
      using "1.prems" ne n by (intro sha_copy_steps) auto
    have inv: "sha_inv (sha_copy h (take n data))"
      using "1.prems" n by (intro sha_inv_copy) auto
    have "sha_update_loop h data = sha_update_loop (sha_copy h (take n data)) (drop n data)"
      using False bl by (simp add: sha_update_loop.simps [of h data] kSha256BlockSize_def Let_def n_def)
    also have "\<dots> = foldl sha_step (sha_copy h (take n data)) (drop n data)"
      using "1.IH" [OF _ _ _ inv [unfolded n_def]] False bl
      by (simp add: kSha256BlockSize_def n_def)
    also have "\<dots> = foldl sha_step h (take n data @ drop n data)"
      by (simp only: foldl_append copy)
    finally show ?thesis by simp
  qed
qed

lemma sha_step_bit_count:
  "bit_count (sha_copy h c) = bit_count h"
  "sha_copy (h\<lparr>bit_count := n\<rparr>) c = (sha_copy h c)\<lparr>bit_count := n\<rparr>"
  by (simp_all add: sha_copy_def Let_def)

lemma sha_steps_bit_count:
  "bit_count (foldl sha_step h xs) = bit_count h"
  "foldl sha_step (h\<lparr>bit_count := n\<rparr>) xs = (foldl sha_step h xs)\<lparr>bit_count := n\<rparr>"
  by (induction xs arbitrary: h) (simp_all add: sha_step_bit_count)

lemma sha_inv_bit_count [simp]: "sha_inv (h\<lparr>bit_count := n\<rparr>) = sha_inv h"
  by (simp add: sha_inv_def)

lemma sha_update_steps:
  "sha_inv h \<Longrightarrow> sha_update h data =
    (foldl sha_step h data)\<lparr>bit_count := bit_count h + of_nat (length data) * 8\<rparr>"
  by (simp add: sha_update_def sha_update_loop_steps sha_steps_bit_count)

lemma sha_inv_update: "sha_inv h \<Longrightarrow> sha_inv (sha_update h data)"
  by (simp add: sha_update_steps sha_inv_steps)

lemma sha_update_append: "sha_inv h \<Longrightarrow> sha_update (sha_update h a) b = sha_update h (a @ b)"
  by (simp add: sha_update_steps sha_inv_steps sha_inv_update sha_steps_bit_count algebra_simps)

lemma sha_update_Nil: "sha_inv h \<Longrightarrow> sha_update h [] = h"
  by (simp add: sha_update_steps)

interpretation sha: streaming_hash sha_new sha_update sha_finish sha_inv "\<lambda>h. h"
  by unfold_locales (simp_all add: sha_inv_new sha_inv_update sha_update_append sha_update_Nil)

section \<open>The reference: padding and block fold of FIPS 180-4\<close>

text \<open>
  \<open>pad_zeros n\<close> is the number of zero bytes between the \<open>0x80\<close> marker and the 64-bit length
  that completes the last block of an \<open>n\<close>-byte message.
\<close>

function hash_blocks :: "u32 list \<Rightarrow> bytes \<Rightarrow> u32 list" where
  "hash_blocks st bs =
     (if length bs < 64 then st else hash_blocks (process_block st (take 64 bs)) (drop 64 bs))"
  by pat_completeness auto
termination
  by (relation "measure (\<lambda>(st, bs). length bs)") auto

declare hash_blocks.simps [simp del]

definition pad_zeros :: "nat \<Rightarrow> nat" where
  "pad_zeros n = (120 - (n + 1) mod 64) mod 64"

definition sha_padded :: "bytes \<Rightarrow> bytes" where
  "sha_padded m = m @ [0x80] @ replicate (pad_zeros (length m)) 0
     @ length_block (of_nat (length m) * 8)"

definition sha256_spec :: "bytes \<Rightarrow> bytes" where
  "sha256_spec m = sha_output (hash_blocks (sha_state sha_new) (sha_padded m))"

lemma length_length_block [simp]: "length (length_block n) = 8"
  by (simp add: length_block_def)

lemma pad_zeros_total: "(n + 1 + pad_zeros n + 8) mod 64 = 0"
proof -
  define r where "r = (n + 1) mod 64"
  have "r < 64"
    by (simp add: r_def)
  then have "r + (120 - r) mod 64 + 8 = (if r \<le> 56 then 64 else 128)"
    by (auto simp: mod_if)
  then have "(r + (120 - r) mod 64 + 8) mod 64 = 0"
    by (simp split: if_splits)
  moreover have "(n + 1 + pad_zeros n + 8) mod 64 = (r + (120 - r) mod 64 + 8) mod 64"
    unfolding pad_zeros_def r_def by (metis add.assoc mod_add_left_eq)
  ultimately show ?thesis by simp
qed

lemma dvd_sha_padded: "64 dvd length (sha_padded m)"
  using pad_zeros_total [of "length m"] by (simp add: sha_padded_def dvd_eq_mod_eq_0 ac_simps)

lemma buffer_len_steps:
  "sha_inv h \<Longrightarrow> buffer_len (foldl sha_step h xs) = (buffer_len h + length xs) mod 64"
proof (induction xs arbitrary: h)
  case Nil
  then show ?case by (simp add: sha_inv_def)
next
  case (Cons x xs)
  then have "sha_inv (sha_step h x)"
    by (intro sha_inv_copy) (auto simp: sha_inv_def)
  with Cons show ?case
    by (auto simp: buffer_len_sha_copy sha_inv_def mod_simps)
qed

lemma buffer_len_update:
  "sha_inv h \<Longrightarrow> buffer_len (sha_update h xs) = (buffer_len h + length xs) mod 64"
  by (simp add: sha_update_steps buffer_len_steps)

lemma sha_new_fields [simp]: "buffer_len sha_new = 0" "bit_count sha_new = 0"
  by (simp_all add: sha_new_def sha_reset_def)

lemma hash_blocks_steps:
  "sha_inv h \<Longrightarrow> buffer_len h = 0 \<Longrightarrow> 64 dvd length xs \<Longrightarrow>
    sha_state (foldl sha_step h xs) = hash_blocks (sha_state h) xs"
proof (induction "length xs" arbitrary: xs h rule: less_induct)
  case less
  show ?case
  proof (cases "xs = []")
    case True
    then show ?thesis by (simp add: hash_blocks.simps)
  next
    case False
    then have ge: "64 \<le> length xs"
      using less.prems(3) by (auto dest: dvd_imp_le)
    define h' where "h' = foldl sha_step h (take 64 xs)"
    have "h' = sha_copy h (take 64 xs)"
      unfolding h'_def using less.prems False ge by (intro sha_copy_steps) auto
    then have st: "sha_state h' = process_block (sha_state h) (take 64 xs)"
      and bl: "buffer_len h' = 0"
      using less.prems ge
      by (auto simp: sha_copy_def Let_def kSha256BlockSize_def memcpy_at_whole sha_inv_def)
    have inv: "sha_inv h'"
      using less.prems by (simp add: h'_def sha_inv_steps)
    have "sha_state (foldl sha_step h xs) = sha_state (foldl sha_step h' (drop 64 xs))"
      unfolding h'_def foldl_append [symmetric] by simp
    also have "\<dots> = hash_blocks (sha_state h') (drop 64 xs)"
      using less.prems ge inv bl by (intro less.hyps) (auto simp: dvd_diff_nat)
    finally show ?thesis
      using ge by (simp add: st hash_blocks.simps [of _ xs])
  qed
qed

lemma sha_pad_zeros:
  "sha_inv h \<Longrightarrow> sha_pad h = sha_update h (replicate ((120 - buffer_len h) mod 64) 0)"
proof (induction h rule: sha_pad.induct)
  case (1 h)
  have bl: "buffer_len h < 64"
    using "1.prems" by (simp add: sha_inv_def)
  show ?case
  proof (cases "buffer_len h = 56")
    case True
    then show ?thesis
      using "1.prems" by (simp add: sha_pad.simps kSha256BlockSize_def sha_update_steps)
  next
    case False
    have b1: "buffer_len (sha_update h [0]) = (buffer_len h + 1) mod 64"
      using "1.prems" by (simp add: sha_update_steps buffer_len_sha_copy) (use bl in auto)
    have k: "(120 - buffer_len h) mod 64 = Suc ((120 - (buffer_len h + 1) mod 64) mod 64)"
      using bl False by (auto simp: mod_if)
    have "sha_pad h = sha_pad (sha_update h [0])"
      using False bl by (simp add: sha_pad.simps [of h] kSha256BlockSize_def)
    also have "\<dots> = sha_update (sha_update h [0])
        (replicate ((120 - (buffer_len h + 1) mod 64) mod 64) 0)"
      using "1.IH" "1.prems" False bl by (simp add: kSha256BlockSize_def sha_inv_update b1)
    finally show ?thesis
      using "1.prems" by (simp add: sha_update_append k)
  qed
qed


lemma sha_finish_update_new: "sha_finish (sha_update sha_new m) = sha256 m"
  by (simp add: sha256_def)

lemma length_sha256 [simp]: "length (sha256 m) = 32"
  by (simp add: sha256_def sha_finish_def Let_def sha_output_def length_concat comp_def
      sum_list_triv)

text \<open>
  Property C2.  However a message is cut into \<open>update\<close> calls, \<open>finish\<close> returns the digest of
  the whole message.
\<close>

theorem sha256_chunking: "sha_finish (foldl sha_update sha_new chunks) = sha256 (concat chunks)"
  using sha.digest_feed [of chunks] by (simp add: sha.feed_def sha256_def)

section \<open>HMAC and the comparison\<close>

lemma length_hmac_block_key [simp]: "length (hmac_block_key key) = 64"
  by (auto simp: hmac_block_key_def kSha256BlockSize_def length_memcpy_at)

text \<open>
  Property C3.  \<open>hmac_sha256\<close> is HMAC over SHA-256 (RFC 2104): the key is zero-padded to one
  block, or hashed first when it is longer than a block, and
  \<open>HMAC(k, m) = H((k xor opad) || H((k xor ipad) || m))\<close>.
\<close>

theorem hmac_sha256_rfc2104:
  "hmac_sha256 key m =
     (let k = (if 64 < length key then sha256 key @ replicate 32 0
               else key @ replicate (64 - length key) 0)
      in sha256 (map (\<lambda>b. b XOR 0x5c) k @ sha256 (map (\<lambda>b. b XOR 0x36) k @ m)))"
proof -
  have "hmac_block_key key = (if 64 < length key then sha256 key @ replicate 32 0
      else key @ replicate (64 - length key) 0)"
    by (simp add: hmac_block_key_def kSha256BlockSize_def memcpy_at_def)
  then show ?thesis
    by (simp add: hmac_sha256_def Let_def sha_update_append sha_inv_new sha256_def)
qed

lemma length_hmac [simp]: "length (hmac_sha256 key m) = 32"
  by (simp add: hmac_sha256_def Let_def sha_update_append sha_inv_new sha_finish_update_new)

lemma or_fold_zero:
  "fold (\<lambda>i d. d OR f i) is (d0 :: byte) = 0 \<longleftrightarrow> d0 = 0 \<and> (\<forall>i \<in> set is. f i = 0)"
proof (induction "is" arbitrary: d0)
  case Nil
  then show ?case by simp
next
  case (Cons j js)
  have "d0 OR f j = 0 \<longleftrightarrow> d0 = 0 \<and> f j = 0"
    by (simp add: or_eq_0_iff)
  with Cons show ?case by auto
qed

lemma constant_time_equal_nth:
  "constant_time_equal a b len \<longleftrightarrow> (\<forall>i < len. a ! i = b ! i)"
proof -
  have "x XOR y = 0 \<longleftrightarrow> x = y" for x y :: byte
    by (metis xor.assoc xor.right_neutral xor.left_neutral xor_self_eq)
  then show ?thesis
    by (auto simp: constant_time_equal_def or_fold_zero)
qed

lemma constant_time_equal_iff:
  "len \<le> length a \<Longrightarrow> len \<le> length b \<Longrightarrow>
    constant_time_equal a b len \<longleftrightarrow> take len a = take len b"
  by (auto simp: constant_time_equal_nth list_eq_iff_nth_eq)

end
