(* ===== verification/Xxh64.thy ===== *)
theory Xxh64
  imports Streaming_Hash Wire Sha256
begin

text \<open>
  The part of the bundled \<open>shared/xxhash.h\<close> the program uses: \<open>XXH64_reset\<close>, \<open>XXH64_update\<close> and
  \<open>XXH64_digest\<close> with the scalar helpers they call, and the one-shot \<open>XXH64\<close> they are checked
  against.  The 32-byte buffer \<open>mem64\<close> is the list of its bytes; little-endian reads are those
  of \<open>wire.h\<close>, which are the byte-shift loads of \<open>XXH_readLE64\<close> and \<open>XXH_readLE32\<close>.
\<close>

section \<open>Primitives\<close>

definition XXH_PRIME64_1 :: u64 where "XXH_PRIME64_1 = 0x9E3779B185EBCA87"
definition XXH_PRIME64_2 :: u64 where "XXH_PRIME64_2 = 0xC2B2AE3D27D4EB4F"
definition XXH_PRIME64_3 :: u64 where "XXH_PRIME64_3 = 0x165667B19E3779F9"
definition XXH_PRIME64_4 :: u64 where "XXH_PRIME64_4 = 0x85EBCA77C2B2AE63"
definition XXH_PRIME64_5 :: u64 where "XXH_PRIME64_5 = 0x27D4EB2F165667C5"

definition XXH_rotl64 :: "u64 \<Rightarrow> nat \<Rightarrow> u64" where
  "XXH_rotl64 x r = push_bit r x OR drop_bit (64 - r) x"

definition XXH_readLE64 :: "bytes \<Rightarrow> u64" where
  "XXH_readLE64 bytePtr = read_u64_le bytePtr"

definition XXH_readLE32 :: "bytes \<Rightarrow> u32" where
  "XXH_readLE32 bytePtr = read_u32_le bytePtr"

definition XXH64_round :: "u64 \<Rightarrow> u64 \<Rightarrow> u64" where
  "XXH64_round acc input = XXH_rotl64 (acc + input * XXH_PRIME64_2) 31 * XXH_PRIME64_1"

definition XXH64_mergeRound :: "u64 \<Rightarrow> u64 \<Rightarrow> u64" where
  "XXH64_mergeRound acc val =
     (acc XOR XXH64_round 0 val) * XXH_PRIME64_1 + XXH_PRIME64_4"

definition XXH64_avalanche :: "u64 \<Rightarrow> u64" where
  "XXH64_avalanche hash =
     (let h1 = (hash XOR drop_bit 33 hash) * XXH_PRIME64_2;
          h2 = (h1 XOR drop_bit 29 h1) * XXH_PRIME64_3
      in h2 XOR drop_bit 32 h2)"

text \<open>The three stages of \<open>XXH64_finalize\<close>: whole 8-byte words, one 4-byte word, single bytes.\<close>

function finalize_words :: "u64 \<Rightarrow> bytes \<Rightarrow> nat \<Rightarrow> u64 \<times> bytes \<times> nat" where
  "finalize_words hash ptr len =
     (if 8 \<le> len
      then finalize_words
        (XXH_rotl64 (hash XOR XXH64_round 0 (XXH_readLE64 ptr)) 27 * XXH_PRIME64_1 + XXH_PRIME64_4)
        (drop 8 ptr) (len - 8)
      else (hash, ptr, len))"
  by pat_completeness auto
termination
  by (relation "measure (\<lambda>(hash, ptr, len). len)") auto

declare finalize_words.simps [simp del]

fun finalize_bytes :: "u64 \<Rightarrow> bytes \<Rightarrow> nat \<Rightarrow> u64" where
  "finalize_bytes hash ptr 0 = hash"
| "finalize_bytes hash ptr (Suc len) =
     finalize_bytes (XXH_rotl64 (hash XOR ucast (ptr ! 0) * XXH_PRIME64_5) 11 * XXH_PRIME64_1)
       (drop 1 ptr) len"

definition XXH64_finalize :: "u64 \<Rightarrow> bytes \<Rightarrow> u64 \<Rightarrow> u64" where
  "XXH64_finalize hash ptr len =
     (let n = unat (len AND 31);
          (h1, p1, n1) = finalize_words hash ptr n;
          (h2, p2, n2) =
            (if 4 \<le> n1
             then (XXH_rotl64 (h1 XOR ucast (XXH_readLE32 p1) * XXH_PRIME64_1) 23 * XXH_PRIME64_2
                     + XXH_PRIME64_3, drop 4 p1, n1 - 4)
             else (h1, p1, n1))
      in XXH64_avalanche (finalize_bytes h2 p2 n2))"

section \<open>Stripes\<close>

definition stripe :: "u64 list \<Rightarrow> bytes \<Rightarrow> u64 list" where
  "stripe v p =
     [XXH64_round (v ! 0) (XXH_readLE64 p), XXH64_round (v ! 1) (XXH_readLE64 (drop 8 p)),
      XXH64_round (v ! 2) (XXH_readLE64 (drop 16 p)), XXH64_round (v ! 3) (XXH_readLE64 (drop 24 p))]"

function stripes :: "u64 list \<Rightarrow> bytes \<Rightarrow> u64 list \<times> bytes" where
  "stripes v p = (if 32 \<le> length p then stripes (stripe v p) (drop 32 p) else (v, p))"
  by pat_completeness auto
termination
  by (relation "measure (\<lambda>(v, p). length p)") auto

declare stripes.simps [simp del]

definition merge_lanes :: "u64 list \<Rightarrow> u64" where
  "merge_lanes v =
     (let h0 = XXH_rotl64 (v ! 0) 1 + XXH_rotl64 (v ! 1) 7 + XXH_rotl64 (v ! 2) 12
                 + XXH_rotl64 (v ! 3) 18
      in XXH64_mergeRound (XXH64_mergeRound (XXH64_mergeRound (XXH64_mergeRound h0
           (v ! 0)) (v ! 1)) (v ! 2)) (v ! 3))"

definition seed_lanes :: "u64 \<Rightarrow> u64 list" where
  "seed_lanes seed =
     [seed + XXH_PRIME64_1 + XXH_PRIME64_2, seed + XXH_PRIME64_2, seed + 0, seed - XXH_PRIME64_1]"

text \<open>The one-shot \<open>XXH64\<close> (\<open>XXH64_endian_align\<close>); \<open>len\<close> is the \<open>size_t\<close> length.\<close>

definition XXH64 :: "bytes \<Rightarrow> u64 \<Rightarrow> u64" where
  "XXH64 input seed =
     (let (h, p) = (if 32 \<le> length input
                    then let (v, rest) = stripes (seed_lanes seed) input in (merge_lanes v, rest)
                    else (seed + XXH_PRIME64_5, input))
      in XXH64_finalize (h + of_nat (length input)) p (of_nat (length input)))"

section \<open>The streaming interface\<close>

record XXH64_state =
  total_len :: u64
  lanes :: "u64 list"
  mem64 :: bytes
  memsize :: nat

definition XXH64_reset :: "u64 \<Rightarrow> XXH64_state" where
  "XXH64_reset seed =
     \<lparr>total_len = 0, lanes = seed_lanes seed, mem64 = replicate 32 0, memsize = 0\<rparr>"

definition XXH64_update :: "XXH64_state \<Rightarrow> bytes \<Rightarrow> XXH64_state" where
  "XXH64_update s input =
     (let s1 = s\<lparr>total_len := total_len s + of_nat (length input)\<rparr> in
      if memsize s1 + length input < 32
      then s1\<lparr>mem64 := memcpy_at (mem64 s1) (memsize s1) input,
              memsize := memsize s1 + length input\<rparr>
      else
        let (s2, p) =
              (if memsize s1 \<noteq> 0
               then let m = memcpy_at (mem64 s1) (memsize s1) (take (32 - memsize s1) input)
                    in (s1\<lparr>mem64 := m, lanes := stripe (lanes s1) m, memsize := 0\<rparr>,
                        drop (32 - memsize s1) input)
               else (s1, input));
            (v, rest) = stripes (lanes s2) p;
            s3 = s2\<lparr>lanes := v\<rparr>
        in if rest \<noteq> [] then s3\<lparr>mem64 := memcpy_at (mem64 s3) 0 rest, memsize := length rest\<rparr>
           else s3)"

definition XXH64_digest :: "XXH64_state \<Rightarrow> u64" where
  "XXH64_digest s =
     (let h = (if 32 \<le> total_len s then merge_lanes (lanes s)
               else lanes s ! 2 + XXH_PRIME64_5)
      in XXH64_finalize (h + total_len s) (mem64 s) (total_len s))"

section \<open>Streaming and one-shot agree\<close>

definition xxh_inv :: "XXH64_state \<Rightarrow> bool" where
  "xxh_inv s \<longleftrightarrow> memsize s < 32 \<and> length (mem64 s) = 32
     \<and> memsize s = unat (total_len s) mod 32"

definition xxh_absorbed :: "XXH64_state \<Rightarrow> u64 \<times> u64 list \<times> bytes" where
  "xxh_absorbed s = (total_len s, lanes s, take (memsize s) (mem64 s))"

lemma stripe_take: "32 \<le> length p \<Longrightarrow> stripe v (p @ q) = stripe v p"
  by (simp add: stripe_def XXH_readLE64_def read_prefix)

lemma stripe_prefix: "length m = 32 \<Longrightarrow> stripe v (m @ q) = stripe v m"
  by (rule stripe_take) simp

lemma stripes_append: "stripes v (a @ b) = (case stripes v a of (v', r) \<Rightarrow> stripes v' (r @ b))"
proof (induction v a rule: stripes.induct)
  case (1 v p)
  show ?case
  proof (cases "32 \<le> length p")
    case True
    then have "stripes v (p @ b) = stripes (stripe v p) (drop 32 p @ b)"
      by (simp add: stripes.simps [of v "p @ b"] stripe_take)
    also have "\<dots> = (case stripes (stripe v p) (drop 32 p) of (v', r) \<Rightarrow> stripes v' (r @ b))"
      using True by (rule "1.IH")
    finally show ?thesis
      using True by (simp add: stripes.simps [of v p])
  qed (simp add: stripes.simps [of v p])
qed

lemma stripes_short: "length p < 32 \<Longrightarrow> stripes v p = (v, p)"
  by (simp add: stripes.simps)

lemma stripes_rest_length: "stripes v p = (v', r) \<Longrightarrow> length r = length p mod 32"
proof (induction v p rule: stripes.induct)
  case (1 v p)
  then show ?case
    by (cases "32 \<le> length p") (auto simp: stripes.simps [of v p] le_mod_geq)
qed

lemma unat_add_mod32: "unat (a + of_nat n :: u64) mod 32 = (unat a + n) mod 32"
  by (simp add: unat_word_ariths unsigned_of_nat take_bit_eq_mod mod_mod_cancel mod_simps)

lemma xxh_update_absorbed:
  assumes "xxh_inv s"
  shows "xxh_absorbed (XXH64_update s d) =
    (total_len s + of_nat (length d), stripes (lanes s) (take (memsize s) (mem64 s) @ d))"
proof -
  define buf where "buf = take (memsize s) (mem64 s)"
  have buf: "length buf = memsize s" "memsize s < 32" "length (mem64 s) = 32"
    using assms by (auto simp: buf_def xxh_inv_def)
  show ?thesis
  proof (cases "memsize s + length d < 32")
    case True
    then show ?thesis
      using buf by (simp add: XXH64_update_def xxh_absorbed_def memcpy_at_def stripes_short buf_def)
  next
    case False
    define p where "p = drop (32 - memsize s) d"
    define m where "m = buf @ take (32 - memsize s) d"
    have m: "length m = 32" "buf @ d = m @ p"
      using False buf by (auto simp: m_def p_def)
    have step: "stripes (lanes s) (buf @ d) = stripes (stripe (lanes s) m) p"
      using m by (simp add: stripes.simps [of _ "m @ p"] stripe_prefix)
    have mem: "memcpy_at (mem64 s) (memsize s) (take (32 - memsize s) d) = m"
      using False buf by (simp add: memcpy_at_def m_def buf_def)
    obtain v r where vr: "stripes (lanes s) (buf @ d) = (v, r)"
      by fastforce
    then have r: "length r < 32"
      by (simp add: stripes_rest_length)
    show ?thesis
    proof (cases "memsize s = 0")
      case True
      then have "buf @ d = d"
        by (simp add: buf_def)
      with True False vr r buf show ?thesis
        by (auto simp: XXH64_update_def xxh_absorbed_def memcpy_at_def Let_def simp flip: buf_def)
    next
      case nz: False
      from vr step have "stripes (stripe (lanes s) m) p = (v, r)"
        by simp
      with nz False vr r buf m show ?thesis
        by (auto simp: XXH64_update_def xxh_absorbed_def memcpy_at_def [of m] Let_def mem
            simp flip: buf_def p_def)
    qed
  qed
qed

lemma xxh_inv_reset: "xxh_inv (XXH64_reset seed)"
  by (simp add: xxh_inv_def XXH64_reset_def)

lemma xxh_update_bounds:
  assumes "xxh_inv s"
  shows "length (mem64 (XXH64_update s d)) = 32" and "memsize (XXH64_update s d) < 32"
proof -
  have short: "stripes v p = (v', r) \<Longrightarrow> length r < 32" for v p v' r
    by (simp add: stripes_rest_length)
  from assms show "length (mem64 (XXH64_update s d)) = 32"
    by (auto simp: XXH64_update_def xxh_inv_def Let_def length_memcpy_at less_imp_le
        dest!: short split: prod.splits)
  from assms show "memsize (XXH64_update s d) < 32"
    by (auto simp: XXH64_update_def xxh_inv_def Let_def dest!: short split: prod.splits)
qed

lemma xxh_inv_update:
  assumes inv: "xxh_inv s"
  shows "xxh_inv (XXH64_update s d)"
proof -
  define t where "t = XXH64_update s d"
  obtain v r where vr: "stripes (lanes s) (take (memsize s) (mem64 s) @ d) = (v, r)"
    by fastforce
  have abs: "total_len t = total_len s + of_nat (length d)" "take (memsize t) (mem64 t) = r"
    using xxh_update_absorbed [OF inv, of d] by (simp_all add: vr t_def xxh_absorbed_def)
  have bounds: "length (mem64 t) = 32" "memsize t < 32"
    using inv by (simp_all add: t_def xxh_update_bounds)
  with abs(2) have "memsize t = length r"
    by auto
  also have "\<dots> = (memsize s + length d) mod 32"
    using stripes_rest_length [OF vr] inv by (simp add: xxh_inv_def)
  also have "\<dots> = unat (total_len t) mod 32"
    using inv by (simp add: abs(1) unat_add_mod32 xxh_inv_def mod_simps)
  finally show ?thesis
    using bounds by (simp add: xxh_inv_def t_def)
qed

lemma xxh_update_append:
  assumes inv: "xxh_inv s"
  shows "xxh_absorbed (XXH64_update (XXH64_update s a) b) = xxh_absorbed (XXH64_update s (a @ b))"
proof -
  define t where "t = XXH64_update s a"
  have t: "xxh_inv t"
    "total_len t = total_len s + of_nat (length a)"
    "(lanes t, take (memsize t) (mem64 t)) = stripes (lanes s) (take (memsize s) (mem64 s) @ a)"
    using xxh_update_absorbed [OF inv, of a] inv
    by (simp_all add: t_def xxh_inv_update xxh_absorbed_def)
  have "stripes (lanes s) (take (memsize s) (mem64 s) @ a @ b) =
      stripes (lanes t) (take (memsize t) (mem64 t) @ b)"
    using stripes_append [of "lanes s" "take (memsize s) (mem64 s) @ a" b]
    by (simp flip: t(3))
  then show ?thesis
    by (simp add: xxh_update_absorbed inv t(1,2) add.assoc flip: t_def)
qed

lemma finalize_words_append:
  "len \<le> length p \<Longrightarrow>
    finalize_words h (p @ q) len = (case finalize_words h p len of (h', p', n) \<Rightarrow> (h', p' @ q, n))
    \<and> (case finalize_words h p len of (h', p', n) \<Rightarrow> n \<le> length p')"
proof (induction h p len rule: finalize_words.induct)
  case (1 h p len)
  show ?case
  proof (cases "8 \<le> len")
    case True
    with "1.prems" have "XXH_readLE64 (p @ q) = XXH_readLE64 p"
      by (simp add: XXH_readLE64_def read_prefix)
    with True "1.prems" "1.IH" show ?thesis
      by (simp add: finalize_words.simps [of _ _ len] )
  qed (use "1.prems" in \<open>simp add: finalize_words.simps [of _ _ len]\<close>)
qed

lemma finalize_bytes_append:
  "len \<le> length p \<Longrightarrow> finalize_bytes h (p @ q) len = finalize_bytes h p len"
  by (induction h p len rule: finalize_bytes.induct) (auto simp: nth_append)

lemma unat_and_31: "unat (len AND 31 :: u64) = unat len mod 32"
proof -
  have "len AND 31 = take_bit 5 len"
    by (simp add: take_bit_eq_mask mask_numeral)
  then show ?thesis
    by (simp only: unsigned_take_bit_eq) (simp add: take_bit_eq_mod)
qed

lemma XXH64_finalize_append:
  assumes "unat len mod 32 \<le> length p"
  shows "XXH64_finalize h (p @ q) len = XXH64_finalize h p len"
proof -
  obtain h1 p1 n1 where f: "finalize_words h p (unat len mod 32) = (h1, p1, n1)"
    by (metis prod_cases3)
  with finalize_words_append [OF assms, of h q] have n1: "n1 \<le> length p1"
    and fq: "finalize_words h (p @ q) (unat len mod 32) = (h1, p1 @ q, n1)"
    by auto
  from n1 show ?thesis
    by (auto simp: XXH64_finalize_def unat_and_31 f fq Let_def XXH_readLE32_def read_prefix
        finalize_bytes_append)
qed

lemma xxh_digest_absorbed:
  "xxh_inv s \<Longrightarrow> XXH64_digest s =
    (case xxh_absorbed s of (n, v, r) \<Rightarrow>
      XXH64_finalize ((if 32 \<le> n then merge_lanes v else v ! 2 + XXH_PRIME64_5) + n) r n)"
  using XXH64_finalize_append [of "total_len s" "take (memsize s) (mem64 s)" _
      "drop (memsize s) (mem64 s)"]
  by (simp add: XXH64_digest_def xxh_absorbed_def Let_def xxh_inv_def)

interpretation xxh: streaming_hash "XXH64_reset 0" XXH64_update XXH64_digest xxh_inv xxh_absorbed
proof unfold_locales
  show "xxh_absorbed (XXH64_update s []) = xxh_absorbed s" if "xxh_inv s" for s
    using that xxh_update_absorbed [OF that, of "[]"]
    by (simp add: xxh_inv_def stripes_short xxh_absorbed_def)
  show "xxh_absorbed (XXH64_update s d) = xxh_absorbed (XXH64_update t d)"
    if "xxh_inv s" "xxh_inv t" "xxh_absorbed s = xxh_absorbed t" for s t d
    using that by (simp add: xxh_update_absorbed) (simp add: xxh_absorbed_def)
qed (simp_all add: xxh_inv_reset xxh_inv_update xxh_update_append xxh_digest_absorbed)

lemma XXH64_one_shot:
  assumes "length m < 2 ^ 64"
  shows "XXH64_digest (XXH64_update (XXH64_reset 0) m) = XXH64 m 0"
proof -
  obtain v r where vr: "stripes (seed_lanes 0) m = (v, r)"
    by fastforce
  have ge: "32 \<le> (of_nat (length m) :: u64) \<longleftrightarrow> 32 \<le> length m"
    using assms by (simp add: word_le_nat_alt unsigned_of_nat take_bit_eq_mod)
  have "xxh_absorbed (XXH64_update (XXH64_reset 0) m) = (of_nat (length m), v, r)"
    by (simp add: xxh_update_absorbed xxh_inv_reset) (simp add: XXH64_reset_def vr)
  then show ?thesis
    using vr stripes_short [of m "seed_lanes 0"]
    by (simp add: xxh_digest_absorbed xxh_inv_update xxh_inv_reset XXH64_def ge)
      (auto simp: seed_lanes_def)
qed

lemma XXH64_digest_blocks:
  assumes "length (concat blocks) < 2 ^ 64"
  shows "XXH64_digest (foldl XXH64_update (XXH64_reset 0) blocks) = XXH64 (concat blocks) 0"
  using xxh.digest_feed [of blocks] XXH64_one_shot [OF assms] by (simp add: xxh.feed_def)

text \<open>
  Property C4.  The streaming checksum the uploader and the server compute block by block is
  the one-shot \<open>XXH64\<close> (seed 0) of the whole unit, however the unit is cut into blocks.
\<close>

theorem XXH64_streaming:
  assumes "length (concat blocks) < 2 ^ 64"
  shows "XXH64_digest (foldl XXH64_update (XXH64_reset 0) blocks) = XXH64 (concat blocks) 0"
  using assms by (rule XXH64_digest_blocks)

theorem XXH64_streaming_witness:
  "length (concat [[1, 2], [3 :: byte]]) < 2 ^ 64 \<and>
   XXH64_digest (foldl XXH64_update (XXH64_reset 0) [[1, 2], [3]]) = XXH64 (concat [[1, 2], [3]]) 0"
  using XXH64_streaming [of "[[1, 2], [3]]"] by simp

end
