(* ===== verification/Byte_Source.thy ===== *)
theory Byte_Source
  imports Wire
begin

text \<open>
  The contract between the two ends' protocol code and the transports below it: an exact read
  either delivers the next \<open>n\<close> bytes of the stream or fails because fewer are left.  The
  server's \<open>ByteChannel::read_exact\<close> and the client's \<open>recvExact\<close> provide it, with whatever
  buffering, waiting and short reads they have inside.  The reference provider is a plain list
  of bytes, on which a reading function can be evaluated.
\<close>

type_synonym 'c reader = "'c \<Rightarrow> nat \<Rightarrow> bytes option \<times> 'c"

locale byte_source =
  fixes rd :: "'c \<Rightarrow> nat \<Rightarrow> bytes option \<times> 'c"
    and inv :: "'c \<Rightarrow> bool"
    and stream :: "'c \<Rightarrow> bytes"
  assumes read_law: "inv c \<Longrightarrow> rd c n = (r, c') \<Longrightarrow> inv c' \<and> stream c' = drop n (stream c) \<and>
    r = (if n \<le> length (stream c) then Some (take n (stream c)) else None)"
begin

lemma read_result: "inv c \<Longrightarrow> fst (rd c n) = (if n \<le> length (stream c) then Some (take n (stream c)) else None)"
  using read_law [of c n] by (cases "rd c n") auto

lemma read_rest: "inv c \<Longrightarrow> stream (snd (rd c n)) = drop n (stream c)"
  using read_law [of c n] by (cases "rd c n") auto

lemma read_inv: "inv c \<Longrightarrow> inv (snd (rd c n))"
  using read_law [of c n] by (cases "rd c n") auto

text \<open>The two outcomes of a read, with what is left; the reading functions below case-split on it.\<close>

lemma read_cases:
  assumes "inv c"
  obtains (more) c' where "n \<le> length (stream c)" "rd c n = (Some (take n (stream c)), c')"
      "inv c'" "stream c' = drop n (stream c)"
    | (eof) c' where "length (stream c) < n" "rd c n = (None, c')" "inv c'" "stream c' = []"
proof (cases "n \<le> length (stream c)")
  case True
  then show ?thesis
    using more [of "snd (rd c n)"] assms read_result [of c n] read_rest [of c n] read_inv [of c n]
    by (simp add: prod_eq_iff)
next
  case False
  then show ?thesis
    using eof [of "snd (rd c n)"] assms read_result [of c n] read_rest [of c n] read_inv [of c n]
    by (simp add: prod_eq_iff)
qed

lemma read_append:
  "inv c \<Longrightarrow> stream c = p @ rest \<Longrightarrow> length p = n \<Longrightarrow>
    \<exists>c'. rd c n = (Some p, c') \<and> inv c' \<and> stream c' = rest"
  using read_result [of c n] read_rest [of c n] read_inv [of c n]
  by (intro exI [of _ "snd (rd c n)"]) (simp add: prod_eq_iff)

end

definition list_read :: "bytes \<Rightarrow> nat \<Rightarrow> bytes option \<times> bytes" where
  "list_read bs n = (if n \<le> length bs then Some (take n bs) else None, drop n bs)"

interpretation list_source: byte_source list_read "\<lambda>_. True" "\<lambda>bs. bs"
  by unfold_locales (auto simp: list_read_def)

lemma list_read_append [simp]: "length p = n \<Longrightarrow> list_read (p @ rest) n = (Some p, rest)"
  by (simp add: list_read_def)

lemma list_read_one [simp]: "list_read (b # rest) (Suc 0) = (Some [b], rest)"
  by (simp add: list_read_def)

lemma list_read_Nil [simp]: "0 < n \<Longrightarrow> list_read [] n = (None, [])"
  by (simp add: list_read_def)

lemma list_read_Some:
  "list_read bs n = (Some x, c) \<longleftrightarrow> n \<le> length bs \<and> x = take n bs \<and> c = drop n bs"
  by (auto simp: list_read_def)

end
