(* ===== verification/Byte_Channel.thy ===== *)
theory Byte_Channel
  imports Byte_Source
begin

text \<open>
  \<open>server/byte_channel.cxx\<close>: the bounded-by-backpressure byte queue between the event loop,
  which pushes what arrives on the socket, and the consumer thread, which reads exact counts.

  Both sides hold the mutex for the whole call, except that \<open>read_exact\<close> releases it while it
  waits for data.  So a call is one step of the model, and a read that has to wait is cut into
  several: \<open>read_loop\<close> runs until the read is complete, has failed, or would wait, and then
  resumes with what the event loop did in between (\<open>chan_event\<close>).
\<close>

section \<open>The channel\<close>

record ByteChannel =
  blocks :: "bytes list"
  front_offset :: nat
  buffered :: nat
  low_water_mark :: nat
  closed :: bool

definition channel_new :: "nat \<Rightarrow> ByteChannel" where
  "channel_new low = \<lparr>blocks = [], front_offset = 0, buffered = 0, low_water_mark = low,
     closed = False\<rparr>"

definition push :: "ByteChannel \<Rightarrow> bytes \<Rightarrow> ByteChannel" where
  "push ch data =
     (if data = [] then ch
      else if closed ch then ch
      else ch\<lparr>blocks := blocks ch @ [data], buffered := buffered ch + length data\<rparr>)"

definition channel_close :: "ByteChannel \<Rightarrow> ByteChannel" where
  "channel_close ch = ch\<lparr>closed := True\<rparr>"

definition buffered_bytes :: "ByteChannel \<Rightarrow> nat" where
  "buffered_bytes ch = buffered ch"

text \<open>
  One pass of the copying loop: what \<open>read_exact\<close> does with the front block when \<open>copied\<close>
  bytes are still missing.  \<open>signaled\<close> says that the resume notifier has been called.
\<close>

definition read_front :: "ByteChannel \<Rightarrow> bytes \<Rightarrow> bytes \<Rightarrow> nat \<Rightarrow> bool \<Rightarrow>
    ByteChannel \<times> bytes \<times> bool" where
  "read_front ch front out count signaled =
     (let available = length front - front_offset ch;
          needed = count - length out;
          n = (if needed < available then needed else available);
          out' = out @ take n (drop (front_offset ch) front);
          ch1 = ch\<lparr>front_offset := front_offset ch + n, buffered := buffered ch - n\<rparr>;
          ch2 = (if front_offset ch1 = length front
                 then ch1\<lparr>blocks := tl (blocks ch1), front_offset := 0\<rparr> else ch1)
      in (ch2, out', signaled \<or> buffered ch2 \<le> low_water_mark ch2))"

text \<open>
  \<open>Waiting\<close> is \<open>data_available_.wait\<close>; \<open>Overrun\<close> would be a copy past the end of the front
  block, which \<open>chan_inv\<close> excludes.
\<close>

datatype ReadStatus = Complete | Failed | Waiting | Overrun

function read_loop :: "ByteChannel \<Rightarrow> bytes \<Rightarrow> nat \<Rightarrow> bool \<Rightarrow>
    ReadStatus \<times> ByteChannel \<times> bytes \<times> bool" where
  "read_loop ch out count signaled =
     (if length out < count
      then (case blocks ch of
              [] \<Rightarrow> (if closed ch then Failed else Waiting, ch, out, signaled)
            | front # rest \<Rightarrow>
                if length front < front_offset ch then (Overrun, ch, out, signaled)
                else let (ch', out', signaled') = read_front ch front out count signaled
                     in read_loop ch' out' count signaled')
      else (Complete, ch, out, signaled))"
  by pat_completeness auto
termination
  by (relation "measures [\<lambda>(ch, out, count, s). count - length out,
        \<lambda>(ch, out, count, s). length (blocks ch)]")
    (auto simp: read_front_def Let_def split: if_splits)

declare read_loop.simps [simp del]

text \<open>What the event loop may do while the consumer waits.\<close>

datatype chan_event = Push bytes | Close

fun chan_apply :: "ByteChannel \<Rightarrow> chan_event \<Rightarrow> ByteChannel" where
  "chan_apply ch (Push data) = push ch data"
| "chan_apply ch Close = channel_close ch"

text \<open>
  A whole \<open>read_exact\<close> call against the events to come; it is still waiting when they run out.
\<close>

fun read_events :: "ByteChannel \<Rightarrow> bytes \<Rightarrow> nat \<Rightarrow> bool \<Rightarrow> chan_event list \<Rightarrow>
    ReadStatus \<times> ByteChannel \<times> bytes \<times> bool \<times> chan_event list" where
  "read_events ch out count signaled [] =
     (case read_loop ch out count signaled of (st, ch', out', s') \<Rightarrow> (st, ch', out', s', []))"
| "read_events ch out count signaled (e # es) =
     (case read_loop ch out count signaled of (st, ch', out', s') \<Rightarrow>
        if st = Waiting then read_events (chan_apply ch' e) out' count s' es
        else (st, ch', out', s', e # es))"

section \<open>The channel holds a byte stream\<close>

definition chan_stream :: "ByteChannel \<Rightarrow> bytes" where
  "chan_stream ch = drop (front_offset ch) (concat (blocks ch))"

definition chan_inv :: "ByteChannel \<Rightarrow> bool" where
  "chan_inv ch \<longleftrightarrow> list_all (\<lambda>b. b \<noteq> []) (blocks ch)
     \<and> (case blocks ch of [] \<Rightarrow> front_offset ch = 0 | b # _ \<Rightarrow> front_offset ch < length b)
     \<and> buffered ch = length (chan_stream ch)"

lemma chan_inv_new [chan_simps]: "chan_inv (channel_new low)" "chan_stream (channel_new low) = []"
  by (simp_all add: chan_inv_def channel_new_def chan_stream_def)

lemma chan_stream_push [chan_simps]:
  "chan_inv ch \<Longrightarrow> chan_stream (push ch data) = (if closed ch then chan_stream ch else chan_stream ch @ data)"
  by (auto simp: push_def chan_stream_def chan_inv_def split: list.splits)

lemma chan_inv_push [chan_simps]: "chan_inv ch \<Longrightarrow> chan_inv (push ch data)"
  using chan_stream_push [of ch data]
  by (auto simp: push_def chan_inv_def split: list.splits)

lemma chan_close_simps [chan_simps]:
  "chan_stream (channel_close ch) = chan_stream ch" "chan_inv (channel_close ch) = chan_inv ch"
  "closed (channel_close ch)"
  by (simp_all add: channel_close_def chan_stream_def chan_inv_def split: list.split)

lemma closed_push [chan_simps, simp]: "closed (push ch data) = closed ch"
  by (simp add: push_def)

lemma low_water_mark_push [chan_simps, simp]:
  "low_water_mark (push ch data) = low_water_mark ch"
  "low_water_mark (channel_close ch) = low_water_mark ch"
  by (simp_all add: push_def channel_close_def)

lemma chan_stream_empty: "chan_inv ch \<Longrightarrow> chan_stream ch = [] \<longleftrightarrow> blocks ch = []"
  by (auto simp: chan_inv_def chan_stream_def split: list.splits)

text \<open>One pass moves a non-empty prefix of the stream to the output.\<close>

lemma read_front_stream:
  assumes inv: "chan_inv ch" and front: "blocks ch = front # rest" and "length out < count"
    and step: "read_front ch front out count signaled = (ch', out', signaled')"
  shows "chan_inv ch' \<and> closed ch' = closed ch \<and> low_water_mark ch' = low_water_mark ch \<and>
    (\<exists>p. p \<noteq> [] \<and> length out + length p \<le> count \<and> out' = out @ p
       \<and> chan_stream ch = p @ chan_stream ch') \<and>
    signaled' = (signaled \<or> buffered ch' \<le> low_water_mark ch)"
proof -
  define n where "n = min (count - length out) (length front - front_offset ch)"
  define p where "p = take n (drop (front_offset ch) front)"
  from inv front have off: "front_offset ch < length front"
    and ne: "list_all (\<lambda>b. b \<noteq> []) rest"
    and buf: "buffered ch = length (chan_stream ch)"
    and str: "chan_stream ch = drop (front_offset ch) front @ concat rest"
    by (auto simp: chan_inv_def chan_stream_def)
  have n: "(if count - length out < length front - front_offset ch then count - length out
      else length front - front_offset ch) = n"
    by (simp add: n_def min_def)
  have p: "p \<noteq> []" "length p = n" "length out + length p \<le> count"
    using off \<open>length out < count\<close> by (auto simp: p_def n_def)
  define ch2 where "ch2 = (if front_offset ch + n = length front
      then ch\<lparr>blocks := rest, front_offset := 0, buffered := buffered ch - n\<rparr>
      else ch\<lparr>front_offset := front_offset ch + n, buffered := buffered ch - n\<rparr>)"
  have res: "ch' = ch2" "out' = out @ p" "signaled' = (signaled \<or> buffered ch2 \<le> low_water_mark ch2)"
    using step front unfolding read_front_def Let_def n p_def ch2_def by (auto split: if_splits)
  have le: "front_offset ch + n \<le> length front"
    using off by (simp add: n_def)
  have str2: "chan_stream ch = p @ chan_stream ch2"
  proof (cases "front_offset ch + n = length front")
    case True
    then have "p = drop (front_offset ch) front"
      by (auto simp: p_def)
    with True show ?thesis
      by (simp add: str ch2_def) (simp add: chan_stream_def)
  next
    case False
    have "drop (front_offset ch) front = p @ drop (front_offset ch + n) front"
      unfolding p_def by (metis add.commute append_take_drop_id drop_drop)
    with False le front show ?thesis
      by (simp add: str ch2_def) (simp add: chan_stream_def)
  qed
  have "buffered ch2 = length (chan_stream ch2)"
    using buf str2 p(2) by (auto simp: ch2_def)
  moreover have "list_all (\<lambda>b. b \<noteq> []) (blocks ch2)"
    using ne inv front by (auto simp: ch2_def chan_inv_def)
  moreover have "case blocks ch2 of [] \<Rightarrow> front_offset ch2 = 0 | b # _ \<Rightarrow> front_offset ch2 < length b"
    using le ne front by (auto simp: ch2_def split: list.splits)
  ultimately have "chan_inv ch2"
    by (simp add: chan_inv_def)
  then show ?thesis
    using res p str2 by (auto simp: ch2_def)
qed

text \<open>
  A run of the loop: with \<open>need\<close> bytes missing it completes exactly when the stream holds them,
  and otherwise it has taken the whole stream.
\<close>

lemma read_loop_stream:
  assumes "chan_inv ch" and "length out \<le> count"
    and "read_loop ch out count signaled = (st, ch', out', signaled')"
  shows "chan_inv ch' \<and> closed ch' = closed ch \<and> low_water_mark ch' = low_water_mark ch \<and>
    out' = out @ take (count - length out) (chan_stream ch) \<and>
    chan_stream ch' = drop (count - length out) (chan_stream ch) \<and>
    st = (if count - length out \<le> length (chan_stream ch) then Complete
          else if closed ch then Failed else Waiting)"
  using assms
proof (induction ch out count signaled rule: read_loop.induct)
  case (1 ch out count signaled)
  show ?case
  proof (cases "length out < count")
    case False
    with 1(2,3,4) show ?thesis
      by (auto simp: read_loop.simps [of ch])
  next
    case True
    show ?thesis
    proof (cases "blocks ch")
      case Nil
      with True 1(2,4) chan_stream_empty [OF 1(2)] show ?thesis
        by (auto simp: read_loop.simps [of ch])
    next
      case (Cons front rest)
      obtain ch1 out1 s1 where step: "read_front ch front out count signaled = (ch1, out1, s1)"
        by (metis prod_cases3)
      note front = read_front_stream [OF 1(2) Cons True step]
      then obtain p where p: "length out + length p \<le> count" "out1 = out @ p"
          "chan_stream ch = p @ chan_stream ch1"
        by auto
      have off: "\<not> length front < front_offset ch"
        using 1(2) Cons by (simp add: chan_inv_def)
      have rec: "read_loop ch1 out1 count s1 = (st, ch', out', signaled')"
        using 1(4) True Cons off step by (simp add: read_loop.simps [of ch])
      have "chan_inv ch1" "length out1 \<le> count"
        using p front by simp_all
      note IH = 1(1) [OF True Cons off step [symmetric] refl refl this rec]
      have split: "count - length out = length p + (count - length out1)"
        using p by simp
      show ?thesis
        using IH front unfolding split p(3) by (auto simp: p(2))
    qed
  qed
qed

lemma read_loop_resume_idle:
  "read_loop ch out count s = (Waiting, ch', out', s') \<Longrightarrow> chan_inv ch \<Longrightarrow> length out \<le> count \<Longrightarrow>
    read_loop ch' out' count s' = (Waiting, ch', out', s')"
  using read_loop_stream [of ch out count s Waiting ch' out' s'] chan_stream_empty [of ch']
  by (auto simp: read_loop.simps [of ch'] split: if_splits)

section \<open>Reads against an arbitrary schedule of arrivals\<close>

fun pushed :: "bool \<Rightarrow> chan_event list \<Rightarrow> bytes" where
  "pushed c [] = []"
| "pushed c (Push data # es) = (if c then [] else data) @ pushed c es"
| "pushed c (Close # es) = pushed True es"

lemma pushed_closed [simp]: "pushed True es = []"
  by (induction "True" es rule: pushed.induct) auto

text \<open>
  All the bytes a channel will deliver: what it holds and what arrives before it is closed.
\<close>

definition to_come :: "ByteChannel \<Rightarrow> chan_event list \<Rightarrow> bytes" where
  "to_come ch es = chan_stream ch @ pushed (closed ch) es"

lemma chan_apply_simps:
  assumes "chan_inv ch"
  shows "chan_inv (chan_apply ch e)" "to_come (chan_apply ch e) es = to_come ch (e # es)"
  using assms by (cases e; simp add: to_come_def chan_simps)+

lemma read_events_stream:
  assumes "chan_inv ch" and "length out \<le> count"
    and "read_events ch out count signaled es = (st, ch', out', signaled', es')"
  shows "chan_inv ch' \<and>
    out' = out @ take (count - length out) (to_come ch es) \<and>
    to_come ch' es' = drop (count - length out) (to_come ch es) \<and>
    (st = Complete \<longleftrightarrow> count - length out \<le> length (to_come ch es)) \<and>
    (st \<noteq> Complete \<longrightarrow> st = (if closed ch \<or> Close \<in> set es then Failed else Waiting))"
  using assms
proof (induction es arbitrary: ch out signaled)
  case Nil
  then show ?case
    using read_loop_stream [of ch out count signaled st ch' out' signaled']
    by (auto simp: to_come_def split: prod.splits)
next
  case (Cons e es)
  obtain st1 ch1 out1 s1 where run: "read_loop ch out count signaled = (st1, ch1, out1, s1)"
    by (metis prod_cases4)
  note loop = read_loop_stream [OF Cons.prems(1,2) run]
  show ?case
  proof (cases "st1 = Waiting")
    case False
    with run Cons.prems(3) have "st = st1" "ch' = ch1" "out' = out1" "es' = e # es"
      by simp_all
    note same = this
    show ?thesis
    proof (cases "count - length out \<le> length (chan_stream ch)")
      case True
      with loop show ?thesis
        by (simp add: to_come_def same)
    next
      case short: False
      with False loop have "closed ch"
        by (simp split: if_splits)
      with short loop show ?thesis
        by (simp add: to_come_def same)
    qed
  next
    case True
    with run Cons.prems(3) have rec:
      "read_events (chan_apply ch1 e) out1 count s1 es = (st, ch', out', signaled', es')"
      by simp
    from True loop have ch1: "chan_inv ch1" "chan_stream ch1 = []" "closed ch1 = closed ch"
        "out1 = out @ chan_stream ch" "\<not> closed ch" "length (chan_stream ch) < count - length out"
      by (auto split: if_splits)
    have eq: "to_come ch (e # es) = chan_stream ch @ to_come (chan_apply ch1 e) es"
      using ch1 by (simp add: chan_apply_simps(2)) (simp add: to_come_def)
    have k: "count - length out = length (chan_stream ch) + (count - length out1)"
        and le: "length out1 \<le> count"
      using ch1 by simp_all
    have "closed (chan_apply ch1 e) \<longleftrightarrow> e = Close"
      using ch1 by (cases e) (simp_all add: channel_close_def)
    with Cons.IH [OF chan_apply_simps(1) [OF ch1(1)] le rec] show ?thesis
      unfolding eq k using ch1(4,5) by (cases e) simp_all
  qed
qed

text \<open>
  The channel as the consumer thread sees it until the connection goes away: the channel and
  what the event loop will still do to it, the last of which is to close it.
\<close>

type_synonym chan_source = "ByteChannel \<times> chan_event list"

definition read_exact :: "chan_source \<Rightarrow> nat \<Rightarrow> bytes option \<times> chan_source" where
  "read_exact src count =
     (case read_events (fst src) [] count False (snd src) of
        (st, ch', out, signaled, es') \<Rightarrow> (if st = Complete then Some out else None, (ch', es')))"

definition source_inv :: "chan_source \<Rightarrow> bool" where
  "source_inv src \<longleftrightarrow> chan_inv (fst src) \<and> (closed (fst src) \<or> Close \<in> set (snd src))"

definition source_stream :: "chan_source \<Rightarrow> bytes" where
  "source_stream src = to_come (fst src) (snd src)"

lemma read_events_closing:
  assumes "read_events ch out count signaled es = (st, ch', out', signaled', es')"
    and "chan_inv ch" and "length out \<le> count"
  shows "closed ch \<or> Close \<in> set es \<Longrightarrow> closed ch' \<or> Close \<in> set es'"
  using assms
proof (induction es arbitrary: ch out signaled)
  case Nil
  then show ?case
    using read_loop_stream [of ch out count signaled st ch' out' signaled']
    by (auto split: prod.splits)
next
  case (Cons e es)
  obtain st1 ch1 out1 s1 where run: "read_loop ch out count signaled = (st1, ch1, out1, s1)"
    by (metis prod_cases4)
  note loop = read_loop_stream [OF Cons.prems(3,4) run]
  have len: "length out1 \<le> count"
    using loop Cons.prems(4) by simp
  show ?case
  proof (cases "st1 = Waiting")
    case True
    have "closed (chan_apply ch1 e) \<or> Close \<in> set es"
      using loop Cons.prems(1) by (cases e) (auto simp: chan_simps)
    moreover have "read_events (chan_apply ch1 e) out1 count s1 es = (st, ch', out', signaled', es')"
      using run True Cons.prems(2) by simp
    ultimately show ?thesis
      using Cons.IH chan_apply_simps(1) loop len by blast
  next
    case False
    with run loop Cons.prems(1,2) show ?thesis by auto
  qed
qed

interpretation chan: byte_source read_exact source_inv source_stream
proof
  fix src n r src'
  assume "source_inv src" and "read_exact src n = (r, src')"
  obtain st ch' out s es' where
    run: "read_events (fst src) [] n False (snd src) = (st, ch', out, s, es')"
    by (metis prod_cases5)
  have res: "r = (if st = Complete then Some out else None)" "src' = (ch', es')"
    using \<open>read_exact src n = (r, src')\<close> run by (simp_all add: read_exact_def)
  have inv: "chan_inv (fst src)" and closing: "closed (fst src) \<or> Close \<in> set (snd src)"
    using \<open>source_inv src\<close> by (simp_all add: source_inv_def)
  have law: "chan_inv ch'" "out = take n (source_stream src)"
      "to_come ch' es' = drop n (source_stream src)"
      "st = Complete \<longleftrightarrow> n \<le> length (source_stream src)"
    using read_events_stream [OF inv _ run] unfolding source_stream_def by (simp_all del: take_all_iff)
  have "source_inv src'"
    using law(1) read_events_closing [OF run inv _ closing] by (simp add: source_inv_def res)
  then show "source_inv src' \<and> source_stream src' = drop n (source_stream src) \<and>
    r = (if n \<le> length (source_stream src) then Some (take n (source_stream src)) else None)"
    unfolding res(1) law(4) law(2) using law(3) by (simp add: res(2)) (simp add: source_stream_def)
qed

text \<open>
  Property C5.  \<open>read_exact\<close> delivers exactly the next \<open>n\<close> bytes of what the event loop has pushed
  and will push before it closes the channel, leaves the rest in order, and fails exactly when fewer
  are to come; it depends neither on how the bytes were cut into pushes nor on when the
  consumer had to wait, and it always returns once the channel is going to be closed.
\<close>

theorem read_exact_delivers_stream:
  assumes "source_inv src" and "read_exact src n = (r, src')"
  shows "source_inv src' \<and> source_stream src' = drop n (source_stream src) \<and>
    r = (if n \<le> length (source_stream src) then Some (take n (source_stream src)) else None)"
  using assms by (rule chan.read_law)

definition sample_source :: chan_source where
  "sample_source = (push (channel_new 4) [1, 2], [Push [3], Push [4, 5], Close])"

theorem read_exact_delivers_stream_witness:
  "source_inv sample_source \<and>
   fst (read_exact sample_source 4) = Some [1, 2, 3, 4] \<and>
   source_stream (snd (read_exact sample_source 4)) = [5]"
proof -
  have inv: "source_inv sample_source"
    by (simp add: sample_source_def source_inv_def chan_simps)
  have str: "source_stream sample_source = [1, 2, 3, 4, 5]"
    by (simp add: sample_source_def source_stream_def to_come_def push_def channel_new_def
        chan_stream_def)
  have run: "read_exact sample_source 4 =
      (fst (read_exact sample_source 4), snd (read_exact sample_source 4))"
    by (rule prod.collapse [symmetric])
  show ?thesis
    using read_exact_delivers_stream [OF inv run] inv unfolding str
    by (simp only: simp_thms) simp
qed

end
