(* ===== verification/Handshake.thy ===== *)
theory Handshake
  imports Wire Sha256
begin

text \<open>
  \<open>server/handshake.cxx\<close>: parsing and authenticating the 56-byte handshake request, and the
  hexadecimal session name; the same \<open>hex\<close> loop is in \<open>server/connection.cxx\<close> and
  \<open>client/worker.h\<close>.
\<close>

section \<open>The request\<close>

record HandshakeRequest =
  version :: u16
  flags :: byte
  algo :: CompressionAlgo
  session_id :: bytes

definition magic_matches :: "bytes \<Rightarrow> bool" where
  "magic_matches buffer \<longleftrightarrow> take (length kMagic) buffer = kMagic"

definition algo_supported :: "CompressionAlgo \<Rightarrow> bool" where
  "algo_supported a \<longleftrightarrow> a = Lz4 \<or> a = Zstd"

text \<open>
  \<open>out\<close> is the caller's structure: it is written only when the request is authentic and of a
  known version, and then also when the algorithm turns out to be unsupported.
\<close>

definition parse_and_verify_handshake ::
    "bytes \<Rightarrow> string \<Rightarrow> HandshakeRequest \<Rightarrow> HandshakeStatus \<times> HandshakeRequest" where
  "parse_and_verify_handshake buffer key out =
     (if \<not> magic_matches buffer then (BadMagic, out)
      else
        let expected_hmac = hmac_sha256 (bytes_of key) (take kHandshakeSignedPrefixSize buffer);
            provided_hmac = drop kHandshakeSignedPrefixSize buffer
        in if \<not> constant_time_equal expected_hmac provided_hmac kHmacSize then (AuthFailed, out)
           else
             let ver = read_u16_le (drop (length kMagic) buffer)
             in if ver < kMinProtocolVersion \<or> kProtocolVersion < ver then (BadVersion, out)
                else
                  let out' = out\<lparr>version := ver,
                        flags := buffer ! (length kMagic + 2),
                        algo := algo_of_byte (buffer ! (length kMagic + 2 + 1)),
                        session_id := take kSessionIdSize (drop (length kMagic + 2 + 2) buffer)\<rparr>
                  in if \<not> algo_supported (algo out') then (BadAlgo, out') else (Ok, out'))"

section \<open>Hexadecimal names\<close>

definition hex_digits :: string where
  "hex_digits = ''0123456789abcdef''"

fun hex :: "bytes \<Rightarrow> string" where
  "hex [] = []"
| "hex (b # bs) = hex_digits ! unat (drop_bit 4 b) # hex_digits ! unat (b AND 0x0F) # hex bs"

definition session_id_to_hex :: "bytes \<Rightarrow> string" where
  "session_id_to_hex sid = hex sid"

section \<open>What the server accepts\<close>

definition signed_prefix :: "u16 \<Rightarrow> byte \<Rightarrow> byte \<Rightarrow> bytes \<Rightarrow> bytes" where
  "signed_prefix ver fl al sid = kMagic @ write_u16_le ver @ [fl, al] @ sid"

lemma length_signed_prefix [simp]: "length (signed_prefix v f a sid) = 8 + length sid"
  by (simp add: signed_prefix_def)

lemma algo_supported_byte: "algo_supported (algo_of_byte b) \<longleftrightarrow> b = 1 \<or> b = 2"
  by (simp add: algo_supported_def algo_of_byte.simps)

lemma known_version: "\<not> (v < kMinProtocolVersion \<or> kProtocolVersion < v) \<longleftrightarrow> v = 1 \<or> v = 2"
  for v :: u16
proof -
  have "(1 \<le> v \<and> v \<le> 2) \<longleftrightarrow> (unat v = 1 \<or> unat v = 2)"
    by (auto simp: word_le_nat_alt)
  also have "\<dots> \<longleftrightarrow> v = 1 \<or> v = 2"
    by (simp add: word_unat_eq_iff)
  finally show ?thesis
    by (simp only: kMinProtocolVersion_def kProtocolVersion_def not_less de_Morgan_disj)
qed

text \<open>Any 24-byte prefix that starts with the magic is a signed prefix of its fields.\<close>

lemma signed_prefix_fields:
  assumes "56 \<le> length buffer" and "magic_matches buffer"
  shows "take 24 buffer = signed_prefix (read_u16_le (drop 4 buffer)) (buffer ! 6) (buffer ! 7)
    (take 16 (drop 8 buffer))"
proof -
  have split: "drop n buffer = take m (drop n buffer) @ drop (n + m) buffer" for n m
    by (metis add.commute append_take_drop_id drop_drop)
  have two: "take 2 (drop 6 buffer) = [buffer ! 6, buffer ! 7]"
    using assms(1) by (simp add: numeral_2_eq_2 take_Suc_conv_app_nth)
  have ver: "write_u16_le (read_u16_le (drop 4 buffer)) = take 2 (drop 4 buffer)"
  proof -
    have "read_u16_le (drop 4 buffer) = read_u16_le (take 2 (drop 4 buffer))"
      using read_prefix(1) [of "take 2 (drop 4 buffer)" "drop 6 buffer"] split [of 4 2] assms(1)
      by simp
    then show ?thesis
      using assms(1) by (simp add: u16_field.enc_dec)
  qed
  have "take 24 buffer = take 4 buffer @ take 2 (drop 4 buffer) @ take 2 (drop 6 buffer) @
      take 16 (drop 8 buffer)"
    using take_add [of 4 20 buffer] take_add [of 2 18 "drop 4 buffer"]
      take_add [of 2 16 "drop 6 buffer"] by simp
  then show ?thesis
    using assms(2) by (simp add: magic_matches_def signed_prefix_def ver two)
qed

lemma constant_time_equal_mac:
  "length mac = 32 \<Longrightarrow> constant_time_equal mac (mac @ rest) 32"
  by (simp add: constant_time_equal_nth nth_append)

lemma constant_time_equal_take:
  "length mac = 32 \<Longrightarrow> 32 \<le> length p \<Longrightarrow> constant_time_equal mac p 32 \<longleftrightarrow> mac = take 32 p"
  by (auto simp: constant_time_equal_nth list_eq_iff_nth_eq)

text \<open>A request built from its fields and its MAC, as the uploader builds it.\<close>

definition request_bytes :: "string \<Rightarrow> u16 \<Rightarrow> byte \<Rightarrow> byte \<Rightarrow> bytes \<Rightarrow> bytes" where
  "request_bytes key ver fl al sid =
     signed_prefix ver fl al sid @ hmac_sha256 (bytes_of key) (signed_prefix ver fl al sid)"

lemma parse_request_bytes:
  assumes "length sid = 16"
  shows "parse_and_verify_handshake (request_bytes key ver fl al sid @ rest) key out =
    (if ver \<noteq> 1 \<and> ver \<noteq> 2 then (BadVersion, out)
     else (if al = 1 \<or> al = 2 then Ok else BadAlgo,
           out\<lparr>version := ver, flags := fl, algo := algo_of_byte al, session_id := sid\<rparr>))"
proof -
  define b where "b = request_bytes key ver fl al sid @ rest"
  have p: "take 24 b = signed_prefix ver fl al sid"
    "drop 24 b = hmac_sha256 (bytes_of key) (signed_prefix ver fl al sid) @ rest"
    using assms by (simp_all add: b_def request_bytes_def)
  have m: "magic_matches b" "read_u16_le (drop 4 b) = ver" "b ! 6 = fl" "b ! 7 = al"
    "take 16 (drop 8 b) = sid"
    using assms
    by (simp_all add: b_def magic_matches_def request_bytes_def signed_prefix_def nth_append)
  have v: "(ver < kMinProtocolVersion \<or> kProtocolVersion < ver) \<longleftrightarrow> ver \<noteq> 1 \<and> ver \<noteq> 2"
    using known_version [of ver] by blast
  show ?thesis
    unfolding b_def [symmetric] parse_and_verify_handshake_def Let_def
    by (simp add: p m v constant_time_equal_mac algo_supported_byte)
qed

lemma parse_ok_shape:
  assumes "56 \<le> length buffer" and "parse_and_verify_handshake buffer key out = (Ok, out')"
  shows "\<exists>ver fl al sid rest. buffer = request_bytes key ver fl al sid @ rest \<and> length sid = 16
    \<and> (ver = 1 \<or> ver = 2) \<and> (al = 1 \<or> al = 2)"
proof -
  let ?v = "read_u16_le (drop 4 buffer)" and ?s = "take 16 (drop 8 buffer)"
  have m: "magic_matches buffer"
    using assms(2) by (auto simp: parse_and_verify_handshake_def split: if_splits)
  note pre = signed_prefix_fields [OF assms(1) m]
  have mac: "hmac_sha256 (bytes_of key) (take 24 buffer) = take 32 (drop 24 buffer)"
    using assms m constant_time_equal_take [of "hmac_sha256 (bytes_of key) (take 24 buffer)" "drop 24 buffer"]
    by (auto simp: parse_and_verify_handshake_def split: if_splits)
  have "?v = 1 \<or> ?v = 2" "buffer ! 7 = 1 \<or> buffer ! 7 = 2"
    using assms(2) m unfolding known_version [symmetric] algo_supported_byte [symmetric]
    by (auto simp: parse_and_verify_handshake_def Let_def split: if_splits)
  moreover have "buffer = take 24 buffer @ take 32 (drop 24 buffer) @ drop 56 buffer"
    using append_take_drop_id [of 24 buffer] append_take_drop_id [of 32 "drop 24 buffer"] by simp
  then have "buffer = request_bytes key ?v (buffer ! 6) (buffer ! 7) ?s @ drop 56 buffer"
    using pre mac by (simp add: request_bytes_def)
  moreover have "length ?s = 16"
    using assms(1) by simp
  ultimately show ?thesis
    by blast
qed

section \<open>Properties\<close>

text \<open>
  Property C6.  The server accepts exactly the authentic requests: the status is \<open>Ok\<close> if and
  only if the buffer starts with a request whose MAC is the HMAC of its signed prefix under
  the server's key, whose version is 1 or 2 and whose algorithm is Lz4 or Zstd; the fields it
  then hands out are those of the request.
\<close>

theorem handshake_ok_iff:
  assumes "kHandshakeRequestSize \<le> length buffer"
  shows "parse_and_verify_handshake buffer key out = (Ok, out') \<longleftrightarrow>
    (\<exists>ver fl al sid rest. buffer = request_bytes key ver fl al sid @ rest \<and> length sid = 16
       \<and> (ver = 1 \<or> ver = 2) \<and> (al = 1 \<or> al = 2)
       \<and> out' = out\<lparr>version := ver, flags := fl, algo := algo_of_byte al, session_id := sid\<rparr>)"
  (is "?ok \<longleftrightarrow> ?shape")
proof
  assume ?ok
  moreover from this assms parse_ok_shape [of buffer key out out'] obtain ver fl al sid rest
    where "buffer = request_bytes key ver fl al sid @ rest" "length sid = 16"
      "ver = 1 \<or> ver = 2" "al = 1 \<or> al = 2"
    by auto
  ultimately show ?shape
    using parse_request_bytes [of sid key ver fl al rest out] by (intro exI conjI) auto
next
  assume ?shape
  then show ?ok
    using parse_request_bytes by auto
qed

definition sample_request :: bytes where
  "sample_request = request_bytes ''key'' 2 1 2 (replicate 16 7)"

theorem handshake_ok_iff_witness:
  "kHandshakeRequestSize \<le> length sample_request \<and>
   parse_and_verify_handshake sample_request ''key''
     \<lparr>version = 0, flags = 0, algo = AlgoNone, session_id = []\<rparr> =
     (Ok, \<lparr>version = 2, flags = 1, algo = Zstd, session_id = replicate 16 7\<rparr>)"
proof -
  have len: "kHandshakeRequestSize \<le> length sample_request"
    by (simp add: sample_request_def request_bytes_def)
  have "\<exists>ver fl al sid rest. sample_request = request_bytes ''key'' ver fl al sid @ rest \<and> length sid = 16
       \<and> (ver = 1 \<or> ver = 2) \<and> (al = 1 \<or> al = 2)
       \<and> \<lparr>version = 2, flags = 1, algo = Zstd, session_id = replicate 16 7\<rparr> =
         \<lparr>version = 0, flags = 0, algo = AlgoNone, session_id = []\<rparr>
           \<lparr>version := ver, flags := fl, algo := algo_of_byte al, session_id := sid\<rparr>"
    by (rule exI [of _ 2], rule exI [of _ 1], rule exI [of _ 2], rule exI [of _ "replicate 16 7"],
        rule exI [of _ "[]"]) (simp add: sample_request_def)
  then show ?thesis
    using handshake_ok_iff [OF len] len by blast
qed

text \<open>Decoding of one hexadecimal digit, to state that names determine sessions.\<close>

definition hex_value :: "char \<Rightarrow> nat" where
  "hex_value c = (case str_find c hex_digits of None \<Rightarrow> 0 | Some i \<Rightarrow> i)"

fun unhex :: "string \<Rightarrow> bytes" where
  "unhex (a # b # rest) = of_nat (16 * hex_value a + hex_value b) # unhex rest"
| "unhex _ = []"

lemma hex_digits_distinct: "i < 16 \<Longrightarrow> hex_value (hex_digits ! i) = i"
proof -
  have "\<forall>i \<in> set [0..<16]. hex_value (hex_digits ! i) = i"
    by code_simp
  then show "i < 16 \<Longrightarrow> hex_value (hex_digits ! i) = i"
    by auto
qed

lemma nibbles:
  fixes b :: byte
  shows "unat (drop_bit 4 b) = unat b div 16" "unat (b AND 0x0F) = unat b mod 16"
proof -
  show "unat (drop_bit 4 b) = unat b div 16"
    by (simp only: unat_drop_bit_eq) (simp add: drop_bit_eq_div)
  have "b AND 0x0F = take_bit 4 b"
    by (simp add: take_bit_eq_mask mask_numeral)
  then show "unat (b AND 0x0F) = unat b mod 16"
    by (simp only: unsigned_take_bit_eq) (simp add: take_bit_eq_mod)
qed

lemma nibble_bounds [simp]: "unat (drop_bit 4 (b :: byte)) < 16" "unat ((b :: byte) AND 0x0F) < 16"
  using unat_byte_less [of b] by (simp_all add: nibbles less_mult_imp_div_less)

lemma hex_byte_value:
  "of_nat (16 * hex_value (hex_digits ! unat (drop_bit 4 b)) + hex_value (hex_digits ! unat (b AND 0x0F)))
    = (b :: byte)"
  unfolding hex_digits_distinct [OF nibble_bounds(1)] hex_digits_distinct [OF nibble_bounds(2)]
  by (simp only: nibbles mult_div_mod_eq) simp

lemma unhex_hex [simp]: "unhex (hex bs) = bs"
  by (induction bs) (simp_all only: hex.simps unhex.simps hex_byte_value)

lemma length_hex [simp]: "length (hex bs) = 2 * length bs"
  by (induction bs) simp_all

lemma hex_charset: "set (hex bs) \<subseteq> set hex_digits"
proof (induction bs)
  case (Cons b bs)
  have "hex_digits ! i \<in> set hex_digits" if "i < 16" for i
    using that by (intro nth_mem) (simp add: hex_digits_def)
  with Cons show ?case
    by simp
qed simp

end
