(* ===== verification/Paths.thy ===== *)
theory Paths
  imports Dicker_Prelude
begin

text \<open>
  \<open>std::filesystem::path\<close> in its POSIX format, as far as \<open>server/file_sink.cxx\<close>, the archive and
  the scheduler use it: a path is its string; iterating it gives the root directory, the
  filenames and an empty last element for a trailing separator; \<open>lexically_normal\<close>,
  \<open>operator/\<close> and \<open>parent_path\<close> are those of the C++ standard ([fs.path.generic],
  [fs.path.append]).
\<close>

section \<open>Splitting and joining\<close>

fun split_slash :: "string \<Rightarrow> string list" where
  "split_slash [] = [[]]"
| "split_slash (c # cs) =
     (if c = CHR ''/'' then [] # split_slash cs
      else (c # hd (split_slash cs)) # tl (split_slash cs))"

definition path_absolute :: "string \<Rightarrow> bool" where
  "path_absolute p \<longleftrightarrow> p \<noteq> [] \<and> hd p = CHR ''/''"

definition path_names :: "string \<Rightarrow> string list" where
  "path_names p = filter (\<lambda>n. n \<noteq> []) (split_slash p)"

definition path_trailing :: "string \<Rightarrow> bool" where
  "path_trailing p \<longleftrightarrow> p \<noteq> [] \<and> last p = CHR ''/'' \<and> path_names p \<noteq> []"

definition path_elems :: "string \<Rightarrow> string list" where
  "path_elems p = (if path_absolute p then [''/''] else []) @ path_names p
     @ (if path_trailing p then [[]] else [])"

fun join_slash :: "string list \<Rightarrow> string" where
  "join_slash [] = []"
| "join_slash [n] = n"
| "join_slash (n # m # ns) = n @ ''/'' @ join_slash (m # ns)"

definition path_print :: "bool \<Rightarrow> string list \<Rightarrow> bool \<Rightarrow> string" where
  "path_print root names trailing =
     (if root then ''/'' else []) @ join_slash names
     @ (if trailing \<and> names \<noteq> [] then ''/'' else [])"

section \<open>The operations\<close>

text \<open>One filename of the input against the reversed names kept so far.\<close>

fun normal_step :: "bool \<Rightarrow> string list \<Rightarrow> string \<Rightarrow> string list" where
  "normal_step root kept name =
     (if name = ''.'' then kept
      else if name = ''..'' then
        (case kept of
           [] \<Rightarrow> if root then [] else [''..'']
         | k # ks \<Rightarrow> if k = ''..'' then ''..'' # kept else ks)
      else name # kept)"

definition normal_names :: "bool \<Rightarrow> string list \<Rightarrow> string list" where
  "normal_names root names = rev (foldl (normal_step root) [] names)"

definition lexically_normal :: "string \<Rightarrow> string" where
  "lexically_normal p =
     (if p = [] then []
      else
        let root = path_absolute p;
            names = path_names p;
            kept = normal_names root names
        in if kept = [] then (if root then ''/'' else ''.'')
           else path_print root kept
             ((path_trailing p \<or> last names = ''.'' \<or> last names = ''..'') \<and> last kept \<noteq> ''..''))"

definition path_append :: "string \<Rightarrow> string \<Rightarrow> string" where
  "path_append p q =
     (if path_absolute q then q
      else if p \<noteq> [] \<and> last p \<noteq> CHR ''/'' then p @ ''/'' @ q
      else p @ q)"

definition strip_slashes :: "string \<Rightarrow> string" where
  "strip_slashes p = rev (dropWhile (\<lambda>c. c = CHR ''/'') (rev p))"

definition parent_path :: "string \<Rightarrow> string" where
  "parent_path p =
     (case str_rfind CHR ''/'' p of
        None \<Rightarrow> []
      | Some i \<Rightarrow> let q = strip_slashes (take i p) in if q = [] then ''/'' else q)"

section \<open>Names of printed and appended paths\<close>

definition proper_name :: "string \<Rightarrow> bool" where
  "proper_name n \<longleftrightarrow> n \<noteq> [] \<and> CHR ''/'' \<notin> set n"

lemma split_slash_ne [simp]: "split_slash s \<noteq> []"
  by (cases s) auto

lemma split_slash_slash: "split_slash (s @ CHR ''/'' # t) = split_slash s @ split_slash t"
  by (induction s) auto

lemma split_slash_plain [simp]: "CHR ''/'' \<notin> set s \<Longrightarrow> split_slash s = [s]"
  by (induction s) auto

lemma split_slash_proper: "n \<in> set (split_slash s) \<Longrightarrow> CHR ''/'' \<notin> set n"
proof (induction s arbitrary: n)
  case (Cons c s)
  obtain x xs where "split_slash s = x # xs"
    by (cases "split_slash s") auto
  with Cons show ?case
    by (auto split: if_splits)
qed simp

lemma path_names_proper: "list_all proper_name (path_names p)"
  using split_slash_proper by (auto simp: path_names_def proper_name_def list_all_iff)

lemma path_names_slash [simp]:
  "path_names (s @ CHR ''/'' # t) = path_names s @ path_names t"
  "path_names (CHR ''/'' # t) = path_names t"
  "path_names [] = []"
  by (simp_all add: path_names_def split_slash_slash)

lemma path_names_plain [simp]: "proper_name n \<Longrightarrow> path_names n = [n]"
  by (simp add: path_names_def proper_name_def)

lemma path_names_join: "list_all proper_name ns \<Longrightarrow> path_names (join_slash ns) = ns"
  by (induction ns rule: join_slash.induct) auto

lemma path_names_print [simp]:
  "list_all proper_name ns \<Longrightarrow> path_names (path_print root ns trailing) = ns"
  using path_names_slash(1) [of "join_slash ns" "[]"]
  by (simp add: path_print_def path_names_join)

lemma proper_name_ends: "proper_name n \<Longrightarrow> hd n \<noteq> CHR ''/'' \<and> last n \<noteq> CHR ''/'' \<and> n \<noteq> []"
  by (auto simp: proper_name_def dest: hd_in_set last_in_set)

lemma hd_join_slash: "list_all proper_name ns \<Longrightarrow> ns \<noteq> [] \<Longrightarrow>
    join_slash ns \<noteq> [] \<and> hd (join_slash ns) \<noteq> CHR ''/'' \<and> last (join_slash ns) \<noteq> CHR ''/''"
proof (induction ns rule: join_slash.induct)
  case (3 n m ns)
  then show ?case
    using proper_name_ends [of n] by (auto simp: hd_append)
qed (auto dest: proper_name_ends)

lemma path_absolute_print [simp]:
  "list_all proper_name ns \<Longrightarrow> ns \<noteq> [] \<Longrightarrow> path_absolute (path_print root ns trailing) = root"
  using hd_join_slash [of ns] by (auto simp: path_absolute_def path_print_def hd_append)

lemma path_trailing_print [simp]:
  "list_all proper_name ns \<Longrightarrow> ns \<noteq> [] \<Longrightarrow> path_trailing (path_print root ns trailing) = trailing"
  using hd_join_slash [of ns] path_names_print [of ns root trailing]
  by (cases trailing) (simp_all add: path_trailing_def, simp_all add: path_print_def)

lemma path_elems_print:
  "list_all proper_name ns \<Longrightarrow> ns \<noteq> [] \<Longrightarrow>
    path_elems (path_print root ns trailing) =
      (if root then [''/''] else []) @ ns @ (if trailing then [[]] else [])"
  by (simp add: path_elems_def)

section \<open>Normal forms\<close>

text \<open>No dots, and dot-dots only in front of a relative path.\<close>

definition is_normal :: "bool \<Rightarrow> string list \<Rightarrow> bool" where
  "is_normal root ns \<longleftrightarrow> list_all proper_name ns \<and> ''.'' \<notin> set ns \<and>
     (\<exists>k us. ns = replicate k ''..'' @ us \<and> ''..'' \<notin> set us \<and> (root \<longrightarrow> k = 0))"


lemma is_normalI:
  assumes "list_all proper_name us" and "''.'' \<notin> set us" and "''..'' \<notin> set us" and "root \<Longrightarrow> k = 0"
  shows "is_normal root (replicate k ''..'' @ us)"
proof -
  have "list_all proper_name (replicate k ''..'')" "''.'' \<notin> set (replicate k ''..'')"
    by (auto simp: list_all_iff proper_name_def)
  with assms show ?thesis
    unfolding is_normal_def by auto
qed

lemma is_normalE:
  assumes "is_normal root ns"
  obtains k us where "ns = replicate k ''..'' @ us" "list_all proper_name us" "''.'' \<notin> set us"
    "''..'' \<notin> set us" "root \<Longrightarrow> k = 0"
proof -
  from assms obtain k us where "ns = replicate k ''..'' @ us" "''..'' \<notin> set us" "root \<Longrightarrow> k = 0"
      "list_all proper_name ns" "''.'' \<notin> set ns"
    unfolding is_normal_def by blast
  then show thesis
    by (intro that [of k us]) auto
qed

lemma is_normal_plain:
  "list_all proper_name ns \<Longrightarrow> ''.'' \<notin> set ns \<Longrightarrow> ''..'' \<notin> set ns \<Longrightarrow> is_normal root ns"
  using is_normalI [of ns root 0] by simp

lemma is_normal_snoc:
  assumes "is_normal root ns" and "proper_name n" and "n \<noteq> ''.''" and "n \<noteq> ''..''"
  shows "is_normal root (ns @ [n])"
  using assms(1)
proof (cases rule: is_normalE)
  case (1 k us)
  with assms show ?thesis
    using is_normalI [of "us @ [n]" root k] by simp
qed

text \<open>The last name of a normal path is a dot-dot only if all of them are.\<close>

lemma is_normal_last:
  assumes "is_normal root (ns @ [n])"
  shows "if n = ''..'' then \<not> root \<and> (\<exists>k. ns = replicate k ''..'') else is_normal root ns"
  using assms
proof (cases rule: is_normalE)
  case (1 k us)
  show ?thesis
  proof (cases us rule: rev_cases)
    case Nil
    with 1(1) obtain j where k: "k = Suc j"
      by (cases k) auto
    with Nil 1(1) have "ns @ [n] = replicate j ''..'' @ [''..'']"
      by (simp add: replicate_append_same)
    with k 1(5) show ?thesis
      by auto
  next
    case (snoc vs v)
    with 1 is_normalI [of vs root k] show ?thesis
      by auto
  qed
qed

lemma is_normal_step:
  assumes "is_normal root (rev kept)" and "proper_name n"
  shows "is_normal root (rev (normal_step root kept n))"
proof (cases "n = ''..''")
  case False
  with assms show ?thesis
    by (auto intro: is_normal_snoc)
next
  case True
  show ?thesis
  proof (cases kept)
    case Nil
    have "is_normal False [''..'']"
      using is_normalI [of "[]" False 1] by simp
    with True Nil show ?thesis
      by (auto simp: is_normal_plain)
  next
    case (Cons k ks)
    with assms(1) have last: "is_normal root (rev ks @ [k])"
      by simp
    show ?thesis
    proof (cases "k = ''..''")
      case dd: True
      with is_normal_last [OF last] obtain j where "\<not> root" "rev ks = replicate j ''..''"
        by auto
      then have "rev (normal_step root kept n) = replicate (Suc (Suc j)) ''..'' @ []"
        using Cons True dd by (simp add: replicate_append_same [symmetric])
      then show ?thesis
        using is_normalI [of "[]" root "Suc (Suc j)"] \<open>\<not> root\<close> by simp
    next
      case False
      with is_normal_last [OF last] Cons True show ?thesis
        by simp
    qed
  qed
qed

lemma is_normal_names: "list_all proper_name ns \<Longrightarrow> is_normal root (normal_names root ns)"
proof -
  have "is_normal root (rev kept) \<Longrightarrow> list_all proper_name ns \<Longrightarrow>
      is_normal root (rev (foldl (normal_step root) kept ns))" for kept
    by (induction ns arbitrary: kept) (simp_all add: is_normal_step del: normal_step.simps)
  then show "list_all proper_name ns \<Longrightarrow> ?thesis"
    by (simp add: normal_names_def is_normal_plain)
qed

lemma foldl_normal_plain:
  "''.'' \<notin> set us \<Longrightarrow> ''..'' \<notin> set us \<Longrightarrow> foldl (normal_step root) kept us = rev us @ kept"
  by (induction us arbitrary: kept) auto

lemma foldl_normal_dotdots:
  "foldl (normal_step False) (replicate j ''..'') (replicate k ''..'') = replicate (j + k) ''..''"
proof (induction k arbitrary: j)
  case (Suc k)
  have "normal_step False (replicate j ''..'') ''..'' = replicate (Suc j) ''..''"
    by (cases j) auto
  with Suc [of "Suc j"] show ?case
    by simp
qed simp

lemma normal_names_append:
  assumes "is_normal root ns" and "''.'' \<notin> set us" and "''..'' \<notin> set us"
  shows "normal_names root (ns @ us) = ns @ us"
  using assms(1)
proof (cases rule: is_normalE)
  case (1 k vs)
  have "foldl (normal_step root) [] (replicate k ''..'') = replicate k ''..''"
    using 1(5) foldl_normal_dotdots [of 0 k] by (cases root) auto
  with 1 assms(2,3) show ?thesis
    by (simp add: normal_names_def foldl_normal_plain del: normal_step.simps)
qed

lemma normal_names_id: "is_normal root ns \<Longrightarrow> normal_names root ns = ns"
  using normal_names_append [of root ns "[]"] by simp

section \<open>\<open>lexically_normal\<close> and \<open>operator/\<close>\<close>

text \<open>The normal form of a non-empty path, element by element.\<close>

lemma lexically_normal_names:
  assumes "p \<noteq> []"
  shows "path_names (lexically_normal p) =
      (let ns = normal_names (path_absolute p) (path_names p)
       in if ns = [] \<and> \<not> path_absolute p then [''.''] else ns)"
    and "path_absolute (lexically_normal p) = path_absolute p"
proof -
  have "list_all proper_name (normal_names (path_absolute p) (path_names p))"
    using is_normal_names [OF path_names_proper] by (simp add: is_normal_def)
  then show "path_names (lexically_normal p) =
      (let ns = normal_names (path_absolute p) (path_names p)
       in if ns = [] \<and> \<not> path_absolute p then [''.''] else ns)"
    "path_absolute (lexically_normal p) = path_absolute p"
    using assms
    by (auto simp: lexically_normal_def Let_def proper_name_def)
      (auto simp: path_absolute_def)
qed

lemma path_names_relative:
  assumes "\<not> path_absolute q" and "q \<noteq> []"
  shows "path_names q \<noteq> []"
  using assms by (cases q) (auto simp: path_absolute_def path_names_def)

lemma path_append_relative:
  assumes "\<not> path_absolute q" and "q \<noteq> []"
  shows "path_names (path_append p q) = path_names p @ path_names q"
    and "path_absolute (path_append p q) = path_absolute p"
    and "path_trailing (path_append p q) = path_trailing q"
proof -
  have "p = [] \<or> (p \<noteq> [] \<and> last p \<noteq> CHR ''/'') \<or> (\<exists>p'. p = p' @ ''/'')"
    by (metis append_butlast_last_id)
  then show names: "path_names (path_append p q) = path_names p @ path_names q"
    using assms(1) by (auto simp: path_append_def)
  show "path_absolute (path_append p q) = path_absolute p"
    using assms by (auto simp: path_append_def path_absolute_def hd_append)
  have "last (path_append p q) = last q"
    using assms by (simp add: path_append_def)
  then show "path_trailing (path_append p q) = path_trailing q"
    using assms names path_names_relative [OF assms] unfolding path_trailing_def
    by (auto simp: path_append_def)
qed

end
