(* ===== verification/File_Sink.thy ===== *)
theory File_Sink
  imports Paths
begin

text \<open>
  \<open>server/file_sink.cxx\<close> and \<open>server/file_sink.h\<close>: mapping a client's path into the session
  directory, and writing whole files (\<open>SequentialWriter\<close>) or chunks (\<open>OffsetWriter\<close>) there.

  The file system below (libuv's synchronous \<open>uv_fs_*\<close> requests and the two
  \<open>std::filesystem\<close> calls that touch the disk) is a parameter: a record of its calls on an
  arbitrary state \<open>'w\<close>.  What the writers rely on is stated as a predicate on that record.
\<close>

section \<open>The file system below\<close>

datatype OpenMode = WriteCreate | WriteCreateTrunc

record 'w uv_fs =
  uv_fs_open :: "'w \<Rightarrow> string \<Rightarrow> OpenMode \<Rightarrow> int \<times> 'w"
  uv_fs_write :: "'w \<Rightarrow> int \<Rightarrow> bytes \<Rightarrow> int \<Rightarrow> int \<times> 'w"
  uv_fs_close :: "'w \<Rightarrow> int \<Rightarrow> 'w"
  uv_fs_fsync :: "'w \<Rightarrow> int \<Rightarrow> 'w"
  create_directories :: "'w \<Rightarrow> string \<Rightarrow> bool \<times> 'w"
  fs_exists :: "'w \<Rightarrow> string \<Rightarrow> bool"

section \<open>Writers\<close>

definition kMaxSingleWrite :: nat where
  "kMaxSingleWrite = 2 ^ 30"

function write_loop :: "'w uv_fs \<Rightarrow> 'w \<Rightarrow> int \<Rightarrow> bytes \<Rightarrow> int \<Rightarrow> nat \<Rightarrow> bool \<times> 'w" where
  "write_loop os w fd data offset written =
     (if written < length data
      then let remaining = length data - written;
               n = (if remaining < kMaxSingleWrite then remaining else kMaxSingleWrite);
               write_offset = (if offset < 0 then -1 else offset + int written);
               (result, w') = uv_fs_write os w fd (take n (drop written data)) write_offset
           in if result \<le> 0 then (False, w')
              else write_loop os w' fd data offset (written + nat result)
      else (True, w))"
  by pat_completeness auto
termination
  by (relation "measure (\<lambda>(os, w, fd, data, offset, written). length data - written)") auto

declare write_loop.simps [simp del]

definition write_fd_all :: "'w uv_fs \<Rightarrow> 'w \<Rightarrow> int \<Rightarrow> bytes \<Rightarrow> int \<Rightarrow> bool \<times> 'w" where
  "write_fd_all os w fd data offset = write_loop os w fd data offset 0"

record SequentialWriter =
  seq_fd :: int
  seq_offset :: int

definition no_sequential :: SequentialWriter where
  "no_sequential = \<lparr>seq_fd = -1, seq_offset = 0\<rparr>"

definition seq_valid :: "SequentialWriter \<Rightarrow> bool" where
  "seq_valid sw \<longleftrightarrow> 0 \<le> seq_fd sw"

definition seq_write :: "'w uv_fs \<Rightarrow> 'w \<Rightarrow> SequentialWriter \<Rightarrow> bytes \<Rightarrow>
    bool \<times> 'w \<times> SequentialWriter" where
  "seq_write os w sw data =
     (let (ok, w') = write_fd_all os w (seq_fd sw) data (seq_offset sw)
      in if \<not> ok then (False, w', sw)
         else (True, w', sw\<lparr>seq_offset := seq_offset sw + int (length data)\<rparr>))"

definition seq_close :: "'w uv_fs \<Rightarrow> 'w \<Rightarrow> SequentialWriter \<Rightarrow> 'w \<times> SequentialWriter" where
  "seq_close os w sw =
     (if 0 \<le> seq_fd sw then (uv_fs_close os w (seq_fd sw), sw\<lparr>seq_fd := -1\<rparr>) else (w, sw))"

record OffsetWriter =
  off_file :: "int option"

definition off_valid :: "OffsetWriter \<Rightarrow> bool" where
  "off_valid ow \<longleftrightarrow> off_file ow \<noteq> None"

definition write_at :: "'w uv_fs \<Rightarrow> 'w \<Rightarrow> OffsetWriter \<Rightarrow> u64 \<Rightarrow> bytes \<Rightarrow> bool \<times> 'w" where
  "write_at os w ow offset data = write_fd_all os w (the (off_file ow)) data (sint offset)"

section \<open>Confining a path\<close>

definition is_alpha :: "char \<Rightarrow> bool" where
  "is_alpha c \<longleftrightarrow> (let n = of_char c :: nat in 65 \<le> n \<and> n \<le> 90 \<or> 97 \<le> n \<and> n \<le> 122)"

definition to_slashes :: "string \<Rightarrow> string" where
  "to_slashes s = map (\<lambda>c. if c = CHR 0x5C then CHR ''/'' else c) s"

definition strip_root :: "string \<Rightarrow> string" where
  "strip_root s = dropWhile (\<lambda>c. c = CHR ''/'')
     (if 2 \<le> length s \<and> is_alpha (s ! 0) \<and> s ! 1 = CHR '':'' then drop 2 s else s)"

definition resolve_safe_path :: "string \<Rightarrow> string \<Rightarrow> string option" where
  "resolve_safe_path session_root relative_path =
     (let normalized = strip_root (to_slashes relative_path);
          lexical = lexically_normal normalized
      in if ''..'' \<in> set (path_elems lexical) then None
         else if lexical = [] \<or> lexical = ''.'' then None
         else let root_normal = lexically_normal session_root;
                  full = lexically_normal (path_append root_normal lexical)
              in if \<not> str_prefix (path_elems root_normal) (path_elems full) then None
                 else Some full)"

section \<open>The sink of a session\<close>

record FileSink =
  session_root :: string
  chunk_files :: "(string \<times> int) list"

definition ensure_parent_directory :: "'w uv_fs \<Rightarrow> 'w \<Rightarrow> string \<Rightarrow> bool \<times> 'w" where
  "ensure_parent_directory os w path =
     (let parent = parent_path path
      in if parent = [] then (True, w)
         else let (error, w') = create_directories os w parent
              in if \<not> error then (True, w') else (fs_exists os w' parent, w'))"

definition acquire_chunk_file :: "'w uv_fs \<Rightarrow> 'w \<Rightarrow> FileSink \<Rightarrow> string \<Rightarrow>
    int option \<times> 'w \<times> FileSink" where
  "acquire_chunk_file os w sink path =
     (case map_of (chunk_files sink) path of
        Some fd \<Rightarrow> (Some fd, w, sink)
      | None \<Rightarrow>
          let (ok, w1) = ensure_parent_directory os w path
          in if \<not> ok then (None, w1, sink)
             else let (fd, w2) = uv_fs_open os w1 (c_str path) WriteCreate
                  in if fd < 0 then (None, w2, sink)
                     else (Some fd, w2, sink\<lparr>chunk_files := chunk_files sink @ [(path, fd)]\<rparr>))"

definition open_sequential :: "'w uv_fs \<Rightarrow> 'w \<Rightarrow> FileSink \<Rightarrow> string \<Rightarrow> SequentialWriter \<times> 'w" where
  "open_sequential os w sink relative_path =
     (case resolve_safe_path (session_root sink) relative_path of
        None \<Rightarrow> (no_sequential, w)
      | Some full \<Rightarrow>
          let (ok, w1) = ensure_parent_directory os w full
          in if \<not> ok then (no_sequential, w1)
             else let (fd, w2) = uv_fs_open os w1 (c_str full) WriteCreateTrunc
                  in if fd < 0 then (no_sequential, w2)
                     else (\<lparr>seq_fd = fd, seq_offset = 0\<rparr>, w2))"

definition open_offset :: "'w uv_fs \<Rightarrow> 'w \<Rightarrow> FileSink \<Rightarrow> string \<Rightarrow>
    OffsetWriter \<times> 'w \<times> FileSink" where
  "open_offset os w sink relative_path =
     (case resolve_safe_path (session_root sink) relative_path of
        None \<Rightarrow> (\<lparr>off_file = None\<rparr>, w, sink)
      | Some full \<Rightarrow>
          let (file, w', sink') = acquire_chunk_file os w sink full
          in (\<lparr>off_file = file\<rparr>, w', sink'))"

definition close_all :: "'w uv_fs \<Rightarrow> 'w \<Rightarrow> FileSink \<Rightarrow> 'w \<times> FileSink" where
  "close_all os w sink =
     (fold (\<lambda>(path, fd) w. uv_fs_close os (uv_fs_fsync os w fd) fd) (chunk_files sink) w,
      sink\<lparr>chunk_files := []\<rparr>)"

section \<open>Where a path leads\<close>

lemma strip_root_relative: "\<not> path_absolute (strip_root s)"
  using hd_dropWhile [of "\<lambda>c. c = CHR ''/''"]
  by (fastforce simp: path_absolute_def strip_root_def)

lemma path_elems_relative:
  "\<not> path_absolute p \<Longrightarrow> path_elems p = path_names p @ (if path_trailing p then [[]] else [])"
  by (simp add: path_elems_def)

text \<open>The relative part that survives the checks: proper names, none of them a dot or a dot-dot.\<close>

lemma lexical_part:
  assumes "\<not> path_absolute p" and "lexically_normal p \<noteq> []" and "lexically_normal p \<noteq> ''.''"
    and "''..'' \<notin> set (path_elems (lexically_normal p))"
  shows "\<not> path_absolute (lexically_normal p)" "path_names (lexically_normal p) \<noteq> []"
    "list_all proper_name (path_names (lexically_normal p))"
    "''.'' \<notin> set (path_names (lexically_normal p))"
    "''..'' \<notin> set (path_names (lexically_normal p))"
proof -
  have "p \<noteq> []"
    using assms(2) by (auto simp: lexically_normal_def)
  note names = lexically_normal_names [OF this]
  show rel: "\<not> path_absolute (lexically_normal p)"
    using names(2) assms(1) by simp
  then show "path_names (lexically_normal p) \<noteq> []"
    using assms(2) by (rule path_names_relative)
  show "list_all proper_name (path_names (lexically_normal p))"
    by (rule path_names_proper)
  have "normal_names False (path_names p) \<noteq> []"
    using assms(1,3) \<open>p \<noteq> []\<close> by (auto simp: lexically_normal_def Let_def)
  then show "''.'' \<notin> set (path_names (lexically_normal p))"
    using names(1) assms(1) is_normal_names [OF path_names_proper, of False p]
    by (auto simp: is_normal_def)
  show "''..'' \<notin> set (path_names (lexically_normal p))"
    using assms(4) rel by (simp add: path_elems_relative)
qed

text \<open>Appending such a part and normalising again only normalises the names before it.\<close>

lemma append_lexical:
  assumes "\<not> path_absolute q" and "path_names q \<noteq> []"
    and "''.'' \<notin> set (path_names q)" and "''..'' \<notin> set (path_names q)"
    and norm: "normal_names (path_absolute r) (path_names r @ path_names q) = kept @ path_names q"
  shows "path_elems (lexically_normal (path_append r q)) =
    (if path_absolute r then [''/''] else []) @ kept @ path_elems q"
proof -
  have q: "q \<noteq> []"
    using assms(2) by auto
  note app = path_append_relative [OF assms(1) q, of r]
  have last: "last (path_names q) \<noteq> ''.''" "last (path_names q) \<noteq> ''..''"
    using assms(2-4) by (metis last_in_set)+
  have ne: "path_append r q \<noteq> []"
    using app(1) assms(2) by auto
  have "lexically_normal (path_append r q) =
      path_print (path_absolute r) (kept @ path_names q) (path_trailing q)"
    using ne norm app assms(2) last by (simp add: lexically_normal_def Let_def)
  moreover have "list_all proper_name (kept @ path_names q)"
    using is_normal_names [OF path_names_proper, of "path_absolute r" "path_append r q"]
    by (simp add: app norm is_normal_def)
  ultimately show ?thesis
    using assms(1,2) by (simp add: path_elems_print path_elems_relative)
qed

lemma normal_root:
  "lexically_normal r = ''.'' \<or>
    is_normal (path_absolute (lexically_normal r)) (path_names (lexically_normal r))"
proof (cases "r = []")
  case False
  have "normal_names (path_absolute r) (path_names r) = [] \<Longrightarrow> \<not> path_absolute r \<Longrightarrow>
      lexically_normal r = ''.''"
    using False by (simp add: lexically_normal_def)
  then show ?thesis
    using lexically_normal_names [OF False] is_normal_names [OF path_names_proper, of "path_absolute r" r]
    by (auto simp: Let_def)
qed (simp add: lexically_normal_def is_normal_plain)

lemma resolve_safe_path_elems:
  assumes "resolve_safe_path root rel = Some full"
  defines "lexical \<equiv> lexically_normal (strip_root (to_slashes rel))"
  shows "path_elems full = path_elems (lexically_normal root) @ path_elems lexical \<and>
    path_names lexical \<noteq> [] \<and> ''.'' \<notin> set (path_elems lexical) \<and> ''..'' \<notin> set (path_elems lexical)"
proof -
  let ?r = "lexically_normal root"
  from assms have full: "full = lexically_normal (path_append ?r lexical)"
    and prefix: "str_prefix (path_elems ?r) (path_elems full)"
    and ok: "lexical \<noteq> []" "lexical \<noteq> ''.''" "''..'' \<notin> set (path_elems lexical)"
    by (auto simp: resolve_safe_path_def Let_def split: if_splits)
  note part = lexical_part [OF strip_root_relative, of "to_slashes rel", folded lexical_def, OF ok]
  have nodot: "''.'' \<notin> set (path_elems lexical)"
    using part by (simp add: path_elems_relative)
  have "path_elems full = path_elems ?r @ path_elems lexical"
  proof (cases "?r = ''.''")
    case True
    have dot: "path_elems ''.'' = [''.'']"
      by code_simp
    have "path_elems full = path_elems lexical"
      using append_lexical [OF part(1,2,4,5), of "''.''" "[]"] part True
      by (simp add: full path_absolute_def proper_name_def normal_names_def foldl_normal_plain)
    then show ?thesis
      using prefix True nodot dot by (auto simp: str_prefix_iff)
  next
    case False
    then have "is_normal (path_absolute ?r) (path_names ?r)"
      using normal_root [of root] by simp
    note app = append_lexical [OF part(1,2,4,5) normal_names_append [OF this part(4,5)], folded full]
    have "\<not> path_trailing ?r"
    proof
      assume "path_trailing ?r"
      with prefix app have "str_prefix [[]] (path_elems lexical)"
        by (auto simp: path_elems_def str_prefix_iff)
      with part(1,2,3) show False
        by (cases "path_names lexical") (auto simp: path_elems_relative proper_name_def)
    qed
    with app show ?thesis
      by (simp add: path_elems_def)
  qed
  with part ok nodot show ?thesis
    by simp
qed

text \<open>
  Property C7.  A path the sink accepts lies strictly below the session directory: its elements
  are those of the normalised session directory followed by at least one name of the client's
  path, none of which is a dot or a dot-dot.  Backslashes, drive letters, leading slashes and
  dot-dots in the client's path cannot lead out of it.
\<close>

theorem resolve_safe_path_confined:
  assumes "resolve_safe_path root rel = Some full"
  shows "\<exists>names. names \<noteq> [] \<and> path_elems full = path_elems (lexically_normal root) @ names \<and>
    ''.'' \<notin> set names \<and> ''..'' \<notin> set names"
  using resolve_safe_path_elems [OF assms] by (auto simp: path_elems_def)

theorem resolve_safe_path_confined_witness:
  "resolve_safe_path ''up/s1'' ''C:/a/../b/c.txt'' = Some ''up/s1/b/c.txt'' \<and>
   (\<exists>names. names \<noteq> [] \<and> path_elems ''up/s1/b/c.txt'' = path_elems (lexically_normal ''up/s1'') @ names \<and>
    ''.'' \<notin> set names \<and> ''..'' \<notin> set names)"
proof -
  have "resolve_safe_path ''up/s1'' ''C:/a/../b/c.txt'' = Some ''up/s1/b/c.txt''"
    by code_simp
  then show ?thesis
    using resolve_safe_path_confined [of "''up/s1''" "''C:/a/../b/c.txt''" "''up/s1/b/c.txt''"] by blast
qed

text \<open>A plain relative path goes where the client says.\<close>

lemma resolve_plain:
  assumes "list_all proper_name ns" "ns \<noteq> []" "''.'' \<notin> set ns" "''..'' \<notin> set ns"
    and "to_slashes (join_slash ns) = join_slash ns" and "strip_root (join_slash ns) = join_slash ns"
    and "is_normal (path_absolute (lexically_normal root)) (path_names (lexically_normal root))"
    and "\<not> path_trailing (lexically_normal root)" and "path_names (lexically_normal root) \<noteq> []"
  shows "resolve_safe_path root (join_slash ns) =
    Some (path_print (path_absolute (lexically_normal root)) (path_names (lexically_normal root) @ ns) False)"
proof -
  let ?r = "lexically_normal root" and ?p = "join_slash ns"
  have pr: "?p = path_print False ns False"
    by (simp add: path_print_def)
  have p: "?p \<noteq> []" "\<not> path_absolute ?p" "path_names ?p = ns" "\<not> path_trailing ?p"
    using assms(1,2) hd_join_slash [of ns] by (auto simp: pr)
  have keep: "normal_names False ns = ns"
    using assms(1,3,4) by (intro normal_names_id is_normal_plain)
  have last: "last ns \<noteq> ''.''" "last ns \<noteq> ''..''"
    using assms(2-4) by (metis last_in_set)+
  have lex: "lexically_normal ?p = ?p"
    using p keep last assms(2) by (simp add: lexically_normal_def pr)
  have "?p \<noteq> ''.''"
    using p(3) assms(3) by (auto simp: proper_name_def)
  have app: "path_absolute (path_append ?r ?p) = path_absolute ?r"
      "path_names (path_append ?r ?p) = path_names ?r @ ns" "\<not> path_trailing (path_append ?r ?p)"
    using path_append_relative [OF p(2,1), of ?r] p by simp_all
  then have "path_append ?r ?p \<noteq> []"
    using assms(2) by auto
  then have full: "lexically_normal (path_append ?r ?p) =
      path_print (path_absolute ?r) (path_names ?r @ ns) False"
    using app normal_names_append [OF assms(7,3,4)] assms(2) last by (simp add: lexically_normal_def)
  have "str_prefix (path_elems ?r) (path_elems (lexically_normal (path_append ?r ?p)))"
    using assms(1,2,8) path_names_proper [of ?r]
    by (simp add: full path_elems_print) (simp add: path_elems_def str_prefix_iff)
  then show ?thesis
    using assms(4,5,6) p lex full \<open>?p \<noteq> ''.''\<close>
    by (simp add: resolve_safe_path_def path_elems_relative Let_def)
qed

section \<open>What reaches the disk\<close>

text \<open>Writing \<open>d\<close> at offset \<open>off\<close> of a file that holds \<open>c\<close>; a gap is filled with zeros.\<close>

definition overwrite :: "bytes \<Rightarrow> nat \<Rightarrow> bytes \<Rightarrow> bytes" where
  "overwrite c off d = take off (c @ replicate (off - length c) 0) @ d @ drop (off + length d) c"

text \<open>
  What POSIX promises of the calls below, in terms of \<open>file w fd\<close>, the path open as \<open>fd\<close> (if
  any), and \<open>content w p\<close>, what the file at \<open>p\<close> holds (nothing if there is none).  A positive
  result of \<open>pwrite\<close> counts the bytes of the buffer that were stored at the given offset;
  \<open>open\<close> returns a descriptor that was not open, and empties the file if asked to truncate it;
  the remaining calls change no content.
\<close>

definition fs_writes :: "'w uv_fs \<Rightarrow> ('w \<Rightarrow> int \<Rightarrow> string option) \<Rightarrow> ('w \<Rightarrow> string \<Rightarrow> bytes) \<Rightarrow> bool" where
  "fs_writes os file content \<longleftrightarrow>
     (\<forall>w fd p data off result w'. uv_fs_write os w fd data off = (result, w') \<longrightarrow>
        file w fd = Some p \<longrightarrow> 0 \<le> off \<longrightarrow> 0 < result \<longrightarrow>
        nat result \<le> length data \<and> file w' = file w \<and>
        content w' = (content w)(p := overwrite (content w p) (nat off) (take (nat result) data)))"

definition fs_opens :: "'w uv_fs \<Rightarrow> ('w \<Rightarrow> int \<Rightarrow> string option) \<Rightarrow> ('w \<Rightarrow> string \<Rightarrow> bytes) \<Rightarrow> bool" where
  "fs_opens os file content \<longleftrightarrow>
     (\<forall>w p mode fd w'. uv_fs_open os w p mode = (fd, w') \<longrightarrow> 0 \<le> fd \<longrightarrow>
        file w fd = None \<and> file w' = (file w)(fd \<mapsto> p) \<and>
        content w' = (if mode = WriteCreateTrunc then (content w)(p := []) else content w))"

definition fs_others :: "'w uv_fs \<Rightarrow> ('w \<Rightarrow> int \<Rightarrow> string option) \<Rightarrow> ('w \<Rightarrow> string \<Rightarrow> bytes) \<Rightarrow> bool" where
  "fs_others os file content \<longleftrightarrow>
     (\<forall>w fd. file (uv_fs_close os w fd) = (file w)(fd := None) \<and>
        content (uv_fs_close os w fd) = content w) \<and>
     (\<forall>w fd. file (uv_fs_fsync os w fd) = file w \<and> content (uv_fs_fsync os w fd) = content w) \<and>
     (\<forall>w p error w'. create_directories os w p = (error, w') \<longrightarrow>
        file w' = file w \<and> content w' = content w)"

definition posix_fs :: "'w uv_fs \<Rightarrow> ('w \<Rightarrow> int \<Rightarrow> string option) \<Rightarrow> ('w \<Rightarrow> string \<Rightarrow> bytes) \<Rightarrow> bool" where
  "posix_fs os file content \<longleftrightarrow>
     fs_writes os file content \<and> fs_opens os file content \<and> fs_others os file content"

lemma length_overwrite [simp]: "length (overwrite c off d) = max (length c) (off + length d)"
  by (auto simp: overwrite_def)

lemma nth_overwrite:
  "i < max (length c) (off + length d) \<Longrightarrow>
    overwrite c off d ! i =
      (if off \<le> i \<and> i < off + length d then d ! (i - off) else if i < length c then c ! i else 0)"
proof -
  assume i: "i < max (length c) (off + length d)"
  define p where "p = take off (c @ replicate (off - length c) 0)"
  have p: "length p = off" "i < off \<Longrightarrow> p ! i = (if i < length c then c ! i else 0)"
    by (auto simp: p_def nth_append)
  have ov: "overwrite c off d = p @ d @ drop (off + length d) c"
    by (simp add: overwrite_def p_def)
  consider "i < off" | "off \<le> i" "i < off + length d" | "off + length d \<le> i" "i < length c"
    using i by linarith
  then show ?thesis
    by cases (auto simp: ov nth_append p)
qed

lemma overwrite_append: "overwrite (overwrite c off a) (off + length a) b = overwrite c off (a @ b)"
  by (rule nth_equalityI) (auto simp: nth_overwrite nth_append)

lemma overwrite_end [simp]: "overwrite c (length c) d = c @ d"
  by (simp add: overwrite_def)

lemma overwrite_Nil: "off \<le> length c \<Longrightarrow> overwrite c off [] = c"
  by (simp add: overwrite_def)

lemma write_loop_stores:
  assumes "fs_writes os file content" and "0 \<le> off" and "file w fd = Some p"
    and "write_loop os w fd data off written = (True, w')" and "written < length data"
  shows "file w' = file w \<and>
    content w' = (content w)(p := overwrite (content w p) (nat off + written) (drop written data))"
  using assms
proof (induction os w fd data off written rule: write_loop.induct)
  case (1 os w fd data off written)
  define n where "n = (if length data - written < kMaxSingleWrite then length data - written
      else kMaxSingleWrite)"
  let ?piece = "take n (drop written data)"
  obtain result w1 where call: "uv_fs_write os w fd ?piece (off + int written) = (result, w1)"
    by fastforce
  have pos: "0 < result" and rec: "write_loop os w1 fd data off (written + nat result) = (True, w')"
    using "1.prems"(2,4,5) call
    by (auto simp: write_loop.simps [of os w] n_def Let_def split: if_splits prod.splits)
  have call': "uv_fs_write os w fd ?piece
      (if off < 0 then -1 else off + int written) = (result, w1)"
    using call "1.prems"(2) by simp
  have off: "0 \<le> off + int written" "nat (off + int written) = nat off + written"
    using "1.prems"(2) by auto
  have le: "nat result \<le> length ?piece" and f1: "file w1 = file w"
    and c1: "content w1 = (content w)
      (p := overwrite (content w p) (nat off + written) (take (nat result) ?piece))"
    using "1.prems"(1,3) call off pos unfolding fs_writes_def by metis+
  have piece: "take (nat result) ?piece = take (nat result) (drop written data)"
    using le by (simp add: min_absorb1)
  have le': "written + nat result \<le> length data"
    using le "1.prems"(5) by auto
  show ?case
  proof (cases "written + nat result < length data")
    case True
    have "file w1 fd = Some p"
      using f1 "1.prems"(3) by simp
    note IH = "1.IH" [OF "1.prems"(5) refl n_def refl call' [symmetric] refl _ "1.prems"(1,2) this rec True]
    have "drop written data = take (nat result) (drop written data) @ drop (written + nat result) data"
      by (metis add.commute append_take_drop_id drop_drop)
    moreover have "length (take (nat result) (drop written data)) = nat result"
      using le' by simp
    ultimately have "overwrite (content w p) (nat off + written) (drop written data) =
        overwrite (content w1 p) (nat off + (written + nat result)) (drop (written + nat result) data)"
      unfolding c1 piece
      using overwrite_append [of "content w p" "nat off + written" "take (nat result) (drop written data)"
          "drop (written + nat result) data"]
      by (simp add: add.assoc)
    then show ?thesis
      using IH f1 c1 pos by (simp add: fun_eq_iff)
  next
    case False
    then have "w' = w1"
      using rec by (simp add: write_loop.simps [of os w1])
    moreover have "take (nat result) (drop written data) = drop written data"
      using False by simp
    ultimately show ?thesis
      using c1 [unfolded piece] f1 by simp
  qed
qed

lemma write_fd_all_stores:
  assumes "fs_writes os file content" and "0 \<le> off" and "file w fd = Some p"
    and "write_fd_all os w fd data off = (True, w')"
  shows "file w' = file w \<and> content w' = (content w)
    (p := if data = [] then content w p else overwrite (content w p) (nat off) data)"
proof (cases "data = []")
  case True
  with assms(4) show ?thesis
    by (simp add: write_fd_all_def write_loop.simps [of os w])
next
  case False
  with write_loop_stores [OF assms(1-3), of data 0 w'] assms(4) show ?thesis
    by (simp add: write_fd_all_def)
qed

text \<open>The sequential writer appends.\<close>

lemma seq_write_appends:
  assumes "fs_writes os file content" and "file w (seq_fd sw) = Some p"
    and "seq_offset sw = int (length (content w p))" and "seq_write os w sw data = (True, w', sw')"
  shows "file w' = file w \<and> content w' = (content w)(p := content w p @ data) \<and>
    seq_fd sw' = seq_fd sw \<and> seq_offset sw' = int (length (content w' p))"
proof -
  have all: "write_fd_all os w (seq_fd sw) data (seq_offset sw) = (True, w')"
    and sw': "sw' = sw\<lparr>seq_offset := seq_offset sw + int (length data)\<rparr>"
    using assms(4) by (auto simp: seq_write_def split: if_splits prod.splits)
  from write_fd_all_stores [OF assms(1) _ assms(2) all] assms(3) show ?thesis
    by (auto simp: sw' split: if_splits)
qed

lemma sint_offset:
  assumes "unat off < 2 ^ 63"
  shows "sint (off :: u64) = int (unat off)"
proof -
  have u: "uint off = int (unat off)"
    by simp
  have "int (unat off) < int (2 ^ 63)"
    using assms by (simp only: of_nat_less_iff)
  moreover have "- (2 ^ 63) \<le> int (unat off)"
    by (rule order_trans [of _ 0]) simp_all
  ultimately have "signed_take_bit 63 (int (unat off)) = int (unat off)"
    by (intro signed_take_bit_int_eq_self) simp_all
  then show ?thesis
    unfolding sint_uint u by simp
qed

lemma write_at_stores:
  assumes "fs_writes os file content" and "file w fd = Some p" and "unat off < 2 ^ 63"
    and "write_at os w \<lparr>off_file = Some fd\<rparr> off data = (True, w')"
  shows "file w' = file w \<and> content w' = (content w)
    (p := if data = [] then content w p else overwrite (content w p) (unat off) data)"
  using write_fd_all_stores [OF assms(1) _ assms(2), of "sint off" data w'] assms(3,4)
  by (simp add: write_at_def sint_offset)

section \<open>Chunks in any order\<close>

text \<open>
  The chunks of a big file reach the server over several connections, in any order, and are
  written through the same descriptor.
\<close>

fun write_pieces :: "'w uv_fs \<Rightarrow> 'w \<Rightarrow> int \<Rightarrow> (u64 \<times> bytes) list \<Rightarrow> bool \<times> 'w" where
  "write_pieces os w fd [] = (True, w)"
| "write_pieces os w fd ((off, data) # ps) =
     (case write_at os w \<lparr>off_file = Some fd\<rparr> off data of
        (ok, w') \<Rightarrow> if ok then write_pieces os w' fd ps else (False, w'))"

definition piece_of :: "bytes \<Rightarrow> u64 \<times> bytes \<Rightarrow> bool" where
  "piece_of d piece \<longleftrightarrow> snd piece \<noteq> [] \<and> unat (fst piece) + length (snd piece) \<le> length d \<and>
     snd piece = take (length (snd piece)) (drop (unat (fst piece)) d)"

definition covers :: "(u64 \<times> bytes) list \<Rightarrow> nat \<Rightarrow> bool" where
  "covers ps i \<longleftrightarrow> list_ex (\<lambda>(off, data). unat off \<le> i \<and> i < unat off + length data) ps"

text \<open>What the pieces leave: the bytes of the original where they cover, the old bytes elsewhere.\<close>

lemma write_pieces_content:
  assumes "fs_writes os file content" and "file w fd = Some p" and "length d < 2 ^ 63"
    and "list_all (piece_of d) ps" and "length (content w p) \<le> length d"
    and "write_pieces os w fd ps = (True, w')"
  shows "length (content w' p) \<le> length d \<and>
    (\<forall>i < length d. covers ps i \<longrightarrow> i < length (content w' p) \<and> content w' p ! i = d ! i) \<and>
    (\<forall>i < length (content w p). i < length (content w' p) \<and>
       (content w' p ! i = content w p ! i \<or> content w' p ! i = d ! i))"
  using assms
proof (induction ps arbitrary: w)
  case Nil
  then show ?case
    by (simp add: covers_def)
next
  case (Cons piece ps)
  obtain off data where piece: "piece = (off, data)"
    by fastforce
  obtain w1 where at: "write_at os w \<lparr>off_file = Some fd\<rparr> off data = (True, w1)"
    and rest: "write_pieces os w1 fd ps = (True, w')"
    using Cons.prems(6) by (auto simp: piece split: prod.splits if_splits)
  have of: "data \<noteq> []" "unat off + length data \<le> length d"
    "data = take (length data) (drop (unat off) d)"
    using Cons.prems(4) by (auto simp: piece piece_of_def)
  have "file w1 = file w" and c1: "content w1 p = overwrite (content w p) (unat off) data"
    using write_at_stores [OF Cons.prems(1,2) _ at] of(1,2) Cons.prems(3) by simp_all
  have nth: "data ! (i - unat off) = d ! i" if "unat off \<le> i" "i < unat off + length data" for i
  proof -
    have "data ! (i - unat off) = take (length data) (drop (unat off) d) ! (i - unat off)"
      using of(3) by simp
    also have "\<dots> = d ! i"
      using that of(2) by simp
    finally show ?thesis .
  qed
  have here: "i < length (content w1 p) \<and> content w1 p ! i = d ! i"
    if "unat off \<le> i" "i < unat off + length data" for i
    using that nth by (simp add: c1 nth_overwrite)
  have old: "i < length (content w1 p) \<and> (content w1 p ! i = content w p ! i \<or> content w1 p ! i = d ! i)"
    if "i < length (content w p)" for i
    using that nth by (auto simp: c1 nth_overwrite less_max_iff_disj)
  have IH: "length (content w' p) \<le> length d \<and>
    (\<forall>i < length d. covers ps i \<longrightarrow> i < length (content w' p) \<and> content w' p ! i = d ! i) \<and>
    (\<forall>i < length (content w1 p). i < length (content w' p) \<and>
       (content w' p ! i = content w1 p ! i \<or> content w' p ! i = d ! i))"
    by (rule Cons.IH [OF Cons.prems(1) _ Cons.prems(3) _ _ rest])
      (use Cons.prems of \<open>file w1 = file w\<close> in \<open>simp_all add: c1\<close>)
  show ?case
    using IH here old by (fastforce simp: covers_def piece)
qed

text \<open>
  Property C8.  However the chunks of a file are ordered, once every chunk has been written the
  stored file is the original: the pieces lie inside it, cover it, and the file was not longer
  before.
\<close>

theorem chunks_assemble:
  assumes "posix_fs os file content" and "file w fd = Some p" and "length d < 2 ^ 63"
    and "list_all (piece_of d) ps" and "list_all (covers ps) [0..<length d]"
    and "length (content w p) \<le> length d"
    and "write_pieces os w fd ps = (True, w')"
  shows "content w' p = d"
proof -
  have "fs_writes os file content"
    using assms(1) by (simp add: posix_fs_def)
  note res = write_pieces_content [OF this assms(2,3,4,6,7)]
  have cov: "covers ps i" if "i < length d" for i
    using assms(5) that by (simp add: list_all_iff)
  have "length d \<le> length (content w' p)"
    using res cov [of "length d - 1"] by (cases "length d") auto
  then show ?thesis
    using res cov by (intro nth_equalityI) auto
qed

text \<open>
  A file system in memory that keeps these promises; its writes store at most four bytes at a
  time, so that the loops above them have something to do.
\<close>

record MemFs =
  mem_content :: "string \<Rightarrow> bytes"
  mem_open :: "string option list"

definition mem_file :: "MemFs \<Rightarrow> int \<Rightarrow> string option" where
  "mem_file w fd = (if 0 \<le> fd \<and> nat fd < length (mem_open w) then mem_open w ! nat fd else None)"

definition mem_os :: "MemFs uv_fs" where
  "mem_os =
     \<lparr>uv_fs_open = (\<lambda>w p mode. (int (length (mem_open w)),
        w\<lparr>mem_open := mem_open w @ [Some p],
          mem_content := (if mode = WriteCreateTrunc then (mem_content w)(p := []) else mem_content w)\<rparr>)),
      uv_fs_write = (\<lambda>w fd data off.
        case mem_file w fd of
          None \<Rightarrow> (-9, w)
        | Some p \<Rightarrow> (int (length (take 4 data)),
            w\<lparr>mem_content := (mem_content w)(p := overwrite (mem_content w p) (nat off) (take 4 data))\<rparr>)),
      uv_fs_close = (\<lambda>w fd. if 0 \<le> fd then w\<lparr>mem_open := (mem_open w)[nat fd := None]\<rparr> else w),
      uv_fs_fsync = (\<lambda>w fd. w),
      create_directories = (\<lambda>w p. (False, w)),
      fs_exists = (\<lambda>w p. True)\<rparr>"

definition mem_new :: MemFs where
  "mem_new = \<lparr>mem_content = (\<lambda>p. []), mem_open = []\<rparr>"

lemma mem_posix: "posix_fs mem_os mem_file mem_content"
  unfolding posix_fs_def
proof (intro conjI)
  show "fs_writes mem_os mem_file mem_content"
    by (auto simp: fs_writes_def mem_os_def fun_eq_iff min_def) (auto simp: mem_file_def)
  show "fs_opens mem_os mem_file mem_content"
    by (auto simp: fs_opens_def mem_os_def mem_file_def fun_eq_iff nth_append)
  show "fs_others mem_os mem_file mem_content"
    by (auto simp: fs_others_def mem_os_def mem_file_def fun_eq_iff nth_list_update)
qed

theorem chunks_assemble_witness:
  "mem_content (snd (write_pieces mem_os (mem_new\<lparr>mem_open := [Some ''f'']\<rparr>) 0
     [(2, [3, 4, 5, 6, 7]), (0, [1, 2])])) ''f'' = [1, 2, 3, 4, 5, 6, 7]"
proof -
  let ?w = "mem_new\<lparr>mem_open := [Some ''f'']\<rparr>" and ?ps = "[(2, [3, 4, 5, 6, 7]), (0, [1, 2])]"
  let ?d = "[1, 2, 3, 4, 5, 6, 7]"
  have ok: "fst (write_pieces mem_os ?w 0 ?ps)"
    by (simp add: write_at_def write_fd_all_def write_loop.simps mem_os_def mem_file_def
        kMaxSingleWrite_def mem_new_def Let_def)
  have "mem_file ?w 0 = Some ''f''" "list_all (piece_of ?d) ?ps" "list_all (covers ?ps) [0..<length ?d]"
    by (simp_all add: mem_file_def piece_of_def covers_def upt_rec)
  then show ?thesis
    using chunks_assemble [OF mem_posix, of ?w 0 "''f''" ?d ?ps "snd (write_pieces mem_os ?w 0 ?ps)"] ok
    by (simp add: prod_eq_iff mem_new_def)
qed

end
