(* ===== verification/Decompressor.thy ===== *)
theory Decompressor
  imports Wire
begin

text \<open>
  \<open>server/zstd_decompressor.cxx\<close>, \<open>server/lz4_decompressor.cxx\<close> and \<open>server/decompressor.cxx\<close>:
  the loops that feed one received block to the streaming decoder and hand its output to the
  sink.  One call of the library (\<open>ZSTD_decompressStream\<close>, \<open>LZ4F_decompress\<close>) is a parameter
  \<open>step\<close>: from the decoder context, the size of the output buffer and the input not yet
  consumed it gives an error (\<^const>\<open>None\<close>), or the new context, the bytes it produced and how
  many input bytes it consumed.  The sink is any state \<open>'s\<close> with its \<open>write\<close>.

  The loops end only if the library makes progress, so they are partial functions: \<^const>\<open>None\<close>
  is a call that does not return.
\<close>

type_synonym 'z decode_step = "'z \<Rightarrow> nat \<Rightarrow> bytes \<Rightarrow> ('z \<times> bytes \<times> nat) option"
type_synonym 's sink_write = "'s \<Rightarrow> bytes \<Rightarrow> bool \<times> 's"

definition kDecodeChunk :: nat where
  "kDecodeChunk = 256 * 1024"

text \<open>What both loops do with one result: write the output, if there is any.\<close>

definition deliver :: "'s sink_write \<Rightarrow> 's \<Rightarrow> bytes \<Rightarrow> bool \<times> 's" where
  "deliver wr s out = (if out \<noteq> [] then wr s out else (True, s))"

partial_function (option) zstd_decompress ::
    "'z decode_step \<Rightarrow> 's sink_write \<Rightarrow> 'z \<Rightarrow> 's \<Rightarrow> bytes \<Rightarrow> (bool \<times> 'z \<times> 's) option" where
  "zstd_decompress step wr z s input =
     (if input = [] then Some (True, z, s)
      else case step z kDecodeChunk input of
             None \<Rightarrow> Some (False, z, s)
           | Some (z', out, consumed) \<Rightarrow>
               (case deliver wr s out of (ok, s') \<Rightarrow>
                  if \<not> ok then Some (False, z', s')
                  else if out = [] \<and> consumed < length input then Some (False, z', s')
                  else zstd_decompress step wr z' s' (drop consumed input)))"

partial_function (option) lz4_decompress ::
    "'z decode_step \<Rightarrow> 's sink_write \<Rightarrow> 'z \<Rightarrow> 's \<Rightarrow> bytes \<Rightarrow> (bool \<times> 'z \<times> 's) option" where
  "lz4_decompress step wr z s input =
     (if input = [] then Some (True, z, s)
      else case step z kDecodeChunk input of
             None \<Rightarrow> Some (False, z, s)
           | Some (z', out, consumed) \<Rightarrow>
               (case deliver wr s out of (ok, s') \<Rightarrow>
                  if \<not> ok then Some (False, z', s')
                  else if consumed = 0 \<and> out = [] then Some (False, z', s')
                  else lz4_decompress step wr z' s' (drop consumed input)))"

text \<open>\<open>make_decompressor\<close> and the virtual call of \<open>StreamDecompressor::decompress\<close>.\<close>

definition make_decompressor :: "CompressionAlgo \<Rightarrow> CompressionAlgo option" where
  "make_decompressor a = (case a of Lz4 \<Rightarrow> Some Lz4 | Zstd \<Rightarrow> Some Zstd | _ \<Rightarrow> None)"

definition decompress ::
    "CompressionAlgo \<Rightarrow> 'z decode_step \<Rightarrow> 's sink_write \<Rightarrow> 'z \<Rightarrow> 's \<Rightarrow> bytes \<Rightarrow> (bool \<times> 'z \<times> 's) option" where
  "decompress alg step wr z s input =
     (if alg = Zstd then zstd_decompress step wr z s input
      else if alg = Lz4 then lz4_decompress step wr z s input
      else None)"

section \<open>What the libraries document\<close>

text \<open>
  A call that does anything leaves less to do: the loops above end on every input.
\<close>

definition decoder_progress :: "'z decode_step \<Rightarrow> ('z \<Rightarrow> bytes \<Rightarrow> nat) \<Rightarrow> bool" where
  "decoder_progress step pot \<longleftrightarrow>
     (\<forall>z cap input z' out consumed. step z cap input = Some (z', out, consumed) \<longrightarrow> input \<noteq> [] \<longrightarrow>
        out \<noteq> [] \<or> 0 < consumed \<longrightarrow> pot z' (drop consumed input) < pot z input)"

text \<open>
  \<open>dec z stream\<close> is everything a decoder in context \<open>z\<close> has still to deliver when it is given
  \<open>stream\<close>, including what it holds back already; \<^const>\<open>None\<close> if \<open>stream\<close> is not the beginning
  of a valid one.  On a valid stream a call succeeds, consumes a prefix of its input
  and delivers a prefix of that; having delivered nothing, it has used all its input; and having
  used all its input, it holds nothing back unless the output buffer is full.
\<close>

definition streaming_decoder :: "'z decode_step \<Rightarrow> ('z \<Rightarrow> bytes \<Rightarrow> bytes option) \<Rightarrow> bool" where
  "streaming_decoder step dec \<longleftrightarrow>
     (\<forall>z cap input more everything. 0 < cap \<longrightarrow> input \<noteq> [] \<longrightarrow> dec z (input @ more) = Some everything \<longrightarrow>
        (\<exists>z' out consumed rest. step z cap input = Some (z', out, consumed) \<and>
           consumed \<le> length input \<and> length out \<le> cap \<and>
           everything = out @ rest \<and> dec z' (drop consumed input @ more) = Some rest \<and>
           (out = [] \<longrightarrow> consumed = length input) \<and>
           (consumed = length input \<longrightarrow> length out < cap \<longrightarrow> dec z' [] = Some [])))"

text \<open>
  Stronger: nothing is ever held back once the input is used up.  It holds of streams whose
  blocks divide the output buffer, as those of the uploader do.
\<close>

definition drains :: "'z decode_step \<Rightarrow> ('z \<Rightarrow> bytes \<Rightarrow> bytes option) \<Rightarrow> bool" where
  "drains step dec \<longleftrightarrow>
     (\<forall>z input z' out everything. step z kDecodeChunk input = Some (z', out, length input) \<longrightarrow>
        input \<noteq> [] \<longrightarrow> dec z input = Some everything \<longrightarrow> dec z' [] = Some [])"

section \<open>Decoding one block\<close>

text \<open>What reaches the sink is a sequence of writes, up to the first that fails.\<close>

fun write_all :: "'s sink_write \<Rightarrow> 's \<Rightarrow> bytes list \<Rightarrow> bool \<times> 's" where
  "write_all wr s [] = (True, s)"
| "write_all wr s (out # outs) =
     (case wr s out of (ok, s') \<Rightarrow> if ok then write_all wr s' outs else (False, s'))"

lemma write_all_append:
  "write_all wr s (xs @ ys) =
    (case write_all wr s xs of (ok, s') \<Rightarrow> if ok then write_all wr s' ys else (False, s'))"
  by (induction xs arbitrary: s) (auto split: prod.split)

lemma kDecodeChunk_pos [simp]: "0 < kDecodeChunk"
  by (simp add: kDecodeChunk_def)

text \<open>
  The two loops differ only in when they give up, and neither gives up on a valid stream: one
  description serves both.  \<open>stop\<close> is the condition on which the loop gives up.
\<close>

lemma decompress_loop_returns:
  assumes "decoder_progress step pot"
    and unfold: "\<And>z s input. f z s input =
      (if input = [] then Some (True, z, s)
       else case step z kDecodeChunk input of
              None \<Rightarrow> Some (False, z, s)
            | Some (z', out, consumed) \<Rightarrow>
                (case deliver wr s out of (ok, s') \<Rightarrow>
                   if \<not> ok then Some (False, z', s')
                   else if stop out consumed input then Some (False, z', s')
                   else f z' s' (drop consumed input)))"
    and stop: "\<And>input. stop [] 0 input = True \<or> input = []"
  shows "\<exists>r. f z s input = Some r"
proof (induction "pot z input" arbitrary: z s input rule: less_induct)
  case less
  show ?case
  proof (cases "input = [] \<or> step z kDecodeChunk input = None")
    case True
    then show ?thesis
      by (auto simp: unfold [of z s input])
  next
    case False
    then obtain z' out consumed where call: "step z kDecodeChunk input = Some (z', out, consumed)"
      by auto
    have "\<exists>r. f z' s' (drop consumed input) = Some r" if "\<not> stop out consumed input" for s'
    proof (rule less)
      have "out \<noteq> [] \<or> 0 < consumed"
        using that stop [of input] False by (cases "consumed = 0") auto
      then show "pot z' (drop consumed input) < pot z input"
        using assms(1) call False unfolding decoder_progress_def by blast
    qed
    then show ?thesis
      using False call by (auto simp: unfold [of z s input] split: prod.splits)
  qed
qed

lemma decoder_call:
  assumes "streaming_decoder step dec" and "input \<noteq> []" and "dec z (input @ more) = Some everything"
  obtains z' out consumed rest where "step z kDecodeChunk input = Some (z', out, consumed)"
    "consumed \<le> length input" "everything = out @ rest" "dec z' (drop consumed input @ more) = Some rest"
    "out = [] \<longrightarrow> consumed = length input"
  using assms unfolding streaming_decoder_def by (metis kDecodeChunk_pos)

text \<open>
  What is delivered does not depend on what comes later: it is a prefix of everything the decoder has to
  deliver, for every continuation of the stream.
\<close>

lemma decompress_loop_delivers:
  assumes "decoder_progress step pot" and "streaming_decoder step dec"
    and unfold: "\<And>z s input. f z s input =
      (if input = [] then Some (True, z, s)
       else case step z kDecodeChunk input of
              None \<Rightarrow> Some (False, z, s)
            | Some (z', out, consumed) \<Rightarrow>
                (case deliver wr s out of (ok, s') \<Rightarrow>
                   if \<not> ok then Some (False, z', s')
                   else if stop out consumed input then Some (False, z', s')
                   else f z' s' (drop consumed input)))"
    and stop: "\<And>out consumed input. input \<noteq> [] \<Longrightarrow> stop out consumed input \<Longrightarrow>
      out = [] \<and> consumed < length input"
    and valid: "dec z (input @ more0) = Some everything0"
  shows "\<exists>ok z' s' outs. f z s input = Some (ok, z', s') \<and> list_all (\<lambda>out. out \<noteq> []) outs \<and>
    write_all wr s outs = (ok, s') \<and>
    (\<forall>more everything. dec z (input @ more) = Some everything \<longrightarrow>
       (\<exists>rest. everything = concat outs @ rest \<and> (ok \<longrightarrow> dec z' more = Some rest \<and>
          (input \<noteq> [] \<longrightarrow> drains step dec \<longrightarrow> more = [] \<longrightarrow> rest = []))))"
  using valid
proof (induction "pot z input" arbitrary: z s input everything0 rule: less_induct)
  case less
  show ?case
  proof (cases "input = []")
    case True
    then show ?thesis
      by (intro exI [of _ True] exI [of _ z] exI [of _ s] exI [of _ "[]"]) (auto simp: unfold [of z s "[]"])
  next
    case False
    obtain z' out consumed rest0 where
      call: "step z kDecodeChunk input = Some (z', out, consumed)" "consumed \<le> length input"
        "dec z' (drop consumed input @ more0) = Some rest0" "out = [] \<longrightarrow> consumed = length input"
      using decoder_call [OF assms(2) False less.prems] by metis
    have here: "\<exists>rest. everything = out @ rest \<and> dec z' (drop consumed input @ more) = Some rest"
      if "dec z (input @ more) = Some everything" for more everything
      using decoder_call [OF assms(2) False that] call(1) by (metis Pair_inject option.inject)
    obtain ok s' where del: "deliver wr s out = (ok, s')"
      by fastforce
    have go: "\<not> stop out consumed input"
      using stop [OF False] call(4) by fastforce
    have prog: "pot z' (drop consumed input) < pot z input"
      using assms(1) call(1,4) False unfolding decoder_progress_def by (metis length_greater_0_conv)
    show ?thesis
    proof (cases ok)
      case False
      then show ?thesis
        using call(1) del \<open>input \<noteq> []\<close> here
        by (intro exI [of _ False] exI [of _ z'] exI [of _ s'] exI [of _ "[out]"])
          (auto simp: unfold [of z s input] deliver_def split: if_splits)
    next
      case True
      obtain ok2 z2 s2 outs2 where IH:
        "f z' s' (drop consumed input) = Some (ok2, z2, s2)" "list_all (\<lambda>out. out \<noteq> []) outs2"
        "write_all wr s' outs2 = (ok2, s2)"
        "\<And>more everything. dec z' (drop consumed input @ more) = Some everything \<Longrightarrow>
           \<exists>rest. everything = concat outs2 @ rest \<and> (ok2 \<longrightarrow> dec z2 more = Some rest \<and>
             (drop consumed input \<noteq> [] \<longrightarrow> drains step dec \<longrightarrow> more = [] \<longrightarrow> rest = []))"
        using less.hyps [OF prog call(3)] by blast
      have last: "rest = []"
        if "drop consumed input = []" "drains step dec" "dec z (input @ []) = Some everything" "dec z2 [] = Some rest" ok2 for everything rest
      proof -
        have "z2 = z'"
          using IH(1) that(1) unfold [of z' s' "[]"] by simp
        moreover have "dec z' [] = Some []"
          using that(1-3) call(1,2) \<open>input \<noteq> []\<close> unfolding drains_def by fastforce
        ultimately show ?thesis
          using that(4) by simp
      qed
      have all: "\<exists>rest. everything = (out @ concat outs2) @ rest \<and> (ok2 \<longrightarrow> dec z2 more = Some rest \<and>
          (drains step dec \<longrightarrow> more = [] \<longrightarrow> rest = []))"
        if "dec z (input @ more) = Some everything" for more everything
        using here [OF that] IH(4) [of more] last [of everything] that by (metis append.assoc)
      show ?thesis
        using call(1) del True go \<open>input \<noteq> []\<close> IH(1-3) all
        by (intro exI [of _ ok2] exI [of _ z2] exI [of _ s2] exI [of _ "(if out = [] then [] else [out]) @ outs2"])
          (auto simp: unfold [of z s input] deliver_def write_all_append split: if_splits)
    qed
  qed
qed

lemma decompress_returns:
  assumes "decoder_progress step pot" and "alg = Zstd \<or> alg = Lz4"
  shows "\<exists>r. decompress alg step wr z s input = Some r"
proof -
  have "\<exists>r. zstd_decompress step wr z s input = Some r"
    by (rule decompress_loop_returns [where wr = wr and
          stop = "\<lambda>out consumed input. out = [] \<and> consumed < length input", OF assms(1)])
      (rule zstd_decompress.simps, simp)
  moreover have "\<exists>r. lz4_decompress step wr z s input = Some r"
    by (rule decompress_loop_returns [where wr = wr and
          stop = "\<lambda>out consumed input. consumed = 0 \<and> out = []", OF assms(1)])
      (rule lz4_decompress.simps, simp)
  ultimately show ?thesis
    using assms(2) by (auto simp: decompress_def)
qed

text \<open>
  On a valid stream a block is decoded completely unless a write fails, and everything it decodes
  to reaches the sink in order.
\<close>

lemma decompress_delivers:
  assumes "decoder_progress step pot" and "streaming_decoder step dec" and "alg = Zstd \<or> alg = Lz4"
    and "dec z (input @ more0) = Some everything0"
  shows "\<exists>ok z' s' outs. decompress alg step wr z s input = Some (ok, z', s') \<and>
    list_all (\<lambda>out. out \<noteq> []) outs \<and> write_all wr s outs = (ok, s') \<and>
    (\<forall>more everything. dec z (input @ more) = Some everything \<longrightarrow>
       (\<exists>rest. everything = concat outs @ rest \<and> (ok \<longrightarrow> dec z' more = Some rest \<and>
          (input \<noteq> [] \<longrightarrow> drains step dec \<longrightarrow> more = [] \<longrightarrow> rest = []))))"
proof -
  have "\<exists>ok z' s' outs. zstd_decompress step wr z s input = Some (ok, z', s') \<and>
    list_all (\<lambda>out. out \<noteq> []) outs \<and> write_all wr s outs = (ok, s') \<and>
    (\<forall>more everything. dec z (input @ more) = Some everything \<longrightarrow>
       (\<exists>rest. everything = concat outs @ rest \<and> (ok \<longrightarrow> dec z' more = Some rest \<and>
          (input \<noteq> [] \<longrightarrow> drains step dec \<longrightarrow> more = [] \<longrightarrow> rest = []))))"
    by (rule decompress_loop_delivers [where wr = wr and
          stop = "\<lambda>out consumed input. out = [] \<and> consumed < length input", OF assms(1,2) _ _ assms(4)])
      (rule zstd_decompress.simps, simp)
  moreover have "\<exists>ok z' s' outs. lz4_decompress step wr z s input = Some (ok, z', s') \<and>
    list_all (\<lambda>out. out \<noteq> []) outs \<and> write_all wr s outs = (ok, s') \<and>
    (\<forall>more everything. dec z (input @ more) = Some everything \<longrightarrow>
       (\<exists>rest. everything = concat outs @ rest \<and> (ok \<longrightarrow> dec z' more = Some rest \<and>
          (input \<noteq> [] \<longrightarrow> drains step dec \<longrightarrow> more = [] \<longrightarrow> rest = []))))"
    by (rule decompress_loop_delivers [where wr = wr and
          stop = "\<lambda>out consumed input. consumed = 0 \<and> out = []", OF assms(1,2) _ _ assms(4)])
      (rule lz4_decompress.simps, simp)
  ultimately show ?thesis
    using assms(3) by (simp add: decompress_def) blast
qed

lemma zstd_decompress_writes:
  assumes "zstd_decompress step wr z s input = Some res" and "P s" and "fst res"
    and wr: "\<And>s out s'. P s \<Longrightarrow> wr s out = (True, s') \<Longrightarrow> P s'"
  shows "P (snd (snd res))"
proof -
  have del: "deliver wr s out = (True, s') \<Longrightarrow> P s \<Longrightarrow> P s'" for s out s'
    using wr by (auto simp: deliver_def split: if_splits)
  have "wr = wr \<longrightarrow> P s \<longrightarrow> fst res \<longrightarrow> P (snd (snd res))"
    by (rule zstd_decompress.raw_induct [where
          P = "\<lambda>step' wr' z s input res. wr' = wr \<longrightarrow> P s \<longrightarrow> fst res \<longrightarrow> P (snd (snd res))", OF _ assms(1)])
      (auto split: if_splits option.splits prod.splits dest: del)
  then show ?thesis
    using assms(2,3) by blast
qed

lemma lz4_decompress_writes:
  assumes "lz4_decompress step wr z s input = Some res" and "P s" and "fst res"
    and wr: "\<And>s out s'. P s \<Longrightarrow> wr s out = (True, s') \<Longrightarrow> P s'"
  shows "P (snd (snd res))"
proof -
  have del: "deliver wr s out = (True, s') \<Longrightarrow> P s \<Longrightarrow> P s'" for s out s'
    using wr by (auto simp: deliver_def split: if_splits)
  have "wr = wr \<longrightarrow> P s \<longrightarrow> fst res \<longrightarrow> P (snd (snd res))"
    by (rule lz4_decompress.raw_induct [where
          P = "\<lambda>step' wr' z s input res. wr' = wr \<longrightarrow> P s \<longrightarrow> fst res \<longrightarrow> P (snd (snd res))", OF _ assms(1)])
      (auto split: if_splits option.splits prod.splits dest: del)
  then show ?thesis
    using assms(2,3) by blast
qed

text \<open>A block that decoded completely reached the sink by successful writes only.\<close>

lemma decompress_writes:
  assumes "decompress alg step wr z s input = Some (True, z', s')" and "P s"
    and "\<And>s out s'. P s \<Longrightarrow> wr s out = (True, s') \<Longrightarrow> P s'"
  shows "P s'"
  using assms(1) zstd_decompress_writes [where P = P, OF _ assms(2) _ assms(3)]
    lz4_decompress_writes [where P = P, OF _ assms(2) _ assms(3)]
  by (fastforce simp: decompress_def split: if_splits)

section \<open>A decoder that copies\<close>

text \<open>The identity coding, as an instance of what is asked of a decoder.\<close>

definition copy_step :: "unit decode_step" where
  "copy_step z cap input = Some (z, take cap input, length (take cap input))"

lemma copy_step_decoder:
  "decoder_progress copy_step (\<lambda>z input. length input)"
  "streaming_decoder copy_step (\<lambda>z stream. Some stream)"
  "drains copy_step (\<lambda>z stream. Some stream)"
proof -
  have "take cap input @ drop (length (take cap input)) input = input" for cap and input :: bytes
    by (cases "cap \<le> length input") (simp_all add: min_absorb1 min_absorb2)
  then show "decoder_progress copy_step (\<lambda>z input. length input)"
    "streaming_decoder copy_step (\<lambda>z stream. Some stream)"
    "drains copy_step (\<lambda>z stream. Some stream)"
    by (auto simp: decoder_progress_def streaming_decoder_def drains_def copy_step_def
        simp flip: append_assoc)
qed

end
