(* ===== verification/Server_Consumer.thy ===== *)
theory Server_Consumer
  imports Byte_Channel Xxh64 File_Sink Decompressor Handshake
begin

text \<open>
  The consumer thread of a connection, \<open>server/connection.cxx\<close>: \<open>consumer_main\<close>, \<open>handle_probe\<close>
  and \<open>handle_upload\<close>, which read the upload stream from the connection's channel, ask the
  server's filter about probes, and write the units of the session to disk.

  The functions take the channel's read operation as an argument (\<open>rd\<close>, see
  \<open>Byte_Source\<close>), so that they can be run on the real \<open>ByteChannel\<close> and, in proofs, on a
  plain list of bytes.  \<open>Conn\<close> holds what the event loop has fixed before it starts the
  thread; \<open>Session\<close> is what the thread changes.  Log lines are left out; the events of
  \<open>server/server_events.h\<close> are appended to a list.
\<close>

section \<open>Events and state\<close>

datatype server_event =
    ClientConnected string string string bool bool
  | UploadStarted string string string UnitType u64
  | UploadFinished string string string UnitType u64 u64 u64 bool string
  | UploadSkipped string string string UnitType u64 u64
  | ClientDisconnected string string u64 u64 u64

record ProbeInfo =
  probe_session :: string
  probe_peer :: string
  probe_path :: string
  probe_type :: UnitType
  probe_offset :: u64
  probe_length :: u64
  probe_file_size :: u64
  probe_mtime :: int
  probe_hash :: bytes

record AcceptedUnit =
  acc_type :: UnitType
  acc_path :: string
  acc_offset :: u64

record ('z, 'w) Conn =
  conn_os :: "'w uv_fs"
  conn_decode :: "'z decode_step"
  conn_algo :: CompressionAlgo
  conn_filter :: "ProbeInfo \<Rightarrow> bool"
  conn_mode :: byte
  integrity_checks :: bool
  session_hex :: string
  peer :: string

record ('z, 'w) Session =
  world :: 'w
  sink :: FileSink
  decoder_ctx :: 'z
  accepted :: "u64 \<rightharpoonup> AcceptedUnit"
  outbox :: bytes
  units_done :: u64
  bytes_total :: u64
  events :: "server_event list"

definition emit :: "server_event \<Rightarrow> ('z, 'w) Session \<Rightarrow> ('z, 'w) Session" where
  "emit e st = st\<lparr>events := events st @ [e]\<rparr>"

definition post :: "bytes \<Rightarrow> ('z, 'w) Session \<Rightarrow> ('z, 'w) Session" where
  "post data st = st\<lparr>outbox := outbox st @ data\<rparr>"

section \<open>The sink of one unit\<close>

record UnitSink =
  is_chunk :: bool
  sequential_writer :: SequentialWriter
  offset_writer :: OffsetWriter
  base_offset :: u64
  running :: u64
  integrity :: bool
  checksum_state :: XXH64_state

definition unit_write :: "'w uv_fs \<Rightarrow> UnitSink \<times> 'w \<Rightarrow> bytes \<Rightarrow> bool \<times> UnitSink \<times> 'w" where
  "unit_write fs sw data =
     (let (us, w) = sw;
          us1 = (if integrity us
                 then us\<lparr>checksum_state := XXH64_update (checksum_state us) data\<rparr> else us);
          (ok, w', sq) =
            (if is_chunk us
             then let (ok, w') = write_at fs w (offset_writer us) (base_offset us + running us) data
                  in (ok, w', sequential_writer us)
             else seq_write fs w (sequential_writer us) data)
      in (ok, us1\<lparr>sequential_writer := sq, running := running us + of_nat (length data)\<rparr>, w'))"

section \<open>\<open>handle_probe\<close>\<close>

definition handle_probe :: "'c reader \<Rightarrow> ('z, 'w) Conn \<Rightarrow> 'c \<Rightarrow> ('z, 'w) Session \<Rightarrow>
    bool \<times> 'c \<times> ('z, 'w) Session" where
  "handle_probe rd cn c st =
     (case rd c (8 + 1 + 2) of
        (None, c1) \<Rightarrow> (False, c1, st)
      | (Some head, c1) \<Rightarrow>
          let key = read_u64_le head;
              type = unit_of_byte (head ! 8);
              path_len = read_u16_le (drop 9 head)
          in if (type \<noteq> File \<and> type \<noteq> Chunk) \<or> path_len = 0 \<or> kMaxPathLength < path_len
             then (False, c1, st)
             else
               case rd c1 (unat path_len) of
                 (None, c2) \<Rightarrow> (False, c2, st)
               | (Some path_bytes, c2) \<Rightarrow>
                   case rd c2 (8 * 4) of
                     (None, c3) \<Rightarrow> (False, c3, st)
                   | (Some sizes, c3) \<Rightarrow>
                       case (if has_mode (conn_mode cn) HashFirst then rd c3 kProbeHashSize
                             else (Some [], c3)) of
                         (None, c4) \<Rightarrow> (False, c4, st)
                       | (Some hash, c4) \<Rightarrow>
                           let path = string_of path_bytes;
                               probe = \<lparr>probe_session = session_hex cn, probe_peer = peer cn,
                                 probe_path = path, probe_type = type,
                                 probe_offset = read_u64_le sizes,
                                 probe_length = read_u64_le (drop 8 sizes),
                                 probe_file_size = read_u64_le (drop 16 sizes),
                                 probe_mtime = sint (read_u64_le (drop 24 sizes)),
                                 probe_hash = hash\<rparr>;
                               ok = conn_filter cn probe;
                               st1 = (if ok
                                 then st\<lparr>accepted := (accepted st)(key \<mapsto>
                                   \<lparr>acc_type = type, acc_path = path, acc_offset = probe_offset probe\<rparr>)\<rparr>
                                 else emit (UploadSkipped (session_hex cn) (peer cn) path type
                                   (probe_offset probe) (probe_length probe)) st);
                               reply = byte_of_decision (if ok then Accept else Reject) # write_u64_le key
                           in (True, c4, post reply st1))"

section \<open>\<open>handle_upload\<close>\<close>

text \<open>
  The head of a unit, from its type byte on: where it is to be written, or \<^const>\<open>None\<close> when the
  loop breaks.
\<close>

definition unit_head :: "'c reader \<Rightarrow> ('z, 'w) Conn \<Rightarrow> UnitType \<Rightarrow> 'c \<Rightarrow> ('z, 'w) Session \<Rightarrow>
    (UnitType \<times> string \<times> u64) option \<times> 'c \<times> ('z, 'w) Session" where
  "unit_head rd cn type c st =
     (let accept_mode = has_mode (conn_mode cn) ModeAccept in
      if type = Accepted then
        if \<not> accept_mode then (None, c, st)
        else (case rd c 8 of
                (None, c1) \<Rightarrow> (None, c1, st)
              | (Some key_bytes, c1) \<Rightarrow>
                  let key = read_u64_le key_bytes
                  in case accepted st key of
                       None \<Rightarrow> (None, c1, st)
                     | Some u \<Rightarrow> (Some (acc_type u, acc_path u, acc_offset u), c1,
                         st\<lparr>accepted := (accepted st)(key := None)\<rparr>))
      else if type = File \<or> type = Chunk then
        if accept_mode then (None, c, st)
        else (case rd c 2 of
                (None, c1) \<Rightarrow> (None, c1, st)
              | (Some len_bytes, c1) \<Rightarrow>
                  let path_len = read_u16_le len_bytes
                  in if path_len = 0 \<or> kMaxPathLength < path_len then (None, c1, st)
                     else case rd c1 (unat path_len) of
                            (None, c2) \<Rightarrow> (None, c2, st)
                          | (Some path_bytes, c2) \<Rightarrow>
                              if type = Chunk
                              then case rd c2 8 of
                                     (None, c3) \<Rightarrow> (None, c3, st)
                                   | (Some offset_bytes, c3) \<Rightarrow>
                                       (Some (type, string_of path_bytes, read_u64_le offset_bytes), c3, st)
                              else (Some (type, string_of path_bytes, 0), c2, st))
      else (None, c, st))"

text \<open>
  The block loop: it ends at the end marker of the unit (\<^const>\<open>None\<close> for no failure), or with
  the reason of a failure; it also gives the compressed bytes it has received.
\<close>

partial_function (option) receive_blocks ::
    "'c reader \<Rightarrow> ('z, 'w) Conn \<Rightarrow> 'c \<Rightarrow> 'z \<Rightarrow> UnitSink \<times> 'w \<Rightarrow> u64 \<Rightarrow>
      (string option \<times> 'c \<times> 'z \<times> (UnitSink \<times> 'w) \<times> u64) option" where
  "receive_blocks rd cn c z us unit_wire =
     (case rd c 1 of
        (None, c1) \<Rightarrow> Some (Some ''connection lost'', c1, z, us, unit_wire)
      | (Some type_byte, c1) \<Rightarrow>
          if block_of_byte (type_byte ! 0) = EndOfUnit then Some (None, c1, z, us, unit_wire)
          else if block_of_byte (type_byte ! 0) \<noteq> Data
          then Some (Some ''protocol error'', c1, z, us, unit_wire)
          else case rd c1 4 of
                 (None, c2) \<Rightarrow> Some (Some ''connection lost'', c2, z, us, unit_wire)
               | (Some len_bytes, c2) \<Rightarrow>
                   if read_u32_le len_bytes = 0 \<or> kMaxBlockSize < read_u32_le len_bytes
                   then Some (Some ''protocol error'', c2, z, us, unit_wire)
                   else case rd c2 (unat (read_u32_le len_bytes)) of
                          (None, c3) \<Rightarrow> Some (Some ''connection lost'', c3, z, us, unit_wire)
                        | (Some input, c3) \<Rightarrow>
                            case decompress (conn_algo cn) (conn_decode cn) (unit_write (conn_os cn)) z us input of
                              None \<Rightarrow> None
                            | Some (ok, z', us') \<Rightarrow>
                                if \<not> ok
                                then Some (Some ''decode error'', c3, z', us',
                                  unit_wire + ucast (read_u32_le len_bytes))
                                else receive_blocks rd cn c3 z' us'
                                  (unit_wire + ucast (read_u32_le len_bytes)))"

text \<open>The checksum behind a completely received unit.\<close>

definition check_unit :: "'c reader \<Rightarrow> ('z, 'w) Conn \<Rightarrow> 'c \<Rightarrow> UnitSink \<Rightarrow> string option \<Rightarrow>
    string option \<times> 'c" where
  "check_unit rd cn c us failure =
     (if failure = None \<and> integrity_checks cn
      then case rd c 8 of
             (None, c1) \<Rightarrow> (Some ''connection lost'', c1)
           | (Some checksum, c1) \<Rightarrow>
               (if read_u64_le checksum \<noteq> XXH64_digest (checksum_state us)
                then Some ''checksum mismatch'' else None, c1)
      else (failure, c))"

text \<open>The writers of a unit; only one of the two is opened.\<close>

definition open_unit :: "('z, 'w) Conn \<Rightarrow> UnitType \<Rightarrow> string \<Rightarrow> ('z, 'w) Session \<Rightarrow>
    (SequentialWriter \<times> OffsetWriter) option \<times> ('z, 'w) Session" where
  "open_unit cn type path st =
     (if type = File
      then let (sw, w) = open_sequential (conn_os cn) (world st) (sink st) path
           in (if seq_valid sw then Some (sw, \<lparr>off_file = None\<rparr>) else None, st\<lparr>world := w\<rparr>)
      else let (ow, w, sk) = open_offset (conn_os cn) (world st) (sink st) path
           in (if off_valid ow then Some (no_sequential, ow) else None, st\<lparr>world := w, sink := sk\<rparr>))"

definition new_unit_sink :: "('z, 'w) Conn \<Rightarrow> UnitType \<Rightarrow> u64 \<Rightarrow> SequentialWriter \<Rightarrow> OffsetWriter \<Rightarrow>
    UnitSink" where
  "new_unit_sink cn type base sw ow =
     \<lparr>is_chunk = (type = Chunk), sequential_writer = sw, offset_writer = ow, base_offset = base,
      running = 0, integrity = integrity_checks cn, checksum_state = XXH64_reset 0\<rparr>"

text \<open>One unit, from its head on; the first component says whether the upload loop goes on.\<close>

definition receive_unit :: "'c reader \<Rightarrow> ('z, 'w) Conn \<Rightarrow> UnitType \<Rightarrow> string \<Rightarrow> u64 \<Rightarrow> 'c \<Rightarrow>
    ('z, 'w) Session \<Rightarrow> (bool \<times> 'c \<times> ('z, 'w) Session) option" where
  "receive_unit rd cn type path base c st =
     (let finished = (\<lambda>wire bytes ok reason. UploadFinished (session_hex cn) (peer cn) path type base
            wire bytes ok reason);
          st1 = emit (UploadStarted (session_hex cn) (peer cn) path type base) st
      in case open_unit cn type path st1 of
           (None, st2) \<Rightarrow> Some (False, c, emit (finished 0 0 False ''rejected'') st2)
         | (Some (sw, ow), st2) \<Rightarrow>
             case receive_blocks rd cn c (decoder_ctx st2) (new_unit_sink cn type base sw ow, world st2) 0 of
               None \<Rightarrow> None
             | Some (failure, c1, z, (us, w), wire) \<Rightarrow>
                 (case check_unit rd cn c1 us failure of
                    (failure', c2) \<Rightarrow>
                      let w' = (if type = File then fst (seq_close (conn_os cn) w (sequential_writer us)) else w);
                          st3 = st2\<lparr>world := w', decoder_ctx := z\<rparr>
                      in case failure' of
                           Some reason \<Rightarrow>
                             Some (False, c2, emit (finished wire (running us) False reason) st3)
                         | None \<Rightarrow>
                             Some (True, c2, emit (finished wire (running us) True [])
                               (st3\<lparr>units_done := units_done st3 + 1,
                                    bytes_total := bytes_total st3 + running us\<rparr>))))"

text \<open>One turn of the upload loop; the first component says whether it goes on.\<close>

definition upload_step :: "'c reader \<Rightarrow> ('z, 'w) Conn \<Rightarrow> 'c \<Rightarrow> ('z, 'w) Session \<Rightarrow>
    (bool \<times> 'c \<times> ('z, 'w) Session) option" where
  "upload_step rd cn c st =
     (case rd c 1 of
        (None, c1) \<Rightarrow> Some (False, c1, st)
      | (Some type_byte, c1) \<Rightarrow>
          let type = unit_of_byte (type_byte ! 0) in
          if type = End then Some (False, c1, st)
          else if type = Probe then
            (if \<not> has_mode (conn_mode cn) ModeAccept then Some (False, c1, st)
             else Some (handle_probe rd cn c1 st))
          else case unit_head rd cn type c1 st of
                 (where_to, c2, st2) \<Rightarrow>
                   case where_to of
                     None \<Rightarrow> Some (False, c2, st2)
                   | Some (utype, path, base) \<Rightarrow> receive_unit rd cn utype path base c2 st2)"

partial_function (option) handle_upload :: "'c reader \<Rightarrow> ('z, 'w) Conn \<Rightarrow> 'c \<Rightarrow> ('z, 'w) Session \<Rightarrow>
    ('c \<times> ('z, 'w) Session) option" where
  "handle_upload rd cn c st =
     (case upload_step rd cn c st of
        None \<Rightarrow> None
      | Some (continue, c', st') \<Rightarrow> if continue then handle_upload rd cn c' st' else Some (c', st'))"

definition consumer_main :: "'c reader \<Rightarrow> ('z, 'w) Conn \<Rightarrow> 'c \<Rightarrow> ('z, 'w) Session \<Rightarrow>
    ('c \<times> ('z, 'w) Session) option" where
  "consumer_main rd cn c st =
     (case rd c 1 of
        (None, c1) \<Rightarrow> Some (c1, st)
      | (Some cmd, c1) \<Rightarrow> if cmd ! 0 = Cmd_Upload then handle_upload rd cn c1 st else Some (c1, st))"

section \<open>The consumer on any byte source\<close>

lemma upload_step_continues: "upload_step list_read cn bs st = Some (True, c, st') \<Longrightarrow> bs \<noteq> []"
  by (auto simp: upload_step_def list_read_def)

context byte_source
begin

text \<open>
  Reading functions in step with their run on the list of bytes to come: related results differ
  only in the source, which holds at most \<open>n\<close> bytes.
\<close>

definition sim :: "nat \<Rightarrow> 'a \<times> 'c \<times> 'b \<Rightarrow> 'a \<times> bytes \<times> 'b \<Rightarrow> bool" where
  "sim n p q \<longleftrightarrow> q = (fst p, stream (fst (snd p)), snd (snd p)) \<and> inv (fst (snd p))
     \<and> length (stream (fst (snd p))) \<le> n"

lemma simI: "inv c \<Longrightarrow> length (stream c) \<le> n \<Longrightarrow> sim n (a, c, b) (a, stream c, b)"
  by (simp add: sim_def)

lemma sim_mono: "sim m p q \<Longrightarrow> m \<le> n \<Longrightarrow> sim n p q"
  by (auto simp: sim_def)

lemma sim_read:
  assumes "inv c" and "\<And>c1. inv c1 \<Longrightarrow> stream c1 = [] \<Longrightarrow> R (fail c1) (fail' (stream c1))"
    and "\<And>x c1. inv c1 \<Longrightarrow> length (stream c) = n + length (stream c1) \<Longrightarrow> R (ok x c1) (ok' x (stream c1))"
  shows "R (case rd c n of (None, c1) \<Rightarrow> fail c1 | (Some x, c1) \<Rightarrow> ok x c1)
     (case list_read (stream c) n of (None, c1) \<Rightarrow> fail' c1 | (Some x, c1) \<Rightarrow> ok' x c1)"
  using assms(1)
proof (cases rule: read_cases [where n = n])
  case (more c')
  then show ?thesis
    using assms(3) [of c'] by (simp add: list_read_def)
next
  case (eof c')
  then show ?thesis
    using assms(2) [of c'] by (simp add: list_read_def)
qed

lemma sim_read_if:
  assumes "inv c" and "\<And>c1. inv c1 \<Longrightarrow> stream c1 = [] \<Longrightarrow> R (fail c1) (fail' (stream c1))"
    and "\<And>x c1. inv c1 \<Longrightarrow> length (stream c1) \<le> length (stream c) \<Longrightarrow> R (ok x c1) (ok' x (stream c1))"
  shows "R (case (if b then rd c n else (Some v, c)) of (None, c1) \<Rightarrow> fail c1 | (Some x, c1) \<Rightarrow> ok x c1)
     (case (if b then list_read (stream c) n else (Some v, stream c)) of
        (None, c1) \<Rightarrow> fail' c1 | (Some x, c1) \<Rightarrow> ok' x c1)"
  using assms sim_read [of c R fail fail' n ok ok'] by (cases b) simp_all

lemma sim_if: "(b \<Longrightarrow> R x x') \<Longrightarrow> (\<not> b \<Longrightarrow> R y y') \<Longrightarrow> R (if b then x else y) (if b then x' else y')"
  by simp

lemma sim_option: "(v = None \<Longrightarrow> R x x') \<Longrightarrow> (\<And>u. v = Some u \<Longrightarrow> R (y u) (y' u)) \<Longrightarrow>
    R (case v of None \<Rightarrow> x | Some u \<Rightarrow> y u) (case v of None \<Rightarrow> x' | Some u \<Rightarrow> y' u)"
  by (cases v) auto

lemma sim_pair: "(\<And>a b. p = (a, b) \<Longrightarrow> R (f a b) (f' a b)) \<Longrightarrow>
    R (case p of (a, b) \<Rightarrow> f a b) (case p of (a, b) \<Rightarrow> f' a b)"
  by (cases p) auto

text \<open>Going on after a reading function that is itself in step.\<close>

lemma sim_bind:
  "sim m p q \<Longrightarrow> (\<And>a c b. inv c \<Longrightarrow> length (stream c) \<le> m \<Longrightarrow> R (f a c b) (f' a (stream c) b)) \<Longrightarrow>
    R (case p of (a, c, b) \<Rightarrow> f a c b) (case q of (a, s, b) \<Rightarrow> f' a s b)"
  by (cases p) (auto simp: sim_def)

lemma sim_bind_option:
  "rel_option (sim m) p q \<Longrightarrow>
    (\<And>a c b. inv c \<Longrightarrow> length (stream c) \<le> m \<Longrightarrow> rel_option R (f (a, c, b)) (f' (a, stream c, b))) \<Longrightarrow>
    rel_option R (case p of None \<Rightarrow> None | Some r \<Rightarrow> f r) (case q of None \<Rightarrow> None | Some r \<Rightarrow> f' r)"
  by (cases p; cases q) (auto simp: sim_def)

lemmas sim_intros = sim_read [where R = "sim n"] sim_read_if [where R = "sim n"] sim_if [where R = "sim n"]
  sim_option [where R = "sim n"] simI for n

lemmas sim_option_intros = sim_read [where R = "rel_option (sim n)"] sim_if [where R = "rel_option (sim n)"]
  sim_option [where R = "rel_option (sim n)"] sim_pair [where R = "rel_option (sim n)"] option.rel_intros simI for n

lemma handle_probe_sim:
  "inv c \<Longrightarrow> sim (length (stream c)) (handle_probe rd cn c st) (handle_probe list_read cn (stream c) st)"
  unfolding handle_probe_def Let_def
  by (intro sim_intros; (assumption | simp))

lemma unit_head_sim:
  "inv c \<Longrightarrow> sim (length (stream c)) (unit_head rd cn type c st) (unit_head list_read cn type (stream c) st)"
  unfolding unit_head_def Let_def
  by (intro sim_intros; (assumption | simp))

lemma receive_blocks_sim:
  "inv c \<Longrightarrow> length (stream c) \<le> n \<Longrightarrow>
    rel_option (sim n) (receive_blocks rd cn c z us wire) (receive_blocks list_read cn (stream c) z us wire)"
proof (induction "length (stream c)" arbitrary: c z us wire rule: less_induct)
  case less
  show ?case
    by (subst (1 2) receive_blocks.simps)
      (use less.prems in \<open>intro sim_option_intros; assumption?\<close>, simp_all add: less.hyps)
qed

lemma check_unit_sim:
  assumes "inv c"
  shows "snd (check_unit list_read cn (stream c) us f) = stream (snd (check_unit rd cn c us f)) \<and>
    fst (check_unit list_read cn (stream c) us f) = fst (check_unit rd cn c us f) \<and>
    inv (snd (check_unit rd cn c us f)) \<and>
    length (stream (snd (check_unit rd cn c us f))) \<le> length (stream c)"
  unfolding check_unit_def
  by (rule sim_if [where R = "\<lambda>p q. snd q = stream (snd p) \<and> fst q = fst p \<and> inv (snd p) \<and>
        length (stream (snd p)) \<le> length (stream c)"])
    (rule sim_read [where R = "\<lambda>p q. snd q = stream (snd p) \<and> fst q = fst p \<and> inv (snd p) \<and>
        length (stream (snd p)) \<le> length (stream c)"], use assms in simp_all)

lemma receive_unit_sim:
  assumes "inv c"
  shows "rel_option (sim (length (stream c))) (receive_unit rd cn t p b c st)
    (receive_unit list_read cn t p b (stream c) st)"
proof -
  let ?st = "emit (UploadStarted (session_hex cn) (peer cn) p t b) st"
  obtain ws st2 where op: "open_unit cn t p ?st = (ws, st2)"
    by fastforce
  show ?thesis
  proof (cases ws)
    case None
    with op assms show ?thesis
      by (simp add: receive_unit_def simI)
  next
    case (Some sow)
    obtain sw ow where sow: "sow = (sw, ow)"
      by fastforce
    let ?us = "(new_unit_sink cn t b sw ow, world st2)"
    note blocks = receive_blocks_sim [OF assms order_refl, of cn "decoder_ctx st2" ?us 0]
    show ?thesis
      unfolding receive_unit_def Let_def op Some sow option.case prod.case
      apply (rule sim_bind_option [OF blocks])
      subgoal for f c1 rest
        using check_unit_sim [of c1 cn "fst (fst (snd rest))" f]
        apply (cases rest; cases "fst (snd rest)"; cases "snd rest")
        apply (cases "check_unit rd cn c1 (fst (fst (snd rest))) f"; cases "check_unit list_read cn (stream c1) (fst (fst (snd rest))) f")
        apply (auto simp: simI split: option.splits)
        done
      done
  qed
qed

lemma simE:
  assumes "sim n p q"
  obtains a c b where "p = (a, c, b)" "q = (a, stream c, b)" "inv c" "length (stream c) \<le> n"
  using assms by (cases p) (auto simp: sim_def)

lemma rel_sim_mono: "rel_option (sim m) p q \<Longrightarrow> m \<le> n \<Longrightarrow> rel_option (sim n) p q"
  by (cases p; cases q) (auto intro: sim_mono)

text \<open>A turn of the loop uses up at least one byte, if there is one.\<close>

lemma upload_step_sim:
  assumes "inv c"
  shows "rel_option (sim (length (stream c) - 1)) (upload_step rd cn c st) (upload_step list_read cn (stream c) st)"
proof -
  have head: "rel_option (sim n)
      (case unit_head rd cn t c1 st of (where_to, c2, st2) \<Rightarrow>
         case where_to of None \<Rightarrow> Some (False, c2, st2)
         | Some (utype, path, base) \<Rightarrow> receive_unit rd cn utype path base c2 st2)
      (case unit_head list_read cn t (stream c1) st of (where_to, c2, st2) \<Rightarrow>
         case where_to of None \<Rightarrow> Some (False, c2, st2)
         | Some (utype, path, base) \<Rightarrow> receive_unit list_read cn utype path base c2 st2)"
    if "inv c1" "length (stream c1) \<le> n" for t c1 n
    using unit_head_sim [OF that(1), of cn t st] that(2)
    by (auto elim!: simE split: option.split intro!: simI rel_sim_mono [OF receive_unit_sim])
  show ?thesis
    unfolding upload_step_def Let_def using assms
    by (intro sim_read [where R = "rel_option (sim n)" for n] sim_if [where R = "rel_option (sim n)" for n]
        option.rel_intros(2) simI sim_mono [OF handle_probe_sim] head; simp)
qed

definition sim_end :: "'c \<times> 'b \<Rightarrow> bytes \<times> 'b \<Rightarrow> bool" where
  "sim_end p q \<longleftrightarrow> q = (stream (fst p), snd p) \<and> inv (fst p)"

lemma sim_endI: "inv c \<Longrightarrow> sim_end (c, b) (stream c, b)"
  by (simp add: sim_end_def)

lemma handle_upload_sim:
  "inv c \<Longrightarrow> rel_option sim_end (handle_upload rd cn c st) (handle_upload list_read cn (stream c) st)"
proof (induction "length (stream c)" arbitrary: c st rule: less_induct)
  case less
  show ?case
  proof (cases "upload_step rd cn c st")
    case None
    with upload_step_sim [OF less.prems, of cn st] show ?thesis
      by (simp add: handle_upload.simps [of rd] handle_upload.simps [of list_read])
  next
    case (Some r)
    obtain k c' st' where r: "r = (k, c', st')" "upload_step list_read cn (stream c) st = Some (k, stream c', st')"
        "inv c'" "length (stream c') \<le> length (stream c) - 1"
      using upload_step_sim [OF less.prems, of cn st] Some
      by (cases "upload_step list_read cn (stream c) st") (auto elim: simE)
    moreover have "k \<Longrightarrow> rel_option sim_end (handle_upload rd cn c' st') (handle_upload list_read cn (stream c') st')"
      using r upload_step_continues [of cn "stream c" st]
      by (intro less.hyps) (auto simp: Suc_le_eq dest: le_less_trans)
    ultimately show ?thesis
      using Some by (simp add: handle_upload.simps [of rd c for c] handle_upload.simps [of list_read] sim_endI)
  qed
qed

lemma consumer_main_sim:
  "inv c \<Longrightarrow> rel_option sim_end (consumer_main rd cn c st) (consumer_main list_read cn (stream c) st)"
  unfolding consumer_main_def
  by (intro sim_read [where R = "rel_option sim_end"] sim_if [where R = "rel_option sim_end"]
      option.rel_intros sim_endI handle_upload_sim; assumption)

end

section \<open>The consumer ends\<close>

lemma receive_blocks_returns:
  assumes "decoder_progress (conn_decode cn) pot" and "conn_algo cn = Zstd \<or> conn_algo cn = Lz4"
  shows "receive_blocks list_read cn bs z us wire \<noteq> None"
proof (induction "length bs" arbitrary: bs z us wire rule: less_induct)
  case less
  have "(case decompress (conn_algo cn) (conn_decode cn) (unit_write (conn_os cn)) z us input of
      None \<Rightarrow> None
    | Some (ok, z', us') \<Rightarrow> if \<not> ok then Some (x z' us') else receive_blocks list_read cn bs' z' us' w') \<noteq> None"
    if "length bs' < length bs" for input bs' w' x
  proof -
    obtain ok z' us' where
      "decompress (conn_algo cn) (conn_decode cn) (unit_write (conn_os cn)) z us input = Some (ok, z', us')"
      using decompress_returns [OF assms] by (metis prod_cases3)
    then show ?thesis
      using less [OF that, of z' us' w'] by (simp del: not_None_eq)
  qed
  then show ?case
    by (subst receive_blocks.simps)
      (auto simp: list_read_Some split: prod.split option.split)
qed

lemma receive_unit_returns:
  assumes "decoder_progress (conn_decode cn) pot" and "conn_algo cn = Zstd \<or> conn_algo cn = Lz4"
  shows "receive_unit list_read cn t p b bs st \<noteq> None"
proof -
  obtain ws st2 where op: "open_unit cn t p (emit (UploadStarted (session_hex cn) (peer cn) p t b) st) = (ws, st2)"
    by fastforce
  have "\<exists>f c1 z us w wire. receive_blocks list_read cn bs (decoder_ctx st2) s 0 = Some (f, c1, z, (us, w), wire)" for s
    using receive_blocks_returns [OF assms, of bs "decoder_ctx st2" s 0] by auto
  then show ?thesis
    using op
    by (cases ws) (auto simp: receive_unit_def Let_def split: prod.split option.split, metis option.distinct(1))
qed

lemma upload_step_returns:
  assumes "decoder_progress (conn_decode cn) pot" and "conn_algo cn = Zstd \<or> conn_algo cn = Lz4"
  shows "upload_step list_read cn bs st \<noteq> None"
  using receive_unit_returns [OF assms]
  by (simp add: upload_step_def Let_def del: not_None_eq split: prod.split option.split)

lemma handle_upload_returns:
  assumes "decoder_progress (conn_decode cn) pot" and "conn_algo cn = Zstd \<or> conn_algo cn = Lz4"
  shows "handle_upload list_read cn bs st \<noteq> None"
proof (induction "length bs" arbitrary: bs st rule: less_induct)
  case less
  obtain k c' st' where step: "upload_step list_read cn bs st = Some (k, c', st')"
    using upload_step_returns [OF assms] by (metis not_None_eq prod_cases3)
  then have "length c' \<le> length bs - 1"
    using list_source.upload_step_sim [of bs cn st] by (auto elim: list_source.simE)
  moreover have "k \<Longrightarrow> bs \<noteq> []"
    using step upload_step_continues [of cn bs st c' st'] by simp
  ultimately have "k \<Longrightarrow> handle_upload list_read cn c' st' \<noteq> None"
    by (intro less) (auto simp: Suc_le_eq dest: le_less_trans)
  with step show ?case
    by (subst handle_upload.simps) (simp del: not_None_eq)
qed

lemma consumer_main_returns:
  assumes "decoder_progress (conn_decode cn) pot" and "conn_algo cn = Zstd \<or> conn_algo cn = Lz4"
  shows "consumer_main list_read cn bs st \<noteq> None"
  using handle_upload_returns [OF assms]
  by (auto simp: consumer_main_def split: prod.split option.split)

end
