(* ===== verification/Server_Upload.thy ===== *)
theory Server_Upload
  imports Server_Consumer
begin

text \<open>
  Properties of the consumer thread of \<open>Server_Consumer\<close>, run on the connection's channel: it
  ends, its effects depend on the bytes of the stream only, a unit is reported complete only if
  what was stored matches the uploader's checksum, and in accept mode nothing is stored
  that the server's filter has not accepted.
\<close>

section \<open>Invariants of the upload loop\<close>

lemma handle_upload_invariant:
  assumes "handle_upload list_read cn bs st = Some (bs', st')" and "I st"
    and "\<And>bs st k bs' st'. upload_step list_read cn bs st = Some (k, bs', st') \<Longrightarrow> I st \<Longrightarrow> I st'"
  shows "I st'"
  using assms(1,2)
proof (induction "length bs" arbitrary: bs st rule: less_induct)
  case less
  obtain k c1 st1 where step: "upload_step list_read cn bs st = Some (k, c1, st1)"
    using less.prems(1) by (subst (asm) handle_upload.simps) (auto split: option.splits)
  have "I st1"
    using assms(3) [OF step] less.prems(2) .
  show ?case
  proof (cases k)
    case True
    have "length c1 \<le> length bs - 1" "bs \<noteq> []"
      using step True list_source.upload_step_sim [of bs cn st] upload_step_continues [of cn bs st c1 st1]
      by (auto elim: list_source.simE)
    then have "length c1 < length bs"
      by (simp add: Suc_le_eq le_less_trans)
    then show ?thesis
      using less.hyps [of c1 st1] less.prems(1) step True \<open>I st1\<close>
      by (simp add: handle_upload.simps [of list_read cn bs])
  next
    case False
    then show ?thesis
      using less.prems(1) step \<open>I st1\<close> by (simp add: handle_upload.simps [of list_read cn bs])
  qed
qed

lemma consumer_main_invariant:
  assumes "consumer_main list_read cn bs st = Some (bs', st')" and "I st"
    and "\<And>bs st k bs' st'. upload_step list_read cn bs st = Some (k, bs', st') \<Longrightarrow> I st \<Longrightarrow> I st'"
  shows "I st'"
  using assms(1,2) handle_upload_invariant [of cn "snd (list_read bs 1)" st bs' st' I, OF _ _ assms(3)]
  by (auto simp: consumer_main_def split: prod.splits option.splits if_splits)

text \<open>What a turn does besides reading: it answers a probe, or it receives a unit that its head names.\<close>

lemma upload_step_cases:
  assumes "upload_step list_read cn bs st = Some (k, bs', st')"
  obtains (idle) "st' = st"
    | (probe) bs1 where "has_mode (conn_mode cn) ModeAccept" "handle_probe list_read cn bs1 st = (k, bs', st')"
    | (head) t bs1 where "unit_head list_read cn t bs1 st = (None, bs', st')"
    | (unit) t bs1 bs2 st2 utype path base where
        "unit_head list_read cn t bs1 st = (Some (utype, path, base), bs2, st2)"
        "receive_unit list_read cn utype path base bs2 st2 = Some (k, bs', st')"
  using assms
  by (auto simp: upload_step_def Let_def split: prod.splits option.splits if_splits)

lemma receive_unit_events:
  assumes "receive_unit rd cn t p b c st = Some (k, c', st')"
  shows "accepted st' = accepted st \<and> outbox st' = outbox st \<and> session_root (sink st') = session_root (sink st) \<and>
    (\<exists>wire n reason. events st' = events st @ [UploadStarted (session_hex cn) (peer cn) p t b,
       UploadFinished (session_hex cn) (peer cn) p t b wire n k reason])"
  using assms
  by (auto simp: receive_unit_def Let_def open_unit_def emit_def open_offset_def acquire_chunk_file_def
      split: prod.splits option.splits if_splits)

lemma receive_blocks_writes:
  assumes "receive_blocks rd cn c z us wire = Some res" and "P us" and "fst res = None"
    and wr: "\<And>us out us'. P us \<Longrightarrow> unit_write (conn_os cn) us out = (True, us') \<Longrightarrow> P us'"
  shows "P (fst (snd (snd (snd res))))"
proof -
  have "cn = cn \<longrightarrow> P us \<longrightarrow> fst res = None \<longrightarrow> P (fst (snd (snd (snd res))))"
    by (rule receive_blocks.raw_induct [where
          P = "\<lambda>rd cn' c z us wire res. cn' = cn \<longrightarrow> P us \<longrightarrow> fst res = None \<longrightarrow> P (fst (snd (snd (snd res))))",
          OF _ assms(1)])
      (auto split: if_splits option.splits prod.splits dest: decompress_writes [where P = P, OF _ _ wr])
  then show ?thesis
    using assms(2,3) by simp
qed

lemma receive_blocks_suffix:
  assumes "receive_blocks list_read cn bs z us wire = Some res"
  shows "\<exists>n. fst (snd res) = drop n bs"
proof -
  have "list_read = list_read \<longrightarrow> (\<exists>n. fst (snd res) = drop n bs)"
    by (rule receive_blocks.raw_induct [where
          P = "\<lambda>rd cn c z us wire res. rd = list_read \<longrightarrow> (\<exists>n. fst (snd res) = drop n c)", OF _ assms])
      (auto simp: list_read_def split: if_splits option.splits prod.splits, fastforce)
  then show ?thesis
    by simp
qed

section \<open>What \<open>ok\<close> means\<close>

text \<open>
  While a file is received, what has been hashed is what has been written.
\<close>

definition receiving :: "('w \<Rightarrow> int \<Rightarrow> string option) \<Rightarrow> ('w \<Rightarrow> string \<Rightarrow> bytes) \<Rightarrow> string \<Rightarrow>
    UnitSink \<times> 'w \<Rightarrow> bool" where
  "receiving file content p sw \<longleftrightarrow>
     (let (us, w) = sw in
      \<not> is_chunk us \<and> integrity us \<and> file w (seq_fd (sequential_writer us)) = Some p \<and>
      seq_offset (sequential_writer us) = int (length (content w p)) \<and>
      (\<exists>outs. concat outs = content w p \<and>
         checksum_state us = foldl XXH64_update (XXH64_reset 0) outs))"

lemma receiving_write:
  assumes "fs_writes fs file content" and "receiving file content p sw"
    and "unit_write fs sw out = (True, sw')"
  shows "receiving file content p sw'"
proof -
  obtain us w us' w' where sw: "sw = (us, w)" "sw' = (us', w')"
    by fastforce
  from assms(2) obtain outs where us: "\<not> is_chunk us" "integrity us"
      "file w (seq_fd (sequential_writer us)) = Some p"
      "seq_offset (sequential_writer us) = int (length (content w p))"
      "concat outs = content w p" "checksum_state us = foldl XXH64_update (XXH64_reset 0) outs"
    by (auto simp: receiving_def sw)
  obtain sq where seq: "seq_write fs w (sequential_writer us) out = (True, w', sq)"
    and us': "us' = us\<lparr>checksum_state := XXH64_update (checksum_state us) out,
      sequential_writer := sq, running := running us + of_nat (length out)\<rparr>"
    using assms(3) us(1,2) by (auto simp: unit_write_def sw split: prod.splits)
  have "concat (outs @ [out]) = content w p @ out"
    "XXH64_update (checksum_state us) out = foldl XXH64_update (XXH64_reset 0) (outs @ [out])"
    using us(5,6) by simp_all
  moreover note seq_write_appends [OF assms(1) us(3,4) seq]
  ultimately show ?thesis
    using us(1,2,3) unfolding receiving_def sw us' by (auto intro!: exI [of _ "outs @ [out]"])
qed

lemma open_sequential_opens:
  assumes "posix_fs fs file content" and "open_sequential fs w sk path = (sw, w')" and "seq_valid sw"
  shows "\<exists>full. resolve_safe_path (session_root sk) path = Some full \<and>
    file w' (seq_fd sw) = Some (c_str full) \<and> content w' = (content w)(c_str full := []) \<and> seq_offset sw = 0"
proof -
  obtain full where full: "resolve_safe_path (session_root sk) path = Some full"
    using assms(2,3) by (auto simp: open_sequential_def seq_valid_def no_sequential_def split: option.splits)
  obtain ok w1 where dir: "ensure_parent_directory fs w full = (ok, w1)"
    by fastforce
  then have w1: "file w1 = file w" "content w1 = content w"
    using assms(1) by (auto simp: ensure_parent_directory_def posix_fs_def fs_others_def Let_def
        split: if_splits prod.splits)
  obtain fd w2 where op: "uv_fs_open fs w1 (c_str full) WriteCreateTrunc = (fd, w2)"
    by fastforce
  have "sw = \<lparr>seq_fd = fd, seq_offset = 0\<rparr>" "w' = w2" "0 \<le> fd"
    using assms(2,3) full dir op
    by (auto simp: open_sequential_def seq_valid_def no_sequential_def split: if_splits)
  moreover from this op have "file w2 = (file w1)(fd \<mapsto> c_str full)" "content w2 = (content w1)(c_str full := [])"
    using assms(1) unfolding posix_fs_def fs_opens_def by (metis (full_types))+
  ultimately show ?thesis
    using full w1 by simp
qed

lemma receive_file_checksum:
  assumes fs: "posix_fs (conn_os cn) file content" and int: "integrity_checks cn"
    and run: "receive_unit list_read cn File path base bs st = Some (True, bs', st')"
  shows "\<exists>full pre outs. resolve_safe_path (session_root (sink st)) path = Some full \<and>
    content (world st') (c_str full) = concat outs \<and>
    bs = pre @ write_u64_le (XXH64_digest (foldl XXH64_update (XXH64_reset 0) outs)) @ bs'"
proof -
  let ?st1 = "emit (UploadStarted (session_hex cn) (peer cn) path File base) st"
  obtain sw w1 where op: "open_sequential (conn_os cn) (world st) (sink st) path = (sw, w1)"
    by fastforce
  have valid: "seq_valid sw"
    using run op by (auto simp: receive_unit_def open_unit_def emit_def Let_def split: if_splits)
  let ?us = "(new_unit_sink cn File base sw \<lparr>off_file = None\<rparr>, w1)"
  obtain f c1 z us w wire where rb: "receive_blocks list_read cn bs (decoder_ctx st) ?us 0 = Some (f, c1, z, (us, w), wire)"
    and ck: "check_unit list_read cn c1 us f = (None, bs')"
    and st': "world st' = fst (seq_close (conn_os cn) w (sequential_writer us))"
    using run op valid
    by (auto simp: receive_unit_def open_unit_def emit_def Let_def split: option.splits prod.splits)
  from open_sequential_opens [OF fs op valid] obtain full where full:
      "resolve_safe_path (session_root (sink st)) path = Some full"
      "file w1 (seq_fd sw) = Some (c_str full)" "content w1 (c_str full) = []" "seq_offset sw = 0"
    by auto
  have f: "f = None"
    using ck by (auto simp: check_unit_def split: if_splits)
  have "receiving file content (c_str full) ?us"
    using full int by (auto simp: receiving_def new_unit_sink_def intro!: exI [of _ "[]"])
  then have "receiving file content (c_str full) (us, w)"
    using receive_blocks_writes [where P = "receiving file content (c_str full)", OF rb] fs f
    by (auto simp: posix_fs_def intro: receiving_write)
  then obtain outs where outs: "concat outs = content w (c_str full)"
      "checksum_state us = foldl XXH64_update (XXH64_reset 0) outs"
    by (auto simp: receiving_def)
  have "content (world st') = content w"
    using fs by (auto simp: st' seq_close_def posix_fs_def fs_others_def)
  moreover from receive_blocks_suffix [OF rb] obtain n where n: "c1 = drop n bs"
    by auto
  have "c1 = write_u64_le (XXH64_digest (checksum_state us)) @ bs'"
    using ck f int u64_field.enc_dec [of "take 8 c1"]
    by (auto simp: check_unit_def list_read_def split: if_splits)
  then have "bs = take n bs @ write_u64_le (XXH64_digest (checksum_state us)) @ bs'"
    using n by (metis append_take_drop_id)
  ultimately show ?thesis
    using full(1) outs by metis
qed

section \<open>Accept mode\<close>

definition permitted :: "('z, 'w) Conn \<Rightarrow> UnitType \<Rightarrow> string \<Rightarrow> u64 \<Rightarrow> bool" where
  "permitted cn t path off \<longleftrightarrow>
     (\<exists>probe. conn_filter cn probe \<and> probe_type probe = t \<and> probe_path probe = path \<and>
        probe_offset probe = off \<and> probe_session probe = session_hex cn \<and> probe_peer probe = peer cn)"

definition event_permitted :: "('z, 'w) Conn \<Rightarrow> server_event \<Rightarrow> bool" where
  "event_permitted cn e =
     (case e of
        UploadStarted session pr path t off \<Rightarrow> permitted cn t path off
      | UploadFinished session pr path t off wire n ok reason \<Rightarrow> permitted cn t path off
      | _ \<Rightarrow> True)"

definition filtered :: "('z, 'w) Conn \<Rightarrow> ('z, 'w) Session \<Rightarrow> bool" where
  "filtered cn st \<longleftrightarrow>
     (\<forall>key u. accepted st key = Some u \<longrightarrow> permitted cn (acc_type u) (acc_path u) (acc_offset u)) \<and>
     list_all (event_permitted cn) (events st)"

lemma permitted_probe:
  "conn_filter cn \<lparr>probe_session = session_hex cn, probe_peer = peer cn, probe_path = path, probe_type = t,
     probe_offset = off, probe_length = n, probe_file_size = fsize, probe_mtime = m, probe_hash = h\<rparr> \<Longrightarrow>
   permitted cn t path off"
  unfolding permitted_def by (rule exI, intro conjI, assumption) simp_all

lemma filtered_probe:
  assumes "handle_probe rd cn c st = (k, c', st')" and "filtered cn st"
  shows "filtered cn st'"
  using assms
  by (auto simp: handle_probe_def Let_def filtered_def emit_def post_def event_permitted_def
      split: prod.splits option.splits if_splits dest!: permitted_probe)

lemma filtered_head:
  assumes "unit_head rd cn t c st = (u, c', st')" and "filtered cn st" and "has_mode (conn_mode cn) ModeAccept"
  shows "filtered cn st' \<and> (\<forall>t p b. u = Some (t, p, b) \<longrightarrow> permitted cn t p b)"
  using assms
  by (auto simp: unit_head_def Let_def filtered_def split: prod.splits option.splits if_splits)

lemma filtered_unit:
  assumes "receive_unit rd cn t p b c st = Some (k, c', st')" and "filtered cn st" and "permitted cn t p b"
  shows "filtered cn st'"
  using receive_unit_events [OF assms(1)] assms(2,3)
  by (auto simp: filtered_def event_permitted_def)

lemma filtered_step:
  assumes "upload_step list_read cn bs st = Some (k, bs', st')" and "has_mode (conn_mode cn) ModeAccept"
    and "filtered cn st"
  shows "filtered cn st'"
  using assms(1)
proof (cases rule: upload_step_cases)
  case (unit t bs1 bs2 st2 utype path base)
  with filtered_head [OF unit(1) assms(3,2)] show ?thesis
    by (auto intro: filtered_unit)
next
  case (probe bs1)
  then show ?thesis
    using assms(3) by (auto intro: filtered_probe)
next
  case (head t bs1)
  show ?thesis
    using filtered_head [OF head assms(3,2)] by simp
qed (use assms(3) in simp)

section \<open>Sample connection\<close>

text \<open>
  A connection that uploads one three-byte file through the copying decoder into the file system
  in memory, for the witnesses below.
\<close>

definition sample_conn :: "(unit, MemFs) Conn" where
  "sample_conn = \<lparr>conn_os = mem_os, conn_decode = copy_step, conn_algo = Zstd, conn_filter = (\<lambda>_. True),
     conn_mode = 0, integrity_checks = True, session_hex = ''5e'', peer = ''1.2.3.4:5''\<rparr>"

definition sample_session :: "(unit, MemFs) Session" where
  "sample_session = \<lparr>world = mem_new, sink = \<lparr>session_root = ''up/5e'', chunk_files = []\<rparr>,
     decoder_ctx = (), accepted = Map.empty, outbox = [], units_done = 0, bytes_total = 0, events = []\<rparr>"

definition sample_blocks :: bytes where
  "sample_blocks = [1] @ write_u32_le 3 @ [7, 8, 9] @ [0] @ write_u64_le (XXH64 [7, 8, 9] 0)"

definition sample_stored :: "(unit, MemFs) Session" where
  "sample_stored = the (map_option (snd \<circ> snd)
     (receive_unit list_read sample_conn File ''a/f'' 0 sample_blocks sample_session))"

lemma sample_resolve: "resolve_safe_path ''up/5e'' ''a/f'' = Some ''up/5e/a/f''"
  by code_simp

lemma sample_open:
  "open_unit sample_conn File ''a/f'' (emit e sample_session) =
    (Some (\<lparr>seq_fd = 0, seq_offset = 0\<rparr>, \<lparr>off_file = None\<rparr>),
     (emit e sample_session)\<lparr>world := \<lparr>mem_content = \<lambda>p. [], mem_open = [Some ''up/5e/a/f'']\<rparr>\<rparr>)"
  by (simp add: open_unit_def sample_conn_def sample_session_def emit_def open_sequential_def sample_resolve
      ensure_parent_directory_def mem_os_def c_str_def mem_new_def seq_valid_def Let_def fun_eq_iff)

lemma sample_write:
  "seq_write mem_os \<lparr>mem_content = \<lambda>p. [], mem_open = [Some ''up/5e/a/f'']\<rparr> \<lparr>seq_fd = 0, seq_offset = 0\<rparr> [7, 8, 9] =
    (True, \<lparr>mem_content = (\<lambda>p. [])(''up/5e/a/f'' := [7, 8, 9]), mem_open = [Some ''up/5e/a/f'']\<rparr>,
     \<lparr>seq_fd = 0, seq_offset = 3\<rparr>)"
  by (simp add: seq_write_def write_fd_all_def write_loop.simps mem_os_def mem_file_def kMaxSingleWrite_def
      overwrite_def Let_def)

lemma sample_unit_runs:
  "\<exists>st'. receive_unit list_read sample_conn File ''a/f'' 0 sample_blocks sample_session = Some (True, [], st')
     \<and> mem_content (world st') ''up/5e/a/f'' = [7, 8, 9]"
proof -
  have copy: "copy_step () kDecodeChunk [7, 8, 9] = Some ((), [7, 8, 9], 3)"
    by (simp add: copy_step_def kDecodeChunk_def)
  have digest: "XXH64_digest (XXH64_update (XXH64_reset 0) [7, 8, 9]) = XXH64 [7, 8, 9] 0"
    by (rule XXH64_one_shot) simp
  have dec: "decompress Zstd copy_step wr () s [7, 8, 9] =
      Some (case wr s [7, 8, 9] of (ok, s') \<Rightarrow> (ok, (), s'))" for wr :: "'s sink_write" and s
    by (simp add: decompress_def zstd_decompress.simps copy deliver_def split: prod.split)
  have conn: "conn_os sample_conn = mem_os" "conn_decode sample_conn = copy_step"
      "conn_algo sample_conn = Zstd" "integrity_checks sample_conn"
    by (simp_all add: sample_conn_def)
  have close: "uv_fs_close mem_os w 0 = w\<lparr>mem_open := (mem_open w)[0 := None]\<rparr>" for w
    by (simp add: mem_os_def)
  show ?thesis
    by (simp add: receive_unit_def Let_def sample_open)
      (simp add: sample_blocks_def receive_blocks.simps list_read_def kMaxBlockSize_def conn dec
        unit_write_def new_unit_sink_def sample_write check_unit_def digest seq_close_def emit_def
        sample_session_def close)
qed

definition sample_upload :: bytes where
  "sample_upload = Cmd_Upload # byte_of_unit File # write_u16_le 3 @ bytes_of ''a/f'' @ sample_blocks"

text \<open>The upload as it may reach the channel: in two pieces, before the connection is closed.\<close>

definition sample_chan :: chan_source where
  "sample_chan = (channel_new 16, [Push (take 9 sample_upload), Push (drop 9 sample_upload), Close])"

lemma sample_chan_stream: "source_inv sample_chan" "source_stream sample_chan = sample_upload"
  by (simp_all add: sample_chan_def source_inv_def source_stream_def to_come_def chan_simps)
    (simp add: channel_new_def)

section \<open>Properties\<close>

text \<open>
  Property C9.  The consumer thread ends: whatever bytes arrive, in whatever pieces, once the
  connection is closed \<open>consumer_main\<close> returns, provided the decoder makes progress.
\<close>

theorem consumer_terminates:
  assumes "source_inv src" and "decoder_progress (conn_decode cn) pot"
    and "conn_algo cn = Zstd \<or> conn_algo cn = Lz4"
  shows "\<exists>src' st'. consumer_main read_exact cn src st = Some (src', st')"
  using chan.consumer_main_sim [OF assms(1), of cn st]
    consumer_main_returns [OF assms(2,3), of "source_stream src" st]
  by (cases "consumer_main read_exact cn src st") auto

theorem consumer_terminates_witness:
  "source_inv sample_chan \<and> decoder_progress (conn_decode sample_conn) (\<lambda>z input. length input) \<and>
   (\<exists>src' st'. consumer_main read_exact sample_conn sample_chan sample_session = Some (src', st'))"
proof -
  have "decoder_progress (conn_decode sample_conn) (\<lambda>z input. length input)" "conn_algo sample_conn = Zstd"
    by (simp_all add: sample_conn_def copy_step_decoder)
  then show ?thesis
    using consumer_terminates [OF sample_chan_stream(1), of sample_conn "\<lambda>z input. length input" sample_session]
      sample_chan_stream(1) by blast
qed

text \<open>
  Property C10.  What an upload does, the files it writes, the replies it sends, the
  events it reports, is determined by the bytes of the stream: it is what the consumer does on
  the plain list of those bytes, independent of how the network and the event loop cut them into
  pushes and of when the consumer had to wait for them.
\<close>

theorem consumer_schedule_independent:
  assumes "source_inv src"
  shows "map_option snd (consumer_main read_exact cn src st) =
    map_option snd (consumer_main list_read cn (source_stream src) st)"
  using chan.consumer_main_sim [OF assms, of cn st]
  by (cases "consumer_main read_exact cn src st"; cases "consumer_main list_read cn (source_stream src) st")
    (auto simp: chan.sim_end_def)

theorem consumer_schedule_independent_witness:
  "source_inv sample_chan \<and>
   map_option snd (consumer_main read_exact sample_conn sample_chan sample_session) =
   map_option snd (consumer_main list_read sample_conn sample_upload sample_session)"
  using consumer_schedule_independent [OF sample_chan_stream(1), of sample_conn sample_session]
  by (simp add: sample_chan_stream)

text \<open>
  Property C11.  With integrity checks on, a file is reported complete only if the eight bytes that
  the uploader sent behind it are the XXH64 checksum of what is stored on disk at that moment.
\<close>

theorem stored_file_matches_checksum:
  assumes "posix_fs (conn_os cn) file content" and "integrity_checks cn" and "source_inv src"
    and "receive_unit read_exact cn File path base src st = Some (True, src', st')"
  shows "\<exists>full. resolve_safe_path (session_root (sink st)) path = Some full \<and>
    (length (content (world st') (c_str full)) < 2 ^ 64 \<longrightarrow>
      (\<exists>pre. source_stream src =
         pre @ write_u64_le (XXH64 (content (world st') (c_str full)) 0) @ source_stream src'))"
proof -
  have "receive_unit list_read cn File path base (source_stream src) st = Some (True, source_stream src', st')"
    using chan.receive_unit_sim [OF assms(3), of cn File path base st] assms(4)
    by (cases "receive_unit list_read cn File path base (source_stream src) st") (auto simp: chan.sim_def)
  from receive_file_checksum [OF assms(1,2) this] obtain full pre outs where
    "resolve_safe_path (session_root (sink st)) path = Some full"
    "content (world st') (c_str full) = concat outs"
    "source_stream src = pre @ write_u64_le (XXH64_digest (foldl XXH64_update (XXH64_reset 0) outs))
       @ source_stream src'"
    by blast
  then show ?thesis
    by (auto simp: XXH64_digest_blocks)
qed

definition sample_unit_chan :: chan_source where
  "sample_unit_chan = (channel_new 16, [Push sample_blocks, Close])"

theorem stored_file_matches_checksum_witness:
  "\<exists>src' st' full. receive_unit read_exact sample_conn File ''a/f'' 0 sample_unit_chan sample_session =
     Some (True, src', st') \<and> resolve_safe_path ''up/5e'' ''a/f'' = Some full \<and>
     (length (mem_content (world st') (c_str full)) < 2 ^ 64 \<longrightarrow>
       (\<exists>pre. sample_blocks = pre @ write_u64_le (XXH64 (mem_content (world st') (c_str full)) 0) @ source_stream src'))"
proof -
  have inv: "source_inv sample_unit_chan" and str: "source_stream sample_unit_chan = sample_blocks"
    by (simp_all add: sample_unit_chan_def source_inv_def source_stream_def to_come_def chan_simps)
      (simp add: channel_new_def)
  obtain st' where list: "receive_unit list_read sample_conn File ''a/f'' 0 sample_blocks sample_session =
      Some (True, [], st')"
    using sample_unit_runs by blast
  obtain src' where run: "receive_unit read_exact sample_conn File ''a/f'' 0 sample_unit_chan sample_session =
      Some (True, src', st')"
    using chan.receive_unit_sim [OF inv, of sample_conn File "''a/f''" 0 sample_session] list str
    by (cases "receive_unit read_exact sample_conn File ''a/f'' 0 sample_unit_chan sample_session")
      (auto simp: chan.sim_def)
  have "posix_fs (conn_os sample_conn) mem_file mem_content" "integrity_checks sample_conn"
    by (simp_all add: sample_conn_def mem_posix)
  from stored_file_matches_checksum [OF this inv run] run str show ?thesis
    by (auto simp: sample_session_def)
qed

text \<open>
  Property C12.  In accept mode the server stores only what its filter has accepted: every unit
  the consumer starts or finishes, whatever the client sends, is one for which a probe
  with the same type, path and offset, of the same session and peer, was accepted.
\<close>

theorem accept_mode_filters:
  assumes "has_mode (conn_mode cn) ModeAccept" and "source_inv src"
    and "accepted st = Map.empty" and "events st = []"
    and "consumer_main read_exact cn src st = Some (src', st')"
  shows "list_all (event_permitted cn) (events st')"
proof -
  have "consumer_main list_read cn (source_stream src) st = Some (source_stream src', st')"
    using chan.consumer_main_sim [OF assms(2), of cn st] assms(5)
    by (cases "consumer_main list_read cn (source_stream src) st") (auto simp: chan.sim_end_def)
  moreover have "filtered cn st"
    using assms(3,4) by (simp add: filtered_def)
  ultimately have "filtered cn st'"
    using consumer_main_invariant [where I = "filtered cn"] filtered_step assms(1) by blast
  then show ?thesis
    by (simp add: filtered_def)
qed

theorem accept_mode_filters_witness:
  "\<exists>src' st'. consumer_main read_exact (sample_conn\<lparr>conn_mode := 1\<rparr>) sample_chan sample_session = Some (src', st') \<and>
     list_all (event_permitted (sample_conn\<lparr>conn_mode := 1\<rparr>)) (events st')"
proof -
  let ?cn = "sample_conn\<lparr>conn_mode := 1\<rparr>"
  have "consumer_main list_read ?cn sample_upload sample_session \<noteq> None"
    by (rule consumer_main_returns [where pot = "\<lambda>z input. length input"])
      (simp_all add: sample_conn_def copy_step_decoder)
  then obtain src' st' where run: "consumer_main read_exact ?cn sample_chan sample_session = Some (src', st')"
    using chan.consumer_main_sim [OF sample_chan_stream(1), of ?cn sample_session]
    by (cases "consumer_main read_exact ?cn sample_chan sample_session") (auto simp: sample_chan_stream)
  have "has_mode (conn_mode ?cn) ModeAccept" "accepted sample_session = Map.empty" "events sample_session = []"
    by (simp_all add: has_mode_def sample_session_def)
  from accept_mode_filters [OF this(1) sample_chan_stream(1) this(2,3) run] run show ?thesis
    by blast
qed

end
