(* ===== verification/Affinity.thy ===== *)
theory Affinity
  imports Paths
begin

text \<open>
  Which worker suits a file, \<open>client/affinity.h\<close>: a file name is classified by its extension, a class
  has a vector of small numbers packed into 32 bits, and the distance of two such keys says how badly a
  compressor that is warm for one suits the other.
\<close>

datatype Flavor = FlavorNone | Opaque | Prose | Structured | Tabular | Code | Logs | Generic

record AffinityVector =
  av_structure :: byte
  av_tokens :: byte
  av_records :: byte
  av_opaque :: bool
  av_cold :: bool

definition kOpaqueBit :: u32 where "kOpaqueBit = push_bit 24 1"
definition kColdBit :: u32 where "kColdBit = push_bit 25 1"
definition kColdCost :: u32 where "kColdCost = 16"
definition kWallCost :: u32 where "kWallCost = push_bit 20 1"

definition packAffinity :: "AffinityVector \<Rightarrow> u32" where
  "packAffinity v =
     (let key0 = ucast (av_structure v) OR push_bit 8 (ucast (av_tokens v)) OR push_bit 16 (ucast (av_records v));
          key1 = (if av_opaque v then key0 OR kOpaqueBit else key0)
      in if av_cold v then key1 OR kColdBit else key1)"

definition unpackAffinity :: "u32 \<Rightarrow> AffinityVector" where
  "unpackAffinity key =
     \<lparr>av_structure = ucast (key AND 0xFF), av_tokens = ucast (drop_bit 8 key AND 0xFF),
      av_records = ucast (drop_bit 16 key AND 0xFF),
      av_opaque = (key AND kOpaqueBit \<noteq> 0), av_cold = (key AND kColdBit \<noteq> 0)\<rparr>"

abbreviation vector :: "byte \<Rightarrow> byte \<Rightarrow> byte \<Rightarrow> bool \<Rightarrow> bool \<Rightarrow> AffinityVector" where
  "vector s t r opq cold \<equiv> \<lparr>av_structure = s, av_tokens = t, av_records = r, av_opaque = opq, av_cold = cold\<rparr>"

fun affinityOf :: "Flavor \<Rightarrow> u32" where
  "affinityOf FlavorNone = packAffinity (vector 0 0 0 False True)"
| "affinityOf Opaque = packAffinity (vector 0 0 0 True False)"
| "affinityOf Prose = packAffinity (vector 0 0 0 False False)"
| "affinityOf Structured = packAffinity (vector 9 0 0 False False)"
| "affinityOf Tabular = packAffinity (vector 3 0 9 False False)"
| "affinityOf Code = packAffinity (vector 2 9 2 False False)"
| "affinityOf Logs = packAffinity (vector 2 0 8 False False)"
| "affinityOf Generic = packAffinity (vector 1 0 1 False False)"

text \<open>The difference of two bytes as \<open>int32_t\<close>; the sum of squares is converted to \<open>uint32_t\<close>.\<close>

definition square_delta :: "byte \<Rightarrow> byte \<Rightarrow> int" where
  "square_delta a b = (uint a - uint b) * (uint a - uint b)"

definition distance :: "u32 \<Rightarrow> u32 \<Rightarrow> u32" where
  "distance incoming resident =
     (let left = unpackAffinity incoming; right = unpackAffinity resident
      in if av_cold right then kColdCost
         else if av_opaque left \<noteq> av_opaque right then kWallCost
         else if av_opaque left \<and> av_opaque right then 0
         else of_int (square_delta (av_structure left) (av_structure right)
                + square_delta (av_tokens left) (av_tokens right)
                + square_delta (av_records left) (av_records right)))"

definition flavorTable :: "(string \<times> Flavor) list" where
  "flavorTable =
     map (\<lambda>e. (e, Opaque)) [''png'', ''jpg'', ''jpeg'', ''gif'', ''webp'', ''mp4'', ''mkv'', ''mov'', ''webm'', ''mp3'', ''flac'', ''ogg'',
       ''zip'', ''gz'', ''zst'', ''xz'', ''7z'', ''rar'', ''pdf'', ''docx'', ''xlsx'', ''exe'', ''dll'', ''woff2''] @
     map (\<lambda>e. (e, Prose)) [''txt'', ''md'', ''rst''] @
     map (\<lambda>e. (e, Structured)) [''json'', ''xml'', ''html'', ''htm'', ''yaml'', ''yml'', ''toml'', ''svg''] @
     map (\<lambda>e. (e, Tabular)) [''csv'', ''tsv''] @
     map (\<lambda>e. (e, Code)) [''c'', ''h'', ''cpp'', ''hpp'', ''cc'', ''py'', ''js'', ''ts'', ''go'', ''rs'', ''java'', ''sql''] @
     [(''log'', Logs)]"

text \<open>\<open>path::filename\<close> and \<open>path::extension\<close> of \<open>std::filesystem\<close>.\<close>

definition path_filename :: "string \<Rightarrow> string" where
  "path_filename p = last (split_slash p)"

definition path_extension :: "string \<Rightarrow> string" where
  "path_extension p =
     (let name = path_filename p
      in if name = ''.'' \<or> name = ''..'' then []
         else case str_rfind CHR ''.'' name of
                None \<Rightarrow> []
              | Some i \<Rightarrow> if i = 0 then [] else drop i name)"

definition loweredExtension :: "string \<Rightarrow> string" where
  "loweredExtension p =
     (let ext = path_extension p
      in map tolower (if ext \<noteq> [] \<and> hd ext = CHR ''.'' then tl ext else ext))"

definition classify :: "string \<Rightarrow> Flavor" where
  "classify p =
     (let ext = loweredExtension p
      in if ext = [] then Generic
         else case map_of flavorTable ext of None \<Rightarrow> Generic | Some f \<Rightarrow> f)"

definition forPath :: "string \<Rightarrow> u32" where
  "forPath p = affinityOf (classify p)"

section \<open>Keys and distances\<close>

lemma square_delta_bounds: "0 \<le> square_delta a b" "square_delta a b \<le> 255 * 255"
proof -
  have "0 \<le> uint a" "uint a \<le> 255" "0 \<le> uint b" "uint b \<le> 255"
    using uint_lt2p [of a] uint_lt2p [of b] by simp_all
  then have "abs (uint a - uint b) \<le> 255"
    by linarith
  then have "abs (uint a - uint b) * abs (uint a - uint b) \<le> 255 * 255"
    by (intro mult_mono) simp_all
  then show "square_delta a b \<le> 255 * 255"
    by (simp add: square_delta_def abs_mult_self_eq)
qed (simp add: square_delta_def)

text \<open>The conversions lose nothing, and no distance is above the wall.\<close>

lemma distance_value:
  "\<not> av_cold (unpackAffinity r) \<Longrightarrow> \<not> av_opaque (unpackAffinity i) \<Longrightarrow> \<not> av_opaque (unpackAffinity r) \<Longrightarrow>
    uint (distance i r) =
      square_delta (av_structure (unpackAffinity i)) (av_structure (unpackAffinity r)) +
      square_delta (av_tokens (unpackAffinity i)) (av_tokens (unpackAffinity r)) +
      square_delta (av_records (unpackAffinity i)) (av_records (unpackAffinity r))"
  using square_delta_bounds [of "av_structure (unpackAffinity i)" "av_structure (unpackAffinity r)"]
    square_delta_bounds [of "av_tokens (unpackAffinity i)" "av_tokens (unpackAffinity r)"]
    square_delta_bounds [of "av_records (unpackAffinity i)" "av_records (unpackAffinity r)"]
  by (simp only: distance_def Let_def if_False simp_thms unsigned_of_int) (simp add: take_bit_eq_mod)

lemma distance_le_wall: "distance i r \<le> kWallCost"
proof -
  have wall: "uint kWallCost = 1048576"
    by (simp add: kWallCost_def)
  show ?thesis
  proof (cases "av_cold (unpackAffinity r) \<or> av_opaque (unpackAffinity i) \<or> av_opaque (unpackAffinity r)")
    case True
    then show ?thesis
      by (auto simp: distance_def Let_def kColdCost_def kWallCost_def)
  next
    case False
    then have "uint (distance i r) \<le> 3 * (255 * 255)"
      using distance_value [of r i]
        square_delta_bounds(2) [of "av_structure (unpackAffinity i)" "av_structure (unpackAffinity r)"]
        square_delta_bounds(2) [of "av_tokens (unpackAffinity i)" "av_tokens (unpackAffinity r)"]
        square_delta_bounds(2) [of "av_records (unpackAffinity i)" "av_records (unpackAffinity r)"]
      by linarith
    then show ?thesis
      by (simp add: word_le_def wall)
  qed
qed

end
