(* ===== verification/Filter_Rules.thy ===== *)
theory Filter_Rules
  imports Dicker_Prelude
begin

text \<open>
  The include and exclude rules of \<open>client/scheduler.h\<close>: \<open>compileRule\<close> translates a glob
  pattern into the text of a regular expression, and \<open>keep\<close> takes the first rule that matches.

  \<open>std::regex\<close> is modelled by a parser for the part of the ECMAScript grammar that the
  translation produces (characters, escapes, \<open>.\<close>, negated classes of one character, groups, the
  anchors, and the quantifiers \<open>*\<close> and \<open>?\<close>), and by the usual meaning of what it parses.
\<close>

section \<open>\<open>std::regex\<close>\<close>

datatype rx = Chr char | Dot | NotChr char | Star rx | Opt rx | Group "rx list" | Bol | Eol

text \<open>A sequence of terms, up to a closing parenthesis; \<^const>\<open>None\<close> is a text outside the grammar.\<close>

definition rx_quantifier :: "rx \<Rightarrow> string \<Rightarrow> rx \<times> string" where
  "rx_quantifier a u =
     (if u \<noteq> [] \<and> hd u = CHR ''*'' then (Star a, tl u)
      else if u \<noteq> [] \<and> hd u = CHR ''?'' then (Opt a, tl u)
      else (a, u))"

fun rx_parse :: "nat \<Rightarrow> string \<Rightarrow> (rx list \<times> string) option" where
  "rx_parse 0 s = None"
| "rx_parse (Suc n) [] = Some ([], [])"
| "rx_parse (Suc n) (c # t) =
     (if c = CHR '')'' then Some ([], c # t)
      else
        case (if c = CHR ''^'' then Some (Bol, t)
              else if c = CHR ''$'' then Some (Eol, t)
              else if c = CHR ''.'' then Some (Dot, t)
              else if c = CHR 0x5C then (if t = [] then None else Some (Chr (hd t), tl t))
              else if c = CHR ''['' then
                (if 3 \<le> length t \<and> t ! 0 = CHR ''^'' \<and> t ! 2 = CHR '']'' then Some (NotChr (t ! 1), drop 3 t) else None)
              else if c = CHR ''('' then
                (case rx_parse n t of
                   None \<Rightarrow> None
                 | Some (rs, u) \<Rightarrow> if u \<noteq> [] \<and> hd u = CHR '')'' then Some (Group rs, tl u) else None)
              else if c \<in> set ''*+?{}]|'' then None
              else Some (Chr c, t)) of
          None \<Rightarrow> None
        | Some (a, u) \<Rightarrow>
            (case rx_quantifier a u of
               (a', v) \<Rightarrow>
                 (case rx_parse n v of
                    None \<Rightarrow> None
                  | Some (rs, w) \<Rightarrow> Some (a' # rs, w))))"

text \<open>
  Whether a term matches a part of the subject; the flags say whether the part is at the
  beginning and at the end of the subject.
\<close>

definition line_end :: "char \<Rightarrow> bool" where
  "line_end c \<longleftrightarrow> c = CHR 0x0A \<or> c = CHR 0x0D"

function (sequential) rxm :: "bool \<Rightarrow> bool \<Rightarrow> rx \<Rightarrow> string \<Rightarrow> bool" and rxs :: "bool \<Rightarrow> bool \<Rightarrow> rx list \<Rightarrow> string \<Rightarrow> bool" where
  "rxm st en (Chr c) s \<longleftrightarrow> s = [c]"
| "rxm st en Dot s \<longleftrightarrow> length s = 1 \<and> \<not> line_end (hd s)"
| "rxm st en (NotChr d) s \<longleftrightarrow> length s = 1 \<and> hd s \<noteq> d"
| "rxm st en (Star r) s \<longleftrightarrow> s = [] \<or>
     (\<exists>i\<in>set [1..<Suc (length s)]. rxm st (en \<and> i = length s) r (take i s) \<and> rxm False en (Star r) (drop i s))"
| "rxm st en (Opt r) s \<longleftrightarrow> s = [] \<or> rxm st en r s"
| "rxm st en (Group rs) s \<longleftrightarrow> rxs st en rs s"
| "rxm st en Bol s \<longleftrightarrow> s = [] \<and> st"
| "rxm st en Eol s \<longleftrightarrow> s = [] \<and> en"
| "rxs st en [] s \<longleftrightarrow> s = []"
| "rxs st en (r # rs) s \<longleftrightarrow>
     (\<exists>i\<in>set [0..<Suc (length s)]. rxm st (en \<and> i = length s) r (take i s) \<and> rxs (st \<and> i = 0) en rs (drop i s))"
  by pat_completeness auto
termination
  by (relation "measures [\<lambda>x. case x of Inl (st, en, r, s) \<Rightarrow> size r | Inr (st, en, rs, s) \<Rightarrow> size_list size rs,
        \<lambda>x. case x of Inl (st, en, r, s) \<Rightarrow> length s | Inr (st, en, rs, s) \<Rightarrow> length s]") auto

declare rxm.simps(4) [simp del]

definition regex_match :: "string \<Rightarrow> string \<Rightarrow> bool" where
  "regex_match re s =
     (case rx_parse (Suc (length re)) re of
        Some (rs, []) \<Rightarrow> rxs True True rs s
      | _ \<Rightarrow> False)"

section \<open>Rules\<close>

record FilterRule =
  fr_include :: bool
  fr_pattern :: string

record Rule =
  rule_include :: bool
  dirOnly :: bool
  basenameOnly :: bool
  rule_re :: string

text \<open>\<open>strchr\<close> also finds the terminating NUL.\<close>

definition rx_special :: "char \<Rightarrow> bool" where
  "rx_special c \<longleftrightarrow> c \<in> set ''.^$+{}()[]|'' \<or> c = CHR 0x5C \<or> c = CHR 0x00"

fun glob_re :: "string \<Rightarrow> string" where
  "glob_re [] = []"
| "glob_re (c # cs) =
     (if c = CHR ''*'' \<and> cs \<noteq> [] \<and> hd cs = CHR ''*'' then ''.*'' @ glob_re (tl cs)
      else if c = CHR ''*'' then ''[^/]*'' @ glob_re cs
      else if c = CHR ''?'' then ''[^/]'' @ glob_re cs
      else (if rx_special c then [CHR 0x5C, c] else [c]) @ glob_re cs)"

fun has_double_star :: "string \<Rightarrow> bool" where
  "has_double_star [] = False"
| "has_double_star (c # cs) = (c = CHR ''*'' \<and> cs \<noteq> [] \<and> hd cs = CHR ''*'' \<or> has_double_star cs)"

definition compileRule :: "FilterRule \<Rightarrow> Rule" where
  "compileRule fr =
     (let pat = fr_pattern fr;
          dir_only = (pat \<noteq> [] \<and> last pat = CHR ''/'');
          pat1 = (if dir_only then butlast pat else pat);
          anchored = (pat1 \<noteq> [] \<and> hd pat1 = CHR ''/'');
          pat2 = (if anchored then tl pat1 else pat1);
          basename_only = (CHR ''/'' \<notin> set pat2 \<and> \<not> has_double_star pat2);
          re = glob_re pat2;
          full = (if basename_only \<or> anchored then re else ''(.*/)?'' @ re)
      in \<lparr>rule_include = fr_include fr, dirOnly = dir_only, basenameOnly = basename_only,
          rule_re = ''^'' @ full @ ''$''\<rparr>)"

fun keep :: "Rule list \<Rightarrow> string \<Rightarrow> string \<Rightarrow> bool \<Rightarrow> bool" where
  "keep [] rel name isDir = True"
| "keep (r # rules) rel name isDir =
     (if dirOnly r \<and> \<not> isDir then keep rules rel name isDir
      else if regex_match (rule_re r) (if basenameOnly r then name else rel) then rule_include r
      else keep rules rel name isDir)"

section \<open>What a pattern means\<close>

text \<open>
  The glob language by itself: \<open>**\<close> stands for any text without line ends, \<open>*\<close> for any text
  without slashes, \<open>?\<close> for one character other than a slash, and everything else for itself.
\<close>

fun glob :: "string \<Rightarrow> string \<Rightarrow> bool" where
  "glob [] s \<longleftrightarrow> s = []"
| "glob (c # cs) s \<longleftrightarrow>
     (if c = CHR ''*'' \<and> cs \<noteq> [] \<and> hd cs = CHR ''*''
      then \<exists>i\<in>set [0..<Suc (length s)]. list_all (\<lambda>c. \<not> line_end c) (take i s) \<and> glob (tl cs) (drop i s)
      else if c = CHR ''*'' then \<exists>i\<in>set [0..<Suc (length s)]. CHR ''/'' \<notin> set (take i s) \<and> glob cs (drop i s)
      else if c = CHR ''?'' then s \<noteq> [] \<and> hd s \<noteq> CHR ''/'' \<and> glob cs (tl s)
      else s \<noteq> [] \<and> hd s = c \<and> glob cs (tl s))"

text \<open>What the translation parses to.\<close>

fun glob_rx :: "string \<Rightarrow> rx list" where
  "glob_rx [] = []"
| "glob_rx (c # cs) =
     (if c = CHR ''*'' \<and> cs \<noteq> [] \<and> hd cs = CHR ''*'' then Star Dot # glob_rx (tl cs)
      else if c = CHR ''*'' then Star (NotChr CHR ''/'') # glob_rx cs
      else if c = CHR ''?'' then NotChr CHR ''/'' # glob_rx cs
      else Chr c # glob_rx cs)"

definition quantified :: "string \<Rightarrow> bool" where
  "quantified t \<longleftrightarrow> t \<noteq> [] \<and> (hd t = CHR ''*'' \<or> hd t = CHR ''?'')"

lemma glob_re_not_quantified: "\<not> quantified t \<Longrightarrow> \<not> quantified (glob_re p @ t)"
  by (cases p) (auto simp: quantified_def)

lemma rx_quantifier_none: "\<not> quantified t \<Longrightarrow> rx_quantifier a t = (a, t)"
  by (auto simp: rx_quantifier_def quantified_def)

lemma rx_quantifier_star: "rx_quantifier a (CHR ''*'' # t) = (Star a, t)"
  by (simp add: rx_quantifier_def)

lemma rx_parse_glob:
  "length (glob_re p @ t) < n \<Longrightarrow> \<not> quantified t \<Longrightarrow> (\<And>m. length t < m \<Longrightarrow> rx_parse m t = Some (rs, w)) \<Longrightarrow>
    rx_parse n (glob_re p @ t) = Some (glob_rx p @ rs, w)"
proof (induction p arbitrary: n rule: glob_re.induct)
  case 1
  then show ?case by simp
next
  case (2 c cs)
  obtain k where n: "n = Suc k"
    using "2.prems"(1) by (cases n) auto
  note quiet = glob_re_not_quantified [OF "2.prems"(2)]
  consider (double) "c = CHR ''*''" "cs \<noteq> []" "hd cs = CHR ''*''" | (star) "c = CHR ''*''" "\<not> (cs \<noteq> [] \<and> hd cs = CHR ''*'')"
    | (query) "c = CHR ''?''" | (special) "c \<noteq> CHR ''*''" "c \<noteq> CHR ''?''" "rx_special c"
    | (plain) "c \<noteq> CHR ''*''" "c \<noteq> CHR ''?''" "\<not> rx_special c"
    by blast
  then show ?case
  proof cases
    case double
    then show ?thesis
      using "2.IH"(1) [of k] "2.prems" by (simp add: n rx_quantifier_star)
  next
    case star
    then show ?thesis
      using "2.IH"(2) [of k] "2.prems" by (auto simp: n rx_quantifier_star)
  next
    case query
    then show ?thesis
      using "2.IH"(3) [of k] "2.prems" by (simp add: n rx_quantifier_none [OF quiet])
  next
    case special
    then show ?thesis
      using "2.IH"(4) [of k] "2.prems" by (simp add: n rx_quantifier_none [OF quiet])
  next
    case plain
    then show ?thesis
      using "2.IH"(4) [of k] "2.prems" by (simp add: n rx_quantifier_none [OF quiet] rx_special_def)
  qed
qed

lemma take_one:
  assumes "i \<in> set [k..<Suc (length (c # s))]"
  shows "(length (take i (c # s)) = 1 \<and> P (hd (take i (c # s)))) \<and> R \<longleftrightarrow> i = 1 \<and> P c \<and> R"
proof -
  have "i \<le> Suc (length s)"
    using assms by auto
  then show ?thesis
    by (cases i) auto
qed

lemma first_in_upt: "k \<le> 1 \<Longrightarrow> 1 \<in> set [k..<Suc (length (c # s))]"
  by (simp del: upt_Suc)

lemma rx_match_star:
  assumes "\<And>st en s. rxm st en r s \<longleftrightarrow> length s = 1 \<and> P (hd s)"
  shows "rxm st en (Star r) s \<longleftrightarrow> list_all P s"
proof (induction s arbitrary: st en)
  case Nil
  show ?case by (subst rxm.simps(4)) simp
next
  case (Cons c s)
  have "rxm st en (Star r) (c # s) \<longleftrightarrow>
    (\<exists>i\<in>set [1..<Suc (length (c # s))]. i = 1 \<and> P c \<and> rxm False en (Star r) (drop i (c # s)))"
    unfolding rxm.simps(4) [of st en r "c # s"] assms
    by (simp only: list.distinct simp_thms take_one cong: bex_cong)
  also have "\<dots> \<longleftrightarrow> P c \<and> rxm False en (Star r) (drop 1 (c # s))"
    using first_in_upt [of 1 c s] by blast
  finally show ?case
    using Cons by simp
qed

lemma rx_match_dots: "rxm st en (Star Dot) s \<longleftrightarrow> list_all (\<lambda>c. \<not> line_end c) s"
  by (rule rx_match_star) simp

lemma rx_match_not_slashes: "rxm st en (Star (NotChr d)) s \<longleftrightarrow> d \<notin> set s"
  by (subst rx_match_star [where P = "\<lambda>c. c \<noteq> d"]) (auto simp: list_all_iff)

text \<open>A term that matches exactly one character takes the first one.\<close>

lemma rxs_one:
  assumes "\<And>st en s. rxm st en r s \<longleftrightarrow> length s = 1 \<and> P (hd s)"
  shows "rxs st en (r # rs) s \<longleftrightarrow> s \<noteq> [] \<and> P (hd s) \<and> rxs False en rs (tl s)"
proof (cases s)
  case Nil
  then show ?thesis by (simp add: assms)
next
  case (Cons c t)
  have "rxs st en (r # rs) s \<longleftrightarrow>
    (\<exists>i\<in>set [0..<Suc (length s)]. i = 1 \<and> P c \<and> rxs (st \<and> i = 0) en rs (drop i s))"
    unfolding rxs.simps(2) assms Cons by (simp only: take_one cong: bex_cong)
  also have "\<dots> \<longleftrightarrow> P c \<and> rxs (st \<and> (1::nat) = 0) en rs (drop 1 s)"
    using first_in_upt [of 0 c t] unfolding Cons by blast
  finally show ?thesis
    by (simp add: Cons)
qed

lemma rxs_glob: "rxs st True (glob_rx p @ [Eol]) s \<longleftrightarrow> glob p s"
proof (induction p s arbitrary: st rule: glob.induct)
  case (1 s)
  then show ?case by auto
next
  case (2 c cs s)
  have chr: "rxm st en (Chr c) s \<longleftrightarrow> length s = 1 \<and> hd s = c" for st en s
    by (cases s) auto
  show ?case
    using 2 rxs_one [where r = "Chr c" and P = "\<lambda>d. d = c", OF chr] rxs_one [where r = "NotChr (CHR ''/'')" and P = "\<lambda>d. d \<noteq> CHR ''/''"]
    by (simp add: rx_match_dots rx_match_not_slashes)
qed

lemma rx_parse_end: "1 < m \<Longrightarrow> rx_parse m ''$'' = Some ([Eol], [])"
  by (cases m; cases "m - 1") (auto simp: rx_quantifier_def)

lemma end_not_quantified: "\<not> quantified ''$''"
  by (simp add: quantified_def)

lemma rxs_bol: "rxs True en (Bol # rs) s \<longleftrightarrow> rxs True en rs s"
proof -
  have "rxs True en (Bol # rs) s \<longleftrightarrow> (\<exists>i\<in>set [0..<Suc (length s)]. i = 0 \<and> rxs True en rs s)"
    unfolding rxs.simps(2) rxm.simps(7) by (rule bex_cong) auto
  moreover have "0 \<in> set [0..<Suc (length s)]"
    by (simp del: upt_Suc)
  ultimately show ?thesis
    by blast
qed

lemma regex_match_glob: "regex_match (''^'' @ glob_re p @ ''$'') s \<longleftrightarrow> glob p s"
proof -
  let ?re = "glob_re p @ ''$''"
  have "rx_parse (Suc (length (''^'' @ ?re))) (''^'' @ ?re) = Some (Bol # glob_rx p @ [Eol], [])"
    using rx_parse_glob [of p "''$''" "length (''^'' @ ?re)" "[Eol]" "[]"] rx_parse_end
    by (simp add: rx_quantifier_none [OF glob_re_not_quantified [OF end_not_quantified]] end_not_quantified)
  then show ?thesis
    by (simp add: regex_match_def rxs_bol rxs_glob del: rxs.simps)
qed

lemma rxs_single: "rxs st en [Chr c] t \<longleftrightarrow> t = [c]"
proof -
  have "rxs st en [Chr c] t \<longleftrightarrow> t \<noteq> [] \<and> hd t = c \<and> rxs False en [] (tl t)"
    by (rule rxs_one [where P = "\<lambda>d. d = c"]) (auto simp: length_Suc_conv)
  then show ?thesis
    by (cases t) auto
qed

text \<open>The prefix of an unanchored pattern: nothing, or a text that ends with a slash.\<close>

lemma rx_match_prefix:
  "rxm st en (Opt (Group [Star Dot, Chr CHR ''/''])) s \<longleftrightarrow>
    s = [] \<or> list_all (\<lambda>c. \<not> line_end c) (butlast s) \<and> last s = CHR ''/''"
proof -
  have "rxs st en [Star Dot, Chr CHR ''/''] s \<longleftrightarrow>
    (\<exists>i\<in>set [0..<Suc (length s)]. list_all (\<lambda>c. \<not> line_end c) (take i s) \<and> drop i s = ''/'')"
    unfolding rxs.simps(2) [of st en "Star Dot"] rx_match_dots
    by (simp only: rxs_single)
  also have "\<dots> \<longleftrightarrow> s \<noteq> [] \<and> list_all (\<lambda>c. \<not> line_end c) (butlast s) \<and> last s = CHR ''/''"
  proof
    assume "\<exists>i\<in>set [0..<Suc (length s)]. list_all (\<lambda>c. \<not> line_end c) (take i s) \<and> drop i s = ''/''"
    then obtain i where "list_all (\<lambda>c. \<not> line_end c) (take i s)" "drop i s = ''/''"
      by blast
    moreover from this have "s = take i s @ ''/''"
      by (metis append_take_drop_id)
    ultimately show "s \<noteq> [] \<and> list_all (\<lambda>c. \<not> line_end c) (butlast s) \<and> last s = CHR ''/''"
      by (metis butlast_snoc last_snoc snoc_eq_iff_butlast)
  next
    assume s: "s \<noteq> [] \<and> list_all (\<lambda>c. \<not> line_end c) (butlast s) \<and> last s = CHR ''/''"
    then obtain t where "s = t @ ''/''"
      by (metis append_butlast_last_id)
    with s show "\<exists>i\<in>set [0..<Suc (length s)]. list_all (\<lambda>c. \<not> line_end c) (take i s) \<and> drop i s = ''/''"
      by (intro bexI [of _ "length t"]) (simp_all del: upt_Suc)
  qed
  finally show ?thesis
    by auto
qed

definition glob_below :: "string \<Rightarrow> string \<Rightarrow> bool" where
  "glob_below p s \<longleftrightarrow> glob p s \<or> (\<exists>i<length s. s ! i = CHR ''/'' \<and> list_all (\<lambda>c. \<not> line_end c) (take i s) \<and> glob p (drop (Suc i) s))"

lemma split_prefix:
  "(\<exists>i\<in>set [0..<Suc (length s)]. (take i s = [] \<or> list_all (\<lambda>c. \<not> line_end c) (butlast (take i s)) \<and> last (take i s) = CHR ''/'') \<and>
      glob p (drop i s)) \<longleftrightarrow> glob_below p s" (is "?l \<longleftrightarrow> _")
proof
  assume ?l
  then obtain i where "i \<in> set [0..<Suc (length s)]" and i: "take i s = [] \<or> list_all (\<lambda>c. \<not> line_end c) (butlast (take i s)) \<and> last (take i s) = CHR ''/''"
      "glob p (drop i s)"
    by blast
  then have len: "i \<le> length s"
    by auto
  show "glob_below p s"
  proof (cases i)
    case 0
    with i show ?thesis by (simp add: glob_below_def)
  next
    case (Suc j)
    then have "take i s = take j s @ [s ! j]" "j < length s"
      using len by (simp_all add: take_Suc_conv_app_nth)
    with i Suc show ?thesis by (auto simp: glob_below_def)
  qed
next
  assume "glob_below p s"
  then consider "glob p s" | i where "i < length s" "s ! i = CHR ''/''" "list_all (\<lambda>c. \<not> line_end c) (take i s)" "glob p (drop (Suc i) s)"
    by (auto simp: glob_below_def)
  then show ?l
  proof cases
    case 1
    then show ?thesis by (intro bexI [of _ 0]) (simp_all del: upt_Suc)
  next
    case 2
    then show ?thesis
      by (intro bexI [of _ "Suc i"]) (simp_all add: take_Suc_conv_app_nth del: upt_Suc)
  qed
qed

lemma regex_match_below: "regex_match (''^'' @ (''(.*/)?'' @ glob_re p) @ ''$'') s \<longleftrightarrow> glob_below p s"
proof -
  let ?re = "glob_re p @ ''$''" and ?pre = "Opt (Group [Star Dot, Chr CHR ''/''])"
  have inner: "rx_parse (Suc (Suc (Suc n))) (''.*/)?'' @ t) = Some ([Star Dot, Chr CHR ''/''], '')?'' @ t)" for n t
    by (simp add: rx_quantifier_def)
  have "rx_parse (Suc (length (''^(.*/)?'' @ ?re))) (''^(.*/)?'' @ ?re) = Some (Bol # ?pre # glob_rx p @ [Eol], [])"
    using rx_parse_glob [of p "''$''" "length (''(.*/)?'' @ ?re)" "[Eol]" "[]"] rx_parse_end inner [of "length (''.*/'' @ ?re)" ?re]
    by (simp add: rx_quantifier_def end_not_quantified)
  moreover have "rxs True True (?pre # glob_rx p @ [Eol]) s \<longleftrightarrow> glob_below p s"
    unfolding rxs.simps(2) [of _ _ ?pre] rx_match_prefix rxs_glob by (rule split_prefix)
  ultimately show ?thesis
    by (simp add: regex_match_def rxs_bol del: rxs.simps)
qed

section \<open>The rules that apply\<close>

text \<open>What a rule selects, read off the text of its pattern.\<close>

definition rule_applies :: "FilterRule \<Rightarrow> string \<Rightarrow> string \<Rightarrow> bool \<Rightarrow> bool" where
  "rule_applies fr rel name isDir \<longleftrightarrow>
     (let pat = fr_pattern fr;
          body = (if pat \<noteq> [] \<and> last pat = CHR ''/'' then butlast pat else pat);
          inner = (if body \<noteq> [] \<and> hd body = CHR ''/'' then tl body else body)
      in (pat \<noteq> [] \<and> last pat = CHR ''/'' \<longrightarrow> isDir) \<and>
         (if CHR ''/'' \<notin> set inner \<and> \<not> has_double_star inner then glob inner name
          else if body \<noteq> [] \<and> hd body = CHR ''/'' then glob inner rel
          else glob_below inner rel))"

lemma compileRule_applies:
  "rule_applies fr rel name isDir \<longleftrightarrow>
    (dirOnly (compileRule fr) \<longrightarrow> isDir) \<and>
    regex_match (rule_re (compileRule fr)) (if basenameOnly (compileRule fr) then name else rel)"
  using regex_match_glob regex_match_below
  by (simp add: rule_applies_def compileRule_def Let_def)

lemma compileRule_include: "rule_include (compileRule fr) = fr_include fr"
  by (simp add: compileRule_def Let_def)

text \<open>
  Property C34.  \<open>keep\<close> on compiled rules is the first rule, in the order given, whose glob pattern selects the
  entry (a pattern without slashes is matched against the name, one with a leading slash against the whole
  relative path, any other against every tail of it, a trailing slash restricts it to directories), and keeps what no rule
  selects: the regular expressions that the patterns are translated to mean exactly the patterns.
\<close>

theorem keep_first_match:
  "keep (map compileRule frs) rel name isDir =
    (case find (\<lambda>fr. rule_applies fr rel name isDir) frs of None \<Rightarrow> True | Some fr \<Rightarrow> fr_include fr)"
proof (induction frs)
  case (Cons fr frs)
  then show ?case
    using compileRule_applies [of fr rel name isDir] by (auto simp: compileRule_include)
qed simp

end
