(* ===== verification/Storage_Reader.thy ===== *)
theory Storage_Reader
  imports Wire
begin

text \<open>
  What the uploader reads from disk: \<open>client/task.h\<close> and the sequential part of \<open>client/storageReader.h\<close>, on
  POSIX systems (where \<open>Storage::resolve\<close> of \<open>client/storage.h\<close> gives the path back).  Opening a file and
  \<open>pread\<close> are a parameter (\<open>disk\<close>); a file does not change while one unit is read.  The rings that carry
  the blocks to the worker's thread are the subject of \<open>Ring\<close> and \<open>Reader_Pipeline\<close>.
\<close>

section \<open>Tasks\<close>

definition PATH_CAP :: nat where "PATH_CAP = 256"

record Task =
  task_type :: UnitType
  pathname :: string
  task_offset :: u64
  task_length :: u64
  task_file_size :: u64
  task_mtime :: u64

text \<open>\<open>strncpy\<close> into an array of \<open>PATH_CAP\<close> characters, the last one set to NUL.\<close>

definition copy_path :: "string \<Rightarrow> string" where
  "copy_path path = take (PATH_CAP - 1) (c_str path)"

definition worker_task :: "UnitType \<Rightarrow> string \<Rightarrow> u64 \<Rightarrow> u64 \<Rightarrow> u64 \<Rightarrow> u64 \<Rightarrow> Task" where
  "worker_task type path offset len file_size mtime =
     \<lparr>task_type = type, pathname = copy_path path, task_offset = offset, task_length = len,
      task_file_size = file_size, task_mtime = mtime\<rparr>"

record ReadRequest =
  rq_pathname :: string
  rq_offset :: u64
  rq_length :: u64

definition submit :: "Task \<Rightarrow> ReadRequest" where
  "submit t = \<lparr>rq_pathname = copy_path (pathname t), rq_offset = task_offset t, rq_length = task_length t\<rparr>"

section \<open>Arithmetic on offsets\<close>

lemma unat_u64_of_nat: "n < 2 ^ 64 \<Longrightarrow> unat (of_nat n :: u64) = n"
  by (simp only: unsigned_of_nat) (simp add: take_bit_eq_mod)

lemma unat_u64_plus: "unat (off :: u64) + n < 2 ^ 64 \<Longrightarrow> unat (off + of_nat n) = unat off + n"
  using unat_u64_of_nat [of n] unat_add_lem [of off "of_nat n"] by simp

lemma unat_u64_minus:
  assumes "n \<le> unat (remaining :: u64)"
  shows "unat (remaining - of_nat n) = unat remaining - n"
proof -
  have "unat remaining < 2 ^ 64"
    using unsigned_less [of remaining] by simp
  with assms have "unat (of_nat n :: u64) = n"
    by (intro unat_u64_of_nat) linarith
  with assms show ?thesis
    by (simp add: unat_sub word_le_nat_alt)
qed

section \<open>Reading\<close>

definition READ_BLOCK :: nat where "READ_BLOCK = 256 * 1024"
definition READ_AHEAD :: nat where "READ_AHEAD = 4"
definition READ_RING :: nat where "READ_RING = 8"

text \<open>\<open>pread\<close> of at most the given number of bytes at an offset; \<^const>\<open>None\<close> is an error.\<close>

record 'h disk =
  disk_open :: "string \<Rightarrow> 'h option"
  disk_pread :: "'h \<Rightarrow> nat \<Rightarrow> u64 \<Rightarrow> bytes option"

text \<open>The loop of \<open>readAt\<close>, with the bytes read so far.\<close>

function read_at :: "'h disk \<Rightarrow> 'h \<Rightarrow> nat \<Rightarrow> u64 \<Rightarrow> bytes \<Rightarrow> bytes" where
  "read_at d h len off acc =
     (if length acc < len
      then case disk_pread d h (len - length acc) (off + of_nat (length acc)) of
             None \<Rightarrow> acc
           | Some got \<Rightarrow> if got = [] then acc
                          else read_at d h len off (acc @ take (len - length acc) got)
      else acc)"
  by pat_completeness auto
termination
  by (relation "measure (\<lambda>(d, h, len, off, acc). len - length acc)") (auto simp: diff_less_mono2)

declare read_at.simps [simp del]

lemma read_at_length: "length acc \<le> len \<Longrightarrow> length (read_at d h len off acc) \<le> len"
proof (induction d h len off acc rule: read_at.induct)
  case (1 d h len off acc)
  then show ?case
    unfolding read_at.simps [of d h len off acc] by (auto split: option.splits)
qed

text \<open>The loop of \<open>process\<close>: the blocks it puts into the ready ring, without the end marker.\<close>

definition want :: "u64 \<Rightarrow> nat" where
  "want remaining = (if unat remaining < READ_BLOCK then unat remaining else READ_BLOCK)"

function read_blocks :: "'h disk \<Rightarrow> 'h \<Rightarrow> u64 \<Rightarrow> u64 \<Rightarrow> bytes list" where
  "read_blocks d h off remaining =
     (if remaining = 0 then []
      else let got = read_at d h (want remaining) off []
           in if got = [] then []
              else got # read_blocks d h (off + of_nat (length got)) (remaining - of_nat (length got)))"
  by pat_completeness auto
termination
proof (relation "measure (\<lambda>(d, h, off, remaining). unat remaining)", goal_cases)
  case (2 d h off remaining got)
  have "length got \<le> want remaining"
    using read_at_length [of "[]" "want remaining" d h off] 2 by simp
  then have le: "length got \<le> unat remaining"
    by (simp add: want_def split: if_splits)
  moreover have "0 < length got" "0 < unat remaining"
    using 2 by (simp_all add: unat_gt_0)
  ultimately show ?case
    by (simp add: unat_u64_minus)
qed simp

declare read_blocks.simps [simp del]

definition read_request :: "'h disk \<Rightarrow> ReadRequest \<Rightarrow> bytes list" where
  "read_request d req =
     (case disk_open d (rq_pathname req) of
        None \<Rightarrow> []
      | Some h \<Rightarrow> read_blocks d h (rq_offset req) (rq_length req))"

section \<open>What is read\<close>

text \<open>A handle gives the bytes of a file: some of those at the offset, none only at the end.\<close>

definition reads_file :: "'h disk \<Rightarrow> 'h \<Rightarrow> bytes \<Rightarrow> bool" where
  "reads_file d h file \<longleftrightarrow>
     (\<forall>n off. 0 < n \<longrightarrow> (\<exists>m. disk_pread d h n off = Some (take m (drop (unat off) file)) \<and> m \<le> n \<and>
        (unat off < length file \<longrightarrow> 0 < m)))"

text \<open>All bytes of a window of the file are delivered, in order, in blocks of at most \<open>READ_BLOCK\<close>.\<close>

lemma read_at_reads:
  assumes "reads_file d h file" and "unat off + len < 2 ^ 64"
  shows "acc = take (length acc) (drop (unat off) file) \<Longrightarrow> length acc \<le> len \<Longrightarrow>
    read_at d h len off acc = take len (drop (unat off) file)"
proof (induction "len - length acc" arbitrary: acc rule: less_induct)
  case less
  show ?case
  proof (cases "length acc < len")
    case False
    then have "read_at d h len off acc = acc" and "length acc = len"
      using less.prems(2) by (simp_all add: read_at.simps [of d h len off acc])
    with less.prems(1) show ?thesis
      by simp
  next
    case True
    have pos: "unat (off + of_nat (length acc)) = unat off + length acc"
      using assms(2) True by (intro unat_u64_plus) simp
    obtain m where m: "disk_pread d h (len - length acc) (off + of_nat (length acc)) =
        Some (take m (drop (unat off + length acc) file))" "m \<le> len - length acc"
        "unat off + length acc < length file \<longrightarrow> 0 < m"
      using assms(1) [unfolded reads_file_def, rule_format, of "len - length acc" "off + of_nat (length acc)"] True
      unfolding pos by auto
    show ?thesis
    proof (cases "unat off + length acc < length file")
      case False
      then have "take len (drop (unat off) file) = acc"
      proof -
        have "length (drop (unat off) file) \<le> length acc"
          using False by simp
        with True have "take len (drop (unat off) file) = drop (unat off) file"
          "take (length acc) (drop (unat off) file) = drop (unat off) file"
          by simp_all
        with less.prems(1) show ?thesis by simp
      qed
      moreover have "take m (drop (unat off + length acc) file) = []"
        using False by simp
      ultimately show ?thesis
        using True m(1) by (simp add: read_at.simps [of d h len off acc])
    next
      case inside: True
      let ?acc = "acc @ take m (drop (unat off + length acc) file)"
      have ne: "take m (drop (unat off + length acc) file) \<noteq> []"
        using inside m(3) by simp
      have "take (len - length acc) (take m (drop (unat off + length acc) file)) = take m (drop (unat off + length acc) file)"
        using m(2) by (simp add: min_absorb2)
      then have "read_at d h len off acc = read_at d h len off ?acc"
        using True m(1) ne by (simp add: read_at.simps [of d h len off acc])
      also have "\<dots> = take len (drop (unat off) file)"
      proof (rule less.hyps)
        show "len - length ?acc < len - length acc"
          using ne True by (simp add: diff_less_mono2)
        show "?acc = take (length ?acc) (drop (unat off) file)"
        proof -
          have "length ?acc = length acc + min m (length file - (unat off + length acc))"
            by simp
          then show ?thesis
            using less.prems(1) by (simp add: take_add add.commute min_def)
        qed
        show "length ?acc \<le> len"
          using True m(2) by simp
      qed
      finally show ?thesis .
    qed
  qed
qed

lemma read_blocks_reads:
  assumes "reads_file d h file"
  shows "unat off + unat remaining < 2 ^ 64 \<Longrightarrow>
    concat (read_blocks d h off remaining) = take (unat remaining) (drop (unat off) file) \<and>
    list_all (\<lambda>b. b \<noteq> [] \<and> length b \<le> READ_BLOCK) (read_blocks d h off remaining)"
proof (induction "unat remaining" arbitrary: off remaining rule: less_induct)
  case less
  show ?case
  proof (cases "remaining = 0")
    case True
    then show ?thesis by (simp add: read_blocks.simps)
  next
    case False
    let ?n = "want remaining"
    have n: "?n \<le> unat remaining" "?n \<le> READ_BLOCK" "0 < ?n"
      using False by (auto simp: want_def unat_gt_0 READ_BLOCK_def)
    define got where "got = read_at d h ?n off []"
    have got: "got = take ?n (drop (unat off) file)"
      using read_at_reads [OF assms, of off ?n "[]"] less.prems n(1) by (simp add: got_def)
    have step: "read_blocks d h off remaining =
        (if got = [] then [] else got # read_blocks d h (off + of_nat (length got)) (remaining - of_nat (length got)))"
      using False by (simp add: read_blocks.simps [of d h off remaining] got_def Let_def)
    show ?thesis
    proof (cases "got = []")
      case True
      then have "drop (unat off) file = []"
        using got n(3) by simp
      with True step show ?thesis by simp
    next
      case ne: False
      have len: "length got \<le> ?n" "0 < length got"
        using ne by (simp_all add: got)
      have off: "unat (off + of_nat (length got)) = unat off + length got"
        using less.prems n(1) len(1) by (intro unat_u64_plus) linarith
      have rem: "unat (remaining - of_nat (length got)) = unat remaining - length got"
        using n(1) len(1) by (intro unat_u64_minus) linarith
      have "unat remaining - length got < unat remaining"
        using n len by linarith
      then have IH: "concat (read_blocks d h (off + of_nat (length got)) (remaining - of_nat (length got))) =
          take (unat remaining - length got) (drop (unat off + length got) file) \<and>
        list_all (\<lambda>b. b \<noteq> [] \<and> length b \<le> READ_BLOCK) (read_blocks d h (off + of_nat (length got)) (remaining - of_nat (length got)))"
        using less.hyps [of "remaining - of_nat (length got)" "off + of_nat (length got)"] less.prems n(1) len off rem by simp
      have "take (length got) (drop (unat off) file) = got"
        by (simp add: got min_def)
      then have "take (unat remaining) (drop (unat off) file) =
          got @ take (unat remaining - length got) (drop (unat off + length got) file)"
        using n(1) len(1) take_add [of "length got" "unat remaining - length got" "drop (unat off) file"]
        by (simp add: add.commute)
      with IH ne step n(2) len(1) show ?thesis by simp
    qed
  qed
qed

text \<open>What a task reads when its file can be opened: the window of the file it names.\<close>

lemma read_request_reads:
  assumes "disk_open d (rq_pathname req) = Some h" and "reads_file d h file"
    and "unat (rq_offset req) + unat (rq_length req) < 2 ^ 64"
  shows "concat (read_request d req) = take (unat (rq_length req)) (drop (unat (rq_offset req)) file)"
    and "list_all (\<lambda>b. b \<noteq> [] \<and> length b \<le> READ_BLOCK) (read_request d req)"
  using assms read_blocks_reads [OF assms(2,3)] by (simp_all add: read_request_def)

text \<open>Whatever \<open>pread\<close> does, the blocks fit their buffers.\<close>

lemma read_request_bounded: "list_all (\<lambda>b. b \<noteq> [] \<and> length b \<le> READ_BLOCK) (read_request d req)"
proof -
  have "list_all (\<lambda>b. b \<noteq> [] \<and> length b \<le> READ_BLOCK) (read_blocks d h off remaining)" for h off remaining
  proof (induction d h off remaining rule: read_blocks.induct)
    case (1 d h off remaining)
    have "length (read_at d h (want remaining) off []) \<le> READ_BLOCK"
      using read_at_length [of "[]" "want remaining" d h off] by (simp add: want_def split: if_splits)
    with 1 show ?case
      unfolding read_blocks.simps [of d h off remaining] by (simp add: Let_def)
  qed
  then show ?thesis
    by (simp add: read_request_def split: option.split)
qed

lemma read_request_length: "length (concat (read_request d req)) \<le> unat (rq_length req)"
proof -
  have "length (concat (read_blocks d h off remaining)) \<le> unat remaining" for h off remaining
  proof (induction d h off remaining rule: read_blocks.induct)
    case (1 d h off remaining)
    let ?got = "read_at d h (want remaining) off []"
    have "length ?got \<le> want remaining"
      using read_at_length [of "[]"] by simp
    then have "length ?got \<le> unat remaining"
      by (simp add: want_def split: if_splits)
    then show ?case
      using 1 unat_u64_minus [of "length ?got" remaining]
      unfolding read_blocks.simps [of d h off remaining] by (auto simp: Let_def)
  qed
  then show ?thesis
    by (simp add: read_request_def split: option.split)
qed

lemma copy_path_idem [simp]: "copy_path (copy_path p) = copy_path p"
proof -
  have "c_str (take n (c_str p)) = take n (c_str p)" for n
    unfolding c_str_def by (subst takeWhile_eq_all_conv) (auto dest!: in_set_takeD set_takeWhileD)
  then show ?thesis
    by (simp add: copy_path_def)
qed

section \<open>A disk in memory\<close>

text \<open>It reads at most three bytes at a time, so that the loops have something to do.\<close>

definition mem_disk :: "(string \<rightharpoonup> bytes) \<Rightarrow> bytes disk" where
  "mem_disk files = \<lparr>disk_open = files, disk_pread = (\<lambda>file n off. Some (take (min n 3) (drop (unat off) file)))\<rparr>"

lemma mem_disk_reads: "reads_file (mem_disk files) file file"
  by (auto simp: reads_file_def mem_disk_def intro: exI [of _ "min _ 3"])

end
