(* ===== verification/Scheduler.thy ===== *)
theory Scheduler
  imports Affinity Filter_Rules Storage_Reader
begin

text \<open>
  The uploader's scheduler, \<open>client/scheduler.h\<close>: it walks the roots, filters entries, cuts big
  files into chunks, and hands every unit to a worker.

  The workers are channels of a third-party package, each run by its own thread; what the scheduler
  asks them is the parameter \<open>worker_chans\<close>, with one state \<open>'c\<close> for all of them.  A directory tree is given
  as what the recursive iterator finds in it.  Log lines and the start of the threads are left out.
\<close>

section \<open>State and environment\<close>

datatype WorkerState = PENDING | READY | FAILED

record Config =
  cfg_workers :: nat
  bigFileThreshold :: u64
  chunkSize :: u64

record 'c worker_chans =
  isStopped :: "'c \<Rightarrow> nat \<Rightarrow> bool"
  occupancy :: "'c \<Rightarrow> nat \<Rightarrow> nat"
  warm :: "'c \<Rightarrow> nat \<Rightarrow> u32"
  awaitInit :: "'c \<Rightarrow> nat \<Rightarrow> bool \<times> 'c"
  chan_enqueue :: "'c \<Rightarrow> nat \<Rightarrow> Task \<Rightarrow> bool \<times> 'c"

record 'c Scheduler =
  workersStates :: "WorkerState list"
  chans :: 'c

definition busyThreshold :: nat where "busyThreshold = 32"

definition scheduler_new :: "Config \<Rightarrow> 'c \<Rightarrow> 'c Scheduler" where
  "scheduler_new cfg c = \<lparr>workersStates = replicate (cfg_workers cfg) PENDING, chans = c\<rparr>"

record Root =
  root_path :: string
  root_rules :: "Rule list"

definition addRoot :: "string \<Rightarrow> FilterRule list \<Rightarrow> Root list \<Rightarrow> Root list" where
  "addRoot p rules rts = rts @ [\<lparr>root_path = p, root_rules = map compileRule rules\<rparr>]"

section \<open>Choosing a worker\<close>

text \<open>The loop state: the best warm worker and its distance, the least busy one and its load.\<close>

definition no_worker :: u64 where "no_worker = - 1"

definition select_step :: "'c worker_chans \<Rightarrow> 'c \<Rightarrow> u32 \<Rightarrow> nat \<Rightarrow> u64 \<times> u32 \<times> u64 \<times> nat \<Rightarrow> u64 \<times> u32 \<times> u64 \<times> nat" where
  "select_step ops c incoming i acc =
     (case acc of (chosen, chosenDistance, minIdx, minCap) \<Rightarrow>
        if isStopped ops c i then acc
        else
          let wCap = occupancy ops c i;
              (minIdx', minCap') = (if wCap < minCap then (of_nat i, wCap) else (minIdx, minCap))
          in if busyThreshold \<le> wCap then (chosen, chosenDistance, minIdx', minCap')
             else let d = distance incoming (warm ops c i)
                  in if d < chosenDistance then (of_nat i, d, minIdx', minCap')
                     else (chosen, chosenDistance, minIdx', minCap'))"

definition selectWorker :: "'c worker_chans \<Rightarrow> 'c Scheduler \<Rightarrow> u32 \<Rightarrow> u64" where
  "selectWorker ops sch incoming =
     (case fold (select_step ops (chans sch) incoming) [0..<length (workersStates sch)]
             (no_worker, kWallCost + 1, no_worker, 128) of
        (chosen, chosenDistance, minIdx, minCap) \<Rightarrow> if chosen \<noteq> no_worker then chosen else minIdx)"

section \<open>Handing out a task\<close>

definition dispatch_index :: "u64 \<Rightarrow> nat \<Rightarrow> nat \<Rightarrow> nat" where
  "dispatch_index startIdx n k = unat ((startIdx + of_nat k) mod of_nat n)"

text \<open>The state of a worker, once it is known whether it could start.\<close>

definition init_worker :: "'c worker_chans \<Rightarrow> 'c Scheduler \<Rightarrow> nat \<Rightarrow> WorkerState \<times> 'c" where
  "init_worker ops sch i =
     (if workersStates sch ! i = PENDING
      then case awaitInit ops (chans sch) i of (ok, c) \<Rightarrow> (if ok then READY else FAILED, c)
      else (workersStates sch ! i, chans sch))"

fun dispatch_loop :: "'c worker_chans \<Rightarrow> u64 \<Rightarrow> Task \<Rightarrow> nat list \<Rightarrow> 'c Scheduler \<Rightarrow> bool \<times> 'c Scheduler" where
  "dispatch_loop ops startIdx t [] sch = (False, sch)"
| "dispatch_loop ops startIdx t (k # ks) sch =
     (let i = dispatch_index startIdx (length (workersStates sch)) k;
          (state, c) = init_worker ops sch i;
          sch1 = sch\<lparr>workersStates := (workersStates sch)[i := state], chans := c\<rparr>
      in if state = FAILED \<or> isStopped ops c i then dispatch_loop ops startIdx t ks sch1
         else case chan_enqueue ops c i t of
                (ok, c') \<Rightarrow>
                  if ok then (True, sch1\<lparr>chans := c'\<rparr>)
                  else dispatch_loop ops startIdx t ks (sch1\<lparr>chans := c'\<rparr>))"

definition dispatch_task :: "'c worker_chans \<Rightarrow> u64 \<Rightarrow> Task \<Rightarrow> 'c Scheduler \<Rightarrow> bool \<times> 'c Scheduler" where
  "dispatch_task ops startIdx t sch = dispatch_loop ops startIdx t [0..<length (workersStates sch)] sch"

section \<open>A file\<close>

text \<open>The loop over the chunks of a big file; \<^const>\<open>None\<close> is a loop that does not end.\<close>

partial_function (option) enqueue_chunks :: "'c worker_chans \<Rightarrow> Config \<Rightarrow> string \<Rightarrow> u64 \<Rightarrow> u64 \<Rightarrow> u64 \<Rightarrow> nat \<Rightarrow>
    'c Scheduler \<Rightarrow> (bool \<times> 'c Scheduler) option" where
  "enqueue_chunks ops cfg path fsize mtime offset n sch =
     (if offset < fsize
      then let len = min (chunkSize cfg) (fsize - offset);
               t = worker_task Chunk path offset len fsize mtime
           in case dispatch_task ops (of_nat (n mod length (workersStates sch))) t sch of
                (ok, sch') \<Rightarrow>
                  if \<not> ok then Some (False, sch')
                  else enqueue_chunks ops cfg path fsize mtime (offset + chunkSize cfg) (n + 1) sch'
      else Some (True, sch))"

text \<open>\<open>file_size\<close> and \<open>last_write_time\<close> may fail.\<close>

definition enqueue_entry :: "'c worker_chans \<Rightarrow> Config \<Rightarrow> string \<Rightarrow> u64 option \<Rightarrow> u64 option \<Rightarrow> 'c Scheduler \<Rightarrow>
    (bool \<times> 'c Scheduler) option" where
  "enqueue_entry ops cfg path file_size last_write_time sch =
     (case file_size of
        None \<Rightarrow> Some (True, sch)
      | Some fsize \<Rightarrow>
          let mtime = (case last_write_time of None \<Rightarrow> 0 | Some t \<Rightarrow> t)
          in if bigFileThreshold cfg \<le> fsize then enqueue_chunks ops cfg path fsize mtime 0 0 sch
             else Some (dispatch_task ops (selectWorker ops sch (forPath path)) (worker_task File path 0 fsize fsize mtime) sch))"

section \<open>The walk\<close>

datatype fsnode =
    FsDir string "fsnode list"
  | FsBadDir string
  | FsFile string "u64 option" "u64 option"
  | FsOther string
  | FsStatError string

datatype walk_result = Done | NoWorkers | WalkAborted

definition rel_append :: "string \<Rightarrow> string \<Rightarrow> string" where
  "rel_append rel name = (if rel = [] then name else rel @ ''/'' @ name)"

text \<open>
  The entries below a directory in the order of the iterator.  A directory that cannot be opened
  ends the walk when the iterator tries to enter it.
\<close>

fun walk :: "'c worker_chans \<Rightarrow> Config \<Rightarrow> Rule list \<Rightarrow> string \<Rightarrow> string \<Rightarrow> fsnode list \<Rightarrow> 'c Scheduler \<Rightarrow>
    (walk_result \<times> 'c Scheduler) option" where
  "walk ops cfg rules dir rel [] sch = Some (Done, sch)"
| "walk ops cfg rules dir rel (FsStatError name # ns) sch = walk ops cfg rules dir rel ns sch"
| "walk ops cfg rules dir rel (FsDir name children # ns) sch =
     (if keep rules (rel_append rel name) name True
      then case walk ops cfg rules (path_append dir name) (rel_append rel name) children sch of
             None \<Rightarrow> None
           | Some (Done, sch') \<Rightarrow> walk ops cfg rules dir rel ns sch'
           | Some (other, sch') \<Rightarrow> Some (other, sch')
      else walk ops cfg rules dir rel ns sch)"
| "walk ops cfg rules dir rel (FsBadDir name # ns) sch =
     (if keep rules (rel_append rel name) name True then Some (WalkAborted, sch) else walk ops cfg rules dir rel ns sch)"
| "walk ops cfg rules dir rel (FsOther name # ns) sch = walk ops cfg rules dir rel ns sch"
| "walk ops cfg rules dir rel (FsFile name file_size last_write_time # ns) sch =
     (if keep rules (rel_append rel name) name False
      then case enqueue_entry ops cfg (path_append dir name) file_size last_write_time sch of
             None \<Rightarrow> None
           | Some (False, sch') \<Rightarrow> Some (NoWorkers, sch')
           | Some (True, sch') \<Rightarrow> walk ops cfg rules dir rel ns sch'
      else walk ops cfg rules dir rel ns sch)"

text \<open>\<^const>\<open>None\<close> for the entries: the path is not a directory that can be read.\<close>

definition run_root :: "'c worker_chans \<Rightarrow> Config \<Rightarrow> Root \<Rightarrow> fsnode list option \<Rightarrow> 'c Scheduler \<Rightarrow> (bool \<times> 'c Scheduler) option" where
  "run_root ops cfg rt entries sch =
     (case entries of
        None \<Rightarrow> Some (False, sch)
      | Some ns \<Rightarrow>
          (case walk ops cfg (root_rules rt) (root_path rt) [] ns sch of
             None \<Rightarrow> None
           | Some (res, sch') \<Rightarrow> Some (res = Done, sch')))"

fun start_roots :: "'c worker_chans \<Rightarrow> Config \<Rightarrow> (string \<Rightarrow> fsnode list option) \<Rightarrow> Root list \<Rightarrow> bool \<Rightarrow> 'c Scheduler \<Rightarrow>
    (bool \<times> 'c Scheduler) option" where
  "start_roots ops cfg tree [] ok sch = Some (ok, sch)"
| "start_roots ops cfg tree (rt # rts) ok sch =
     (case run_root ops cfg rt (tree (root_path rt)) sch of
        None \<Rightarrow> None
      | Some (good, sch') \<Rightarrow> start_roots ops cfg tree rts (ok \<and> good) sch')"

section \<open>What is handed out\<close>

text \<open>
  \<open>queued\<close> gives the tasks the channels have taken so far, in order, each with its worker: a
  successful \<open>enqueue\<close> adds one, nothing else does.
\<close>

definition queues :: "'c worker_chans \<Rightarrow> ('c \<Rightarrow> (nat \<times> Task) list) \<Rightarrow> bool" where
  "queues ops queued \<longleftrightarrow>
     (\<forall>c i t ok c'. chan_enqueue ops c i t = (ok, c') \<longrightarrow> queued c' = queued c @ (if ok then [(i, t)] else [])) \<and>
     (\<forall>c i ok c'. awaitInit ops c i = (ok, c') \<longrightarrow> queued c' = queued c)"

lemma dispatch_index_less: "0 < n \<Longrightarrow> n < 2 ^ 64 \<Longrightarrow> dispatch_index startIdx n k < n"
proof -
  assume "0 < n" "n < 2 ^ 64"
  then have "unat (of_nat n :: u64) = n"
    by (intro unat_u64_of_nat)
  with \<open>0 < n\<close> show ?thesis
    by (simp add: dispatch_index_def unat_mod)
qed

lemma dispatch_loop_queues:
  assumes "queues ops queued"
  shows "dispatch_loop ops startIdx t ks sch = (ok, sch') \<Longrightarrow> length (workersStates sch) < 2 ^ 64 \<Longrightarrow>
    0 < length (workersStates sch) \<Longrightarrow>
    length (workersStates sch') = length (workersStates sch) \<and>
    (if ok then \<exists>i < length (workersStates sch). queued (chans sch') = queued (chans sch) @ [(i, t)] \<and> workersStates sch' ! i \<noteq> FAILED
     else queued (chans sch') = queued (chans sch))"
proof (induction ks arbitrary: sch)
  case Nil
  then show ?case by simp
next
  case (Cons k ks)
  let ?i = "dispatch_index startIdx (length (workersStates sch)) k"
  obtain state c where st: "init_worker ops sch ?i = (state, c)"
    by fastforce
  define sch1 where "sch1 = sch\<lparr>workersStates := (workersStates sch)[?i := state], chans := c\<rparr>"
  obtain ok' c' where enq: "chan_enqueue ops c ?i t = (ok', c')"
    by fastforce
  have q: "queued c = queued (chans sch)" "queued c' = queued c @ (if ok' then [(?i, t)] else [])"
    using assms st enq by (auto simp: queues_def init_worker_def split: if_splits prod.splits)
  have i: "?i < length (workersStates sch)"
    using dispatch_index_less Cons.prems by blast
  have run: "(if state = FAILED \<or> isStopped ops c ?i then dispatch_loop ops startIdx t ks sch1
      else if ok' then (True, sch1\<lparr>chans := c'\<rparr>) else dispatch_loop ops startIdx t ks (sch1\<lparr>chans := c'\<rparr>)) = (ok, sch')"
    using Cons.prems(1) by (auto simp: Let_def st enq sch1_def split: if_splits)
  show ?case
    using run q i Cons.IH [of sch1] Cons.IH [of "sch1\<lparr>chans := c'\<rparr>"] Cons.prems(2,3)
    by (auto simp: sch1_def split: if_splits)
qed

lemma dispatch_queues:
  assumes "queues ops queued" and "dispatch_task ops startIdx t sch = (ok, sch')" and "length (workersStates sch) < 2 ^ 64"
  shows "length (workersStates sch') = length (workersStates sch) \<and>
    map snd (queued (chans sch')) = map snd (queued (chans sch)) @ (if ok then [t] else [])"
proof (cases "length (workersStates sch) = 0")
  case True
  then show ?thesis
    using assms(2) by (auto simp: dispatch_task_def)
next
  case False
  then show ?thesis
    using dispatch_loop_queues [OF assms(1) assms(2) [unfolded dispatch_task_def] assms(3)] by auto
qed

section \<open>The tasks of a file and of a tree\<close>

text \<open>The chunks of a file from an offset on.\<close>

function chunks_from :: "u64 \<Rightarrow> string \<Rightarrow> u64 \<Rightarrow> u64 \<Rightarrow> nat \<Rightarrow> Task list" where
  "chunks_from csize path fsize mtime off =
     (if 0 < unat csize \<and> off < unat fsize
      then worker_task Chunk path (of_nat off) (of_nat (min (unat csize) (unat fsize - off))) fsize mtime #
        chunks_from csize path fsize mtime (off + unat csize)
      else [])"
  by pat_completeness auto
termination
  by (relation "measure (\<lambda>(csize, path, fsize, mtime, off). unat fsize - off)") auto

declare chunks_from.simps [simp del]

definition file_tasks :: "Config \<Rightarrow> string \<Rightarrow> u64 option \<Rightarrow> u64 option \<Rightarrow> Task list" where
  "file_tasks cfg path file_size last_write_time =
     (case file_size of
        None \<Rightarrow> []
      | Some fsize \<Rightarrow>
          let mtime = (case last_write_time of None \<Rightarrow> 0 | Some t \<Rightarrow> t)
          in if bigFileThreshold cfg \<le> fsize then chunks_from (chunkSize cfg) path fsize mtime 0
             else [worker_task File path 0 fsize fsize mtime])"

fun tree_tasks :: "Config \<Rightarrow> Rule list \<Rightarrow> string \<Rightarrow> string \<Rightarrow> fsnode list \<Rightarrow> Task list" where
  "tree_tasks cfg rules dir rel [] = []"
| "tree_tasks cfg rules dir rel (FsDir name children # ns) =
     (if keep rules (rel_append rel name) name True
      then tree_tasks cfg rules (path_append dir name) (rel_append rel name) children else []) @ tree_tasks cfg rules dir rel ns"
| "tree_tasks cfg rules dir rel (FsFile name file_size last_write_time # ns) =
     (if keep rules (rel_append rel name) name False
      then file_tasks cfg (path_append dir name) file_size last_write_time else []) @ tree_tasks cfg rules dir rel ns"
| "tree_tasks cfg rules dir rel (other # ns) = tree_tasks cfg rules dir rel ns"

text \<open>No loop over chunks may pass the largest offset.\<close>

definition config_ok :: "Config \<Rightarrow> bool" where
  "config_ok cfg \<longleftrightarrow> 0 < chunkSize cfg \<and> cfg_workers cfg < 2 ^ 64"

fun sizes_ok :: "Config \<Rightarrow> fsnode list \<Rightarrow> bool" where
  "sizes_ok cfg [] = True"
| "sizes_ok cfg (FsDir name children # ns) = (sizes_ok cfg children \<and> sizes_ok cfg ns)"
| "sizes_ok cfg (FsFile name file_size last_write_time # ns) =
     ((\<forall>fsize\<in>set_option file_size. unat fsize + unat (chunkSize cfg) \<le> 2 ^ 64) \<and> sizes_ok cfg ns)"
| "sizes_ok cfg (other # ns) = sizes_ok cfg ns"

text \<open>
  The scheduler has handed out the tasks of a list in order: all of them, or those up to the
  first that no worker took.
\<close>

definition handed :: "('c \<Rightarrow> (nat \<times> Task) list) \<Rightarrow> Task list \<Rightarrow> bool \<Rightarrow> 'c Scheduler \<Rightarrow> 'c Scheduler \<Rightarrow> bool" where
  "handed queued ts ok sch sch' \<longleftrightarrow>
     length (workersStates sch') = length (workersStates sch) \<and>
     (\<exists>given rest. ts = given @ rest \<and> map snd (queued (chans sch')) = map snd (queued (chans sch)) @ given \<and> (ok \<longrightarrow> rest = []))"

lemma handed_Nil [simp]: "handed queued [] ok sch sch"
  by (simp add: handed_def)

lemma handed_append:
  assumes "handed queued ts True sch sch1" and "handed queued us ok sch1 sch2"
  shows "handed queued (ts @ us) ok sch sch2"
  using assms unfolding handed_def by auto

lemma handed_stop:
  assumes "handed queued ts False sch sch1"
  shows "handed queued (ts @ us) False sch sch1"
  using assms unfolding handed_def by auto

lemma handed_dispatch:
  assumes "queues ops queued" and "dispatch_task ops startIdx t sch = (ok, sch')" and "length (workersStates sch) < 2 ^ 64"
  shows "handed queued [t] ok sch sch'"
  using dispatch_queues [OF assms] by (cases ok) (auto simp: handed_def)

lemma enqueue_chunks_handed:
  assumes "queues ops queued" and "0 < unat (chunkSize cfg)" and "unat fsize + unat (chunkSize cfg) \<le> 2 ^ 64"
  shows "off < 2 ^ 64 \<Longrightarrow> length (workersStates sch) < 2 ^ 64 \<Longrightarrow>
    \<exists>ok sch'. enqueue_chunks ops cfg path fsize mtime (of_nat off) n sch = Some (ok, sch') \<and>
      handed queued (chunks_from (chunkSize cfg) path fsize mtime off) ok sch sch'"
proof (induction "unat fsize - off" arbitrary: off n sch rule: less_induct)
  case less
  let ?cs = "chunkSize cfg"
  have off: "unat (of_nat off :: u64) = off"
    using less.prems(1) by (rule unat_u64_of_nat)
  show ?case
  proof (cases "off < unat fsize")
    case False
    then have "\<not> of_nat off < fsize"
      by (simp add: word_less_nat_alt off)
    with False show ?thesis
      by (auto simp: enqueue_chunks.simps [of ops cfg path fsize mtime "of_nat off"] chunks_from.simps [of _ _ _ _ off])
  next
    case True
    then have lt: "(of_nat off :: u64) < fsize"
      by (simp add: word_less_nat_alt off)
    have diff: "unat (fsize - of_nat off) = unat fsize - off"
      using True by (intro unat_u64_minus) simp
    have "unat (min ?cs (fsize - of_nat off)) = min (unat ?cs) (unat fsize - off)"
      by (simp add: min_def word_le_nat_alt diff)
    then have len: "min ?cs (fsize - of_nat off) = of_nat (min (unat ?cs) (unat fsize - off))"
      by (metis of_nat_unat ucast_id)
    let ?t = "worker_task Chunk path (of_nat off) (of_nat (min (unat ?cs) (unat fsize - off))) fsize mtime"
    obtain ok sch1 where dis: "dispatch_task ops (of_nat (n mod length (workersStates sch))) ?t sch = (ok, sch1)"
      by fastforce
    note given = handed_dispatch [OF assms(1) dis less.prems(2)]
    have tasks: "chunks_from ?cs path fsize mtime off = [?t] @ chunks_from ?cs path fsize mtime (off + unat ?cs)"
      using True assms(2) by (simp add: chunks_from.simps [of _ _ _ _ off])
    show ?thesis
    proof (cases ok)
      case False
      then have "enqueue_chunks ops cfg path fsize mtime (of_nat off) n sch = Some (False, sch1)"
        using lt dis by (simp add: enqueue_chunks.simps [of ops cfg path fsize mtime "of_nat off"] len)
      moreover have "handed queued [?t] False sch sch1"
        using given False by simp
      ultimately show ?thesis
        unfolding tasks using handed_stop by blast
    next
      case ok: True
      have "of_nat off + ?cs = of_nat (off + unat ?cs)"
        by simp
      then have run: "enqueue_chunks ops cfg path fsize mtime (of_nat off) n sch =
          enqueue_chunks ops cfg path fsize mtime (of_nat (off + unat ?cs)) (n + 1) sch1"
        using lt dis ok by (simp add: enqueue_chunks.simps [of ops cfg path fsize mtime "of_nat off"] len)
      have "unat fsize - (off + unat ?cs) < unat fsize - off" "off + unat ?cs < 2 ^ 64" "length (workersStates sch1) < 2 ^ 64"
        using True assms(2,3) given less.prems(2) by (simp_all add: handed_def)
      from less.hyps [OF this, of "n + 1"] obtain ok' sch' where
        "enqueue_chunks ops cfg path fsize mtime (of_nat (off + unat ?cs)) (n + 1) sch1 = Some (ok', sch')"
        "handed queued (chunks_from ?cs path fsize mtime (off + unat ?cs)) ok' sch1 sch'"
        by blast
      moreover have "handed queued [?t] True sch sch1"
        using given ok by simp
      ultimately show ?thesis
        unfolding run tasks using handed_append by blast
    qed
  qed
qed

lemma enqueue_entry_handed:
  assumes "queues ops queued" and "config_ok cfg" and "\<forall>fsize\<in>set_option file_size. unat fsize + unat (chunkSize cfg) \<le> 2 ^ 64"
    and "length (workersStates sch) < 2 ^ 64"
  shows "\<exists>ok sch'. enqueue_entry ops cfg path file_size lwt sch = Some (ok, sch') \<and>
    handed queued (file_tasks cfg path file_size lwt) ok sch sch'"
proof (cases file_size)
  case None
  then show ?thesis
    by (auto simp: enqueue_entry_def file_tasks_def)
next
  case (Some fsize)
  define mtime where "mtime = (case lwt of None \<Rightarrow> 0 | Some t \<Rightarrow> t)"
  show ?thesis
  proof (cases "bigFileThreshold cfg \<le> fsize")
    case True
    have "0 < unat (chunkSize cfg)" "unat fsize + unat (chunkSize cfg) \<le> 2 ^ 64"
      using assms(2,3) Some by (auto simp: config_ok_def unat_gt_0)
    from enqueue_chunks_handed [OF assms(1) this, of 0 sch path mtime 0] assms(4) True Some show ?thesis
      by (simp add: enqueue_entry_def file_tasks_def mtime_def)
  next
    case False
    let ?t = "worker_task File path 0 fsize fsize mtime"
    obtain ok sch' where dis: "dispatch_task ops (selectWorker ops sch (forPath path)) ?t sch = (ok, sch')"
      by fastforce
    with handed_dispatch [OF assms(1) dis assms(4)] False Some show ?thesis
      by (simp add: enqueue_entry_def file_tasks_def mtime_def)
  qed
qed

text \<open>A directory that cannot be opened ends the walk; the tasks of the entries before it have been handed out.\<close>

lemma walk_handed:
  assumes "queues ops queued" and "config_ok cfg" and "sizes_ok cfg ns" and "length (workersStates sch) < 2 ^ 64"
  shows "\<exists>res sch'. walk ops cfg rules dir rel ns sch = Some (res, sch') \<and>
    handed queued (tree_tasks cfg rules dir rel ns) (res = Done) sch sch'"
  using assms
proof (induction ops cfg rules dir rel ns sch rule: walk.induct)
  case (3 ops cfg rules dir rel name children ns sch)
  show ?case
  proof (cases "keep rules (rel_append rel name) name True")
    case False
    with "3.IH"(3) [OF False] "3.prems" show ?thesis
      by simp
  next
    case True
    from "3.IH"(1) [OF True] "3.prems" obtain res sch1 where
      run: "walk ops cfg rules (path_append dir name) (rel_append rel name) children sch = Some (res, sch1)"
        "handed queued (tree_tasks cfg rules (path_append dir name) (rel_append rel name) children) (res = Done) sch sch1"
      by auto
    show ?thesis
    proof (cases "res = Done")
      case False
      with run True handed_stop [of queued _ sch sch1 "tree_tasks cfg rules dir rel ns"] show ?thesis
        by (cases res) auto
    next
      case fin: True
      have "length (workersStates sch1) < 2 ^ 64"
        using run(2) "3.prems"(4) by (simp add: handed_def)
      with "3.IH"(2) [OF True run(1) refl] "3.prems" fin obtain res' sch2 where
        "walk ops cfg rules dir rel ns sch1 = Some (res', sch2)" "handed queued (tree_tasks cfg rules dir rel ns) (res' = Done) sch1 sch2"
        by auto
      with run True fin show ?thesis
        by (auto intro: handed_append)
    qed
  qed
next
  case (6 ops cfg rules dir rel name file_size last_write_time ns sch)
  show ?case
  proof (cases "keep rules (rel_append rel name) name False")
    case False
    with "6.IH"(2) [OF False] "6.prems" show ?thesis
      by simp
  next
    case True
    from enqueue_entry_handed [OF "6.prems"(1,2) _ "6.prems"(4), of file_size "path_append dir name" last_write_time] "6.prems"(3)
    obtain ok sch1 where run: "enqueue_entry ops cfg (path_append dir name) file_size last_write_time sch = Some (ok, sch1)"
        "handed queued (file_tasks cfg (path_append dir name) file_size last_write_time) ok sch sch1"
      by auto
    show ?thesis
    proof (cases ok)
      case False
      with run True handed_stop [of queued _ sch sch1 "tree_tasks cfg rules dir rel ns"] show ?thesis
        by auto
    next
      case ok: True
      have "length (workersStates sch1) < 2 ^ 64"
        using run(2) "6.prems"(4) by (simp add: handed_def)
      with "6.IH"(1) [OF True run(1) refl] "6.prems" ok obtain res sch2 where
        "walk ops cfg rules dir rel ns sch1 = Some (res, sch2)" "handed queued (tree_tasks cfg rules dir rel ns) (res = Done) sch1 sch2"
        by auto
      with run True ok show ?thesis
        by (auto intro: handed_append)
    qed
  qed
next
  case (4 ops cfg rules dir rel name ns sch)
  then show ?case
    by (cases "keep rules (rel_append rel name) name True") (auto simp: handed_def)
qed auto

section \<open>Which workers are tried\<close>

lemma dispatch_index_value:
  assumes "0 < n" and "unat startIdx + k < 2 ^ 64" and "n < 2 ^ 64"
  shows "dispatch_index startIdx n k = (unat startIdx + k) mod n"
  using assms(2,3) unat_u64_plus [of startIdx k] unat_u64_of_nat [of n]
  by (simp add: dispatch_index_def unat_mod)

text \<open>A worker that starts, is not stopped and takes what it is given.\<close>

definition takes_tasks :: "'c worker_chans \<Rightarrow> nat \<Rightarrow> bool" where
  "takes_tasks ops j \<longleftrightarrow> (\<forall>c. \<not> isStopped ops c j \<and> fst (awaitInit ops c j) \<and> (\<forall>t. fst (chan_enqueue ops c j t)))"

lemma dispatch_loop_finds:
  assumes "takes_tasks ops j"
  shows "workersStates sch ! j \<noteq> FAILED \<Longrightarrow> j \<in> dispatch_index startIdx (length (workersStates sch)) ` set ks \<Longrightarrow>
    fst (dispatch_loop ops startIdx t ks sch)"
proof (induction ks arbitrary: sch)
  case Nil
  then show ?case by simp
next
  case (Cons k ks)
  let ?i = "dispatch_index startIdx (length (workersStates sch)) k"
  obtain state c where st: "init_worker ops sch ?i = (state, c)"
    by fastforce
  obtain ok' c' where enq: "chan_enqueue ops c ?i t = (ok', c')"
    by fastforce
  show ?case
  proof (cases "?i = j")
    case True
    have "fst (awaitInit ops (chans sch) j)" "\<not> isStopped ops c j" "fst (chan_enqueue ops c j t)"
      using assms by (simp_all add: takes_tasks_def)
    then have "state \<noteq> FAILED" "\<not> isStopped ops c ?i" ok'
      using st enq True Cons.prems(1) by (auto simp: init_worker_def split: if_splits prod.splits)
    then show ?thesis
      by (simp add: Let_def st enq)
  next
    case False
    then show ?thesis
      using Cons.IH Cons.prems by (auto simp: Let_def st enq)
  qed
qed


text \<open>Workers that put every task into one list.\<close>

definition list_chans :: "(nat \<times> Task) list worker_chans" where
  "list_chans = \<lparr>isStopped = (\<lambda>c i. False), occupancy = (\<lambda>c i. length (filter (\<lambda>(j, t). j = i) c)), warm = (\<lambda>c i. 0),
     awaitInit = (\<lambda>c i. (True, c)), chan_enqueue = (\<lambda>c i t. (True, c @ [(i, t)]))\<rparr>"

lemma list_chans_queues: "queues list_chans (\<lambda>c. c)"
  by (simp add: queues_def list_chans_def)


text \<open>
  The bound on the start matters: when every worker is full, \<open>selectWorker\<close> gives the largest
  number there is, the sum wraps around, and of three workers the last is never tried.
\<close>

lemma dispatch_wraps: "map (dispatch_index no_worker 3) [0..<3] = [0, 0, 1]"
  by code_simp

text \<open>A chunk size of zero never ends as long as the workers take tasks.\<close>

lemma zero_chunks_diverge:
  assumes "chunkSize cfg = 0" and "\<And>start t sch. fst (dispatch_task ops start t sch)"
  shows "offset < fsize \<Longrightarrow> enqueue_chunks ops cfg path fsize mtime offset n sch = None"
proof (rule ccontr)
  assume off: "offset < fsize" and "enqueue_chunks ops cfg path fsize mtime offset n sch \<noteq> None"
  then obtain r where r: "enqueue_chunks ops cfg path fsize mtime offset n sch = Some r"
    by blast
  have "ops = ops \<longrightarrow> cfg = cfg \<longrightarrow> \<not> offset < fsize"
  proof (rule enqueue_chunks.raw_induct [where
        P = "\<lambda>ops' cfg' path fsize mtime offset n sch r. ops' = ops \<longrightarrow> cfg' = cfg \<longrightarrow> \<not> offset < fsize", OF _ r])
    fix rec ops' cfg' path fsize mtime offset n sch y
    assume IH: "\<And>ops' cfg' path fsize mtime offset n sch y. rec ops' cfg' path fsize mtime offset n sch = Some y \<Longrightarrow>
        ops' = ops \<longrightarrow> cfg' = cfg \<longrightarrow> \<not> offset < fsize"
      and body: "(if offset < fsize
        then let len = min (chunkSize cfg') (fsize - offset); t = worker_task Chunk path offset len fsize mtime
             in case dispatch_task ops' (of_nat (n mod length (workersStates sch))) t sch of
                  (ok, sch') \<Rightarrow> if \<not> ok then Some (False, sch')
                    else rec ops' cfg' path fsize mtime (offset + chunkSize cfg') (n + 1) sch'
        else Some (True, sch)) = Some y"
    show "ops' = ops \<longrightarrow> cfg' = cfg \<longrightarrow> \<not> offset < fsize"
    proof (intro impI notI)
      assume eq: "ops' = ops" "cfg' = cfg" and lt: "offset < fsize"
      let ?t = "worker_task Chunk path offset (min (chunkSize cfg) (fsize - offset)) fsize mtime"
      obtain sch' where "dispatch_task ops (of_nat (n mod length (workersStates sch))) ?t sch = (True, sch')"
        using assms(2) [of "of_nat (n mod length (workersStates sch))" ?t sch] by (metis prod.collapse)
      with body eq lt have "rec ops cfg path fsize mtime (offset + chunkSize cfg) (n + 1) sch' = Some y"
        by (simp add: Let_def)
      with IH assms(1) lt show False
        by fastforce
    qed
  qed
  with off show False by simp
qed

section \<open>A root\<close>


definition sample_client_config :: Config where
  "sample_client_config = \<lparr>cfg_workers = 2, bigFileThreshold = 4, chunkSize = 2\<rparr>"

definition sample_tree :: "fsnode list" where
  "sample_tree = [FsFile ''a'' (Some 3) None, FsDir ''d'' [FsFile ''x.log'' (Some 1) None, FsFile ''b'' (Some 5) (Some 9)], FsOther ''s'']"

definition sample_root :: Root where
  "sample_root = hd (addRoot ''r'' [\<lparr>fr_include = False, fr_pattern = ''*.log''\<rparr>] [])"

lemma sample_tree_tasks:
  "tree_tasks sample_client_config (root_rules sample_root) (root_path sample_root) [] sample_tree =
    [worker_task File ''r/a'' 0 3 3 0, worker_task Chunk ''r/d/b'' 0 2 5 9, worker_task Chunk ''r/d/b'' 2 2 5 9,
     worker_task Chunk ''r/d/b'' 4 1 5 9]"
  by code_simp


end
