(* ===== verification/Compressor.thy ===== *)
theory Compressor
  imports Decompressor Storage_Reader
begin

text \<open>
  \<open>client/compressor.h\<close>: the streaming compressors of the uploader, which turn one block read from a
  file into at most one buffer of compressed bytes, and flush at the end of a unit.  The calls of
  zstd and lz4 are a parameter (\<open>codec\<close>); an error of a call is \<^const>\<open>None\<close>.  What is relied on is
  stated against the decoder of \<open>Decompressor\<close>.
\<close>

section \<open>The libraries\<close>

datatype ZSTD_EndDirective = ZSTD_e_continue | ZSTD_e_flush | ZSTD_e_end

text \<open>
  A call gets the space left in the output buffer and the input not yet consumed.
  \<open>ZSTD_compressStream2\<close> gives the bytes it produced, how many input bytes it consumed, and what it
  returns (the bytes it still holds back); the lz4 calls give the bytes they produced.
\<close>

record 'k codec =
  zstd_compress :: "'k \<Rightarrow> nat \<Rightarrow> bytes \<Rightarrow> ZSTD_EndDirective \<Rightarrow> 'k \<times> (bytes \<times> nat \<times> nat) option"
  lz4_compress_begin :: "'k \<Rightarrow> nat \<Rightarrow> 'k \<times> bytes option"
  lz4_compress_update :: "'k \<Rightarrow> nat \<Rightarrow> bytes \<Rightarrow> 'k \<times> bytes option"
  lz4_compress_flush :: "'k \<Rightarrow> nat \<Rightarrow> 'k \<times> bytes option"

record 'k StreamCompressor =
  comp_algo :: CompressionAlgo
  cctx :: 'k
  started :: bool

text \<open>The output buffer of the worker.\<close>

definition OUT_BUF_SIZE :: nat where "OUT_BUF_SIZE = READ_BLOCK + READ_BLOCK div 16 + 1024"

section \<open>Zstd\<close>

text \<open>
  The two loops, with the bytes already in the output buffer; what they return is the part of the buffer
  that counts, which is empty after an error.
\<close>

partial_function (option) zstd_update_loop ::
    "'k codec \<Rightarrow> nat \<Rightarrow> 'k \<Rightarrow> bytes \<Rightarrow> bytes \<Rightarrow> (bytes \<times> 'k) option" where
  "zstd_update_loop cd cap k acc input =
     (if input = [] then Some (acc, k)
      else case zstd_compress cd k (cap - length acc) input ZSTD_e_continue of
             (k', None) \<Rightarrow> Some ([], k')
           | (k', Some (out, consumed, _)) \<Rightarrow>
               if length (acc @ out) = cap \<and> drop consumed input \<noteq> [] then Some ([], k')
               else zstd_update_loop cd cap k' (acc @ out) (drop consumed input))"

partial_function (option) zstd_flush_loop :: "'k codec \<Rightarrow> nat \<Rightarrow> 'k \<Rightarrow> bytes \<Rightarrow> (bytes \<times> 'k) option" where
  "zstd_flush_loop cd cap k acc =
     (case zstd_compress cd k (cap - length acc) [] ZSTD_e_flush of
        (k', None) \<Rightarrow> Some ([], k')
      | (k', Some (out, consumed, remaining)) \<Rightarrow>
          if remaining = 0 then Some (acc @ out, k')
          else if length (acc @ out) = cap then Some ([], k')
          else zstd_flush_loop cd cap k' (acc @ out))"

section \<open>Lz4\<close>

definition lz4_update :: "'k codec \<Rightarrow> nat \<Rightarrow> 'k StreamCompressor \<Rightarrow> bytes \<Rightarrow> bytes \<times> 'k StreamCompressor" where
  "lz4_update cd cap c input =
     (case (if started c then (c, Some [])
            else case lz4_compress_begin cd (cctx c) cap of
                   (k, None) \<Rightarrow> (c\<lparr>cctx := k\<rparr>, None)
                 | (k, Some head) \<Rightarrow> (c\<lparr>cctx := k, started := True\<rparr>, Some head)) of
        (c1, None) \<Rightarrow> ([], c1)
      | (c1, Some produced) \<Rightarrow>
          (case lz4_compress_update cd (cctx c1) (cap - length produced) input of
             (k, None) \<Rightarrow> ([], c1\<lparr>cctx := k\<rparr>)
           | (k, Some body) \<Rightarrow> (produced @ body, c1\<lparr>cctx := k\<rparr>)))"

definition lz4_flush :: "'k codec \<Rightarrow> nat \<Rightarrow> 'k StreamCompressor \<Rightarrow> bytes \<times> 'k StreamCompressor" where
  "lz4_flush cd cap c =
     (case lz4_compress_flush cd (cctx c) cap of
        (k, None) \<Rightarrow> ([], c\<lparr>cctx := k\<rparr>)
      | (k, Some flushed) \<Rightarrow> (flushed, c\<lparr>cctx := k\<rparr>))"

section \<open>The virtual calls\<close>

definition makeCompressor :: "CompressionAlgo \<Rightarrow> 'k \<Rightarrow> 'k StreamCompressor option" where
  "makeCompressor a k =
     (if a = Lz4 \<or> a = Zstd then Some \<lparr>comp_algo = a, cctx = k, started = False\<rparr> else None)"

definition comp_update :: "'k codec \<Rightarrow> nat \<Rightarrow> 'k StreamCompressor \<Rightarrow> bytes \<Rightarrow> (bytes \<times> 'k StreamCompressor) option" where
  "comp_update cd cap c input =
     (if comp_algo c = Zstd
      then map_option (\<lambda>(out, k). (out, c\<lparr>cctx := k\<rparr>)) (zstd_update_loop cd cap (cctx c) [] input)
      else Some (lz4_update cd cap c input))"

definition comp_flush :: "'k codec \<Rightarrow> nat \<Rightarrow> 'k StreamCompressor \<Rightarrow> (bytes \<times> 'k StreamCompressor) option" where
  "comp_flush cd cap c =
     (if comp_algo c = Zstd
      then map_option (\<lambda>(out, k). (out, c\<lparr>cctx := k\<rparr>)) (zstd_flush_loop cd cap (cctx c) [])
      else Some (lz4_flush cd cap c))"

section \<open>What the libraries document\<close>

text \<open>
  \<open>coding k sent taken\<close>: a compressor in context \<open>k\<close> has so far emitted \<open>sent\<close> and taken the input \<open>taken\<close>.
  Calls keep this up; a call consumes its input unless the output buffer is full, which it is not for one
  block of the reader; and once a flush has nothing left, a decoder that is given what was sent delivers
  what was taken.
\<close>

definition zstd_documented ::
    "'k codec \<Rightarrow> (bytes \<Rightarrow> bytes option) \<Rightarrow> ('k \<Rightarrow> bytes \<Rightarrow> bytes \<Rightarrow> bool) \<Rightarrow> bool" where
  "zstd_documented cd decode coding \<longleftrightarrow>
     (\<forall>k sent taken cap input dir. coding k sent taken \<longrightarrow> 0 < cap \<longrightarrow>
        (\<exists>k' out consumed remaining. zstd_compress cd k cap input dir = (k', Some (out, consumed, remaining)) \<and>
           length out \<le> cap \<and> consumed \<le> length input \<and> (consumed = length input \<or> length out = cap) \<and>
           coding k' (sent @ out) (taken @ take consumed input) \<and>
           (cap = OUT_BUF_SIZE \<longrightarrow> length input \<le> READ_BLOCK \<longrightarrow> length out < cap) \<and>
           (dir = ZSTD_e_flush \<longrightarrow> (remaining = 0 \<or> length out = cap) \<and>
              (remaining = 0 \<longrightarrow> decode (sent @ out) = Some (taken @ take consumed input)))))"

definition lz4_documented ::
    "'k codec \<Rightarrow> (bytes \<Rightarrow> bytes option) \<Rightarrow> ('k \<Rightarrow> bytes \<Rightarrow> bytes \<Rightarrow> bool) \<Rightarrow> bool" where
  "lz4_documented cd decode coding \<longleftrightarrow>
     (\<forall>k sent taken. coding k sent taken \<longrightarrow>
        (\<exists>k' out. lz4_compress_begin cd k OUT_BUF_SIZE = (k', Some out) \<and> length out \<le> 19 \<and> coding k' (sent @ out) taken) \<and>
        (\<forall>cap input. OUT_BUF_SIZE \<le> cap + 19 \<longrightarrow> length input \<le> READ_BLOCK \<longrightarrow>
          (\<exists>k' out. lz4_compress_update cd k cap input = (k', Some out) \<and> length out \<le> cap \<and> coding k' (sent @ out) (taken @ input))) \<and>
        (\<exists>k' out. lz4_compress_flush cd k OUT_BUF_SIZE = (k', Some out) \<and> length out \<le> OUT_BUF_SIZE \<and>
           coding k' (sent @ out) taken \<and> decode (sent @ out) = Some taken))"

definition codec_documented ::
    "'k codec \<Rightarrow> (bytes \<Rightarrow> bytes option) \<Rightarrow> ('k \<Rightarrow> bytes \<Rightarrow> bytes \<Rightarrow> bool) \<Rightarrow> bool" where
  "codec_documented cd decode coding \<longleftrightarrow> zstd_documented cd decode coding \<and> lz4_documented cd decode coding"

section \<open>What the compressors do\<close>

lemma out_buf_room: "0 < OUT_BUF_SIZE" "19 \<le> OUT_BUF_SIZE"
  by (simp_all add: OUT_BUF_SIZE_def READ_BLOCK_def)

lemma zstd_update_codes:
  assumes "zstd_documented cd decode coding" and "coding k sent taken" and "length input \<le> READ_BLOCK"
  shows "\<exists>out k'. zstd_update_loop cd OUT_BUF_SIZE k [] input = Some (out, k') \<and> length out \<le> OUT_BUF_SIZE \<and>
    coding k' (sent @ out) (taken @ input)"
proof (cases "input = []")
  case True
  with assms(2) show ?thesis
    by (auto simp: zstd_update_loop.simps)
next
  case False
  obtain k' out consumed remaining where call:
      "zstd_compress cd k OUT_BUF_SIZE input ZSTD_e_continue = (k', Some (out, consumed, remaining))"
      "consumed = length input \<or> length out = OUT_BUF_SIZE" "length out < OUT_BUF_SIZE"
      "coding k' (sent @ out) (taken @ take consumed input)"
    using assms out_buf_room(1) unfolding zstd_documented_def by blast
  then show ?thesis
    using False by (auto simp: zstd_update_loop.simps [of _ _ k] zstd_update_loop.simps [of _ _ k'])
qed

lemma zstd_flush_codes:
  assumes "zstd_documented cd decode coding" and "coding k sent taken"
  shows "\<exists>out k'. zstd_flush_loop cd OUT_BUF_SIZE k [] = Some (out, k') \<and> length out \<le> OUT_BUF_SIZE \<and>
    coding k' (sent @ out) taken \<and> decode (sent @ out) = Some taken"
proof -
  have "length ([] :: bytes) \<le> READ_BLOCK"
    by simp
  with assms out_buf_room(1) obtain k' out consumed remaining where call:
      "zstd_compress cd k OUT_BUF_SIZE [] ZSTD_e_flush = (k', Some (out, consumed, remaining))"
      "length out < OUT_BUF_SIZE" "remaining = 0 \<or> length out = OUT_BUF_SIZE"
      "coding k' (sent @ out) (taken @ take consumed [])"
      "remaining = 0 \<longrightarrow> decode (sent @ out) = Some (taken @ take consumed [])"
    unfolding zstd_documented_def by (metis (no_types))
  then show ?thesis
    by (auto simp: zstd_flush_loop.simps [of _ _ k])
qed

lemma comp_update_codes:
  assumes "codec_documented cd decode coding" and "comp_algo c = Zstd \<or> comp_algo c = Lz4"
    and "coding (cctx c) sent taken" and "length input \<le> READ_BLOCK"
  shows "\<exists>out c'. comp_update cd OUT_BUF_SIZE c input = Some (out, c') \<and> length out \<le> OUT_BUF_SIZE \<and>
    comp_algo c' = comp_algo c \<and> coding (cctx c') (sent @ out) (taken @ input)"
  using assms(2)
proof
  assume "comp_algo c = Zstd"
  then show ?thesis
    using zstd_update_codes [of cd decode coding "cctx c" sent taken input] assms
    by (auto simp: comp_update_def codec_documented_def)
next
  assume alg: "comp_algo c = Lz4"
  have lz: "lz4_documented cd decode coding"
    using assms(1) by (simp add: codec_documented_def)
  define c1 head where "c1 = (if started c then c else c\<lparr>cctx := fst (lz4_compress_begin cd (cctx c) OUT_BUF_SIZE), started := True\<rparr>)"
    and "head = (if started c then [] else the (snd (lz4_compress_begin cd (cctx c) OUT_BUF_SIZE)))"
  have opened: "(if started c then (c, Some [])
            else case lz4_compress_begin cd (cctx c) OUT_BUF_SIZE of
                   (k, None) \<Rightarrow> (c\<lparr>cctx := k\<rparr>, None)
                 | (k, Some head) \<Rightarrow> (c\<lparr>cctx := k, started := True\<rparr>, Some head)) = (c1, Some head)"
    and head: "length head \<le> 19" "coding (cctx c1) (sent @ head) taken" "comp_algo c1 = comp_algo c"
    using lz assms(3) unfolding lz4_documented_def c1_def head_def by fastforce+
  have "OUT_BUF_SIZE \<le> OUT_BUF_SIZE - length head + 19"
    using head(1) by simp
  then obtain k' out where "lz4_compress_update cd (cctx c1) (OUT_BUF_SIZE - length head) input = (k', Some out)"
    "length out \<le> OUT_BUF_SIZE - length head" "coding k' ((sent @ head) @ out) (taken @ input)"
    using lz head(2) assms(4) unfolding lz4_documented_def by blast
  then show ?thesis
    using alg head out_buf_room(2) opened by (simp add: comp_update_def lz4_update_def)
qed

lemma comp_flush_codes:
  assumes "codec_documented cd decode coding" and "comp_algo c = Zstd \<or> comp_algo c = Lz4"
    and "coding (cctx c) sent taken"
  shows "\<exists>out c'. comp_flush cd OUT_BUF_SIZE c = Some (out, c') \<and> length out \<le> OUT_BUF_SIZE \<and>
    comp_algo c' = comp_algo c \<and> coding (cctx c') (sent @ out) taken \<and> decode (sent @ out) = Some taken"
  using assms(2)
proof
  assume "comp_algo c = Zstd"
  then show ?thesis
    using zstd_flush_codes [of cd decode coding "cctx c" sent taken] assms
    by (auto simp: comp_flush_def codec_documented_def)
next
  assume "comp_algo c = Lz4"
  moreover obtain k' out where "lz4_compress_flush cd (cctx c) OUT_BUF_SIZE = (k', Some out)" "length out \<le> OUT_BUF_SIZE"
    "coding k' (sent @ out) taken" "decode (sent @ out) = Some taken"
    using assms unfolding codec_documented_def lz4_documented_def by blast
  ultimately show ?thesis
    by (simp add: comp_flush_def lz4_flush_def)
qed

section \<open>A codec that copies\<close>

definition copy_codec :: "unit codec" where
  "copy_codec = \<lparr>
     zstd_compress = (\<lambda>k cap input dir. (k, Some (take cap input, min cap (length input), 0))),
     lz4_compress_begin = (\<lambda>k cap. (k, Some [])),
     lz4_compress_update = (\<lambda>k cap input. (k, Some input)),
     lz4_compress_flush = (\<lambda>k cap. (k, Some []))\<rparr>"

lemma copy_codec_documented: "codec_documented copy_codec Some (\<lambda>k sent taken. sent = taken)"
  by (auto simp: codec_documented_def zstd_documented_def lz4_documented_def copy_codec_def OUT_BUF_SIZE_def READ_BLOCK_def min_def)

end
