(* ===== verification/Client_Worker.thy ===== *)
theory Client_Worker
  imports Compressor Handshake Xxh64
begin

text \<open>
  A worker of the uploader, \<open>client/worker.h\<close>: it connects and shakes hands, and
  turns tasks into the frames of the upload protocol, with probes first when the server asks for them.

  Around it are parameters (\<open>worker_env\<close>): the compression libraries, the channel to the network thread
  and its socket (the channel type is a third-party package), the disk, and BLAKE3.  \<^const>\<open>None\<close> is a compression call that does not return.  Log lines are left out; the
  events of \<open>client/events.h\<close> are appended to a list.
\<close>

section \<open>Events\<close>

datatype client_event =
    Client_Upload_Started string UnitType u64 u64 u64
  | Client_Upload_Finished string UnitType u64 u64 u64 u64 bool
  | Client_Upload_Skipped string UnitType u64 u64 u64

section \<open>State and environment\<close>

record PendingUnit =
  pend_key :: u64
  pend_task :: Task
  pend_accepted :: bool

record 'k Worker =
  wk_integrity :: bool
  acceptMode :: bool
  hashFirst :: bool
  nextKey :: u64
  pending_units :: "PendingUnit list"
  compressor :: "'k StreamCompressor"
  wk_events :: "client_event list"

record ClientConn =
  cl_flags :: byte
  cl_key :: string
  cl_session :: bytes

record ('k, 'n, 'h) worker_env =
  env_codec :: "'k codec"
  net_connect :: "'n \<Rightarrow> bool \<times> 'n"
  net_enqueue :: "'n \<Rightarrow> bytes \<Rightarrow> bool \<times> 'n"
  net_await :: "'n \<Rightarrow> bytes \<Rightarrow> bool \<times> 'n"
  net_recv_exact :: "'n \<Rightarrow> nat \<Rightarrow> bytes option \<times> 'n"
  env_disk :: "'h disk"
  blake3 :: "bytes \<Rightarrow> bytes"

text \<open>The blocks \<open>storage->worker.next\<close> delivers for a submitted task, up to the end marker.\<close>

definition storage_blocks :: "('k, 'n, 'h) worker_env \<Rightarrow> Task \<Rightarrow> bytes list" where
  "storage_blocks env t = read_request (env_disk env) (submit t)"

definition kProbeWindow :: nat where "kProbeWindow = 128"

definition handshakeStatusName :: "byte \<Rightarrow> string" where
  "handshakeStatusName s =
     (if s = 0 then ''ok'' else if s = 1 then ''bad-magic'' else if s = 2 then ''bad-version''
      else if s = 3 then ''auth-failed'' else if s = 4 then ''bad-algo'' else if s = 5 then ''server-error'' else ''?'')"

section \<open>Frames\<close>

definition handshake :: "'k Worker \<Rightarrow> ClientConn \<Rightarrow> u16 \<Rightarrow> bytes" where
  "handshake wk conn ver =
     (let out = append_u16 kMagic ver @ [cl_flags conn, byte_of_algo (comp_algo (compressor wk))] @ cl_session conn;
          mac = hmac_sha256 (bytes_of (cl_key conn)) out
      in out @ take kHmacSize mac @ [Cmd_Upload])"

definition unitHeader :: "Task \<Rightarrow> bytes" where
  "unitHeader t =
     (let path = bytes_of (pathname t);
          head = append_u16 [byte_of_unit (task_type t)] (of_nat (length path)) @ path
      in if task_type t = Chunk then append_u64 head (task_offset t) else head)"

definition acceptedHeader :: "u64 \<Rightarrow> bytes" where
  "acceptedHeader key = append_u64 [byte_of_unit Accepted] key"

definition hashUnit :: "('k, 'n, 'h) worker_env \<Rightarrow> Task \<Rightarrow> bytes" where
  "hashUnit env t = blake3 env (concat (storage_blocks env t))"

definition probe_frame :: "('k, 'n, 'h) worker_env \<Rightarrow> bool \<Rightarrow> u64 \<Rightarrow> Task \<Rightarrow> bytes" where
  "probe_frame env hash_first key t =
     (let path = bytes_of (pathname t);
          frame = append_u64 [byte_of_unit Probe] key @ [byte_of_unit (task_type t)];
          frame1 = append_u16 frame (of_nat (length path)) @ path;
          frame2 = append_u64 (append_u64 (append_u64 (append_u64 frame1 (task_offset t)) (task_length t))
                     (task_file_size t)) (task_mtime t)
      in if hash_first then frame2 @ hashUnit env t else frame2)"

section \<open>Connecting\<close>

text \<open>0 for success, a positive number for the status of the server, -1 for no answer.\<close>

definition shake :: "('k, 'n, 'h) worker_env \<Rightarrow> ClientConn \<Rightarrow> u16 \<Rightarrow> 'k Worker \<Rightarrow> 'n \<Rightarrow> int \<times> 'k Worker \<times> 'n" where
  "shake env conn ver wk net =
     (case net_await env net (handshake wk conn ver) of
        (False, n1) \<Rightarrow> (-1, wk, n1)
      | (True, n1) \<Rightarrow>
          (case net_recv_exact env n1 kHandshakeReplySize of
             (None, n2) \<Rightarrow> (-1, wk, n2)
           | (Some reply, n2) \<Rightarrow>
               let status = reply ! length kMagic
               in if status \<noteq> 0 then (int (unat status), wk, n2)
                  else case (if 2 \<le> ver then net_recv_exact env n2 1 else (Some [0], n2)) of
                         (None, n3) \<Rightarrow> (-1, wk, n3)
                       | (Some m, n3) \<Rightarrow>
                           (0, wk\<lparr>acceptMode := has_mode (m ! 0) ModeAccept, hashFirst := has_mode (m ! 0) HashFirst\<rparr>, n3)))"

definition worker_init :: "('k, 'n, 'h) worker_env \<Rightarrow> ClientConn \<Rightarrow> 'k Worker \<Rightarrow> 'n \<Rightarrow> bool \<times> 'k Worker \<times> 'n" where
  "worker_init env conn wk net =
     (let wk0 = wk\<lparr>wk_integrity := has_flag (cl_flags conn) IntegrityChecks\<rparr>
      in case net_connect env net of
           (False, n1) \<Rightarrow> (False, wk0, n1)
         | (True, n1) \<Rightarrow>
             (case shake env conn kProtocolVersion wk0 n1 of
                (status, wk1, n2) \<Rightarrow>
                  if status = int (unat (byte_of_status BadVersion))
                  then (case net_connect env n2 of
                          (False, n3) \<Rightarrow> (False, wk1, n3)
                        | (True, n3) \<Rightarrow>
                            (case shake env conn kMinProtocolVersion wk1 n3 of
                               (status', wk2, n4) \<Rightarrow> (status' = 0, wk2, n4)))
                  else (status = 0, wk1, n2)))"

section \<open>Units\<close>

definition sendBlock :: "('k, 'n, 'h) worker_env \<Rightarrow> 'n \<Rightarrow> bytes \<Rightarrow> bool \<times> 'n" where
  "sendBlock env net data =
     (case net_enqueue env net (byte_of_block Data # write_u32_le (of_nat (length data))) of
        (False, n1) \<Rightarrow> (False, n1)
      | (True, n1) \<Rightarrow> net_enqueue env n1 data)"

text \<open>The loop over the blocks the reader delivers; the flag is False when a block could not be sent.\<close>

fun upload_blocks :: "('k, 'n, 'h) worker_env \<Rightarrow> bool \<Rightarrow> bytes list \<Rightarrow> XXH64_state \<Rightarrow> 'k StreamCompressor \<Rightarrow> 'n \<Rightarrow> u64 \<Rightarrow>
    (bool \<times> XXH64_state \<times> 'k StreamCompressor \<times> 'n \<times> u64) option" where
  "upload_blocks env integ [] checksum cmp net sent_bytes = Some (True, checksum, cmp, net, sent_bytes)"
| "upload_blocks env integ (data # blks) checksum cmp net sent_bytes =
     (let checksum' = (if integ then XXH64_update checksum data else checksum)
      in case comp_update (env_codec env) OUT_BUF_SIZE cmp data of
           None \<Rightarrow> None
         | Some (produced, cmp') \<Rightarrow>
             if produced \<noteq> [] then
               (case sendBlock env net produced of
                  (False, n1) \<Rightarrow> Some (False, checksum', cmp', n1, sent_bytes)
                | (True, n1) \<Rightarrow>
                    upload_blocks env integ blks checksum' cmp' n1 (sent_bytes + of_nat (length produced)))
             else upload_blocks env integ blks checksum' cmp' net sent_bytes)"

text \<open>What follows the blocks: the flushed bytes, the end marker and the checksum.\<close>

definition upload_tail :: "('k, 'n, 'h) worker_env \<Rightarrow> bool \<Rightarrow> XXH64_state \<Rightarrow> 'k StreamCompressor \<Rightarrow> 'n \<Rightarrow> u64 \<Rightarrow>
    (bool \<times> 'k StreamCompressor \<times> 'n \<times> u64) option" where
  "upload_tail env integ checksum cmp net sent_bytes =
     (case comp_flush (env_codec env) OUT_BUF_SIZE cmp of
        None \<Rightarrow> None
      | Some (flushed, cmp') \<Rightarrow>
          (case (if flushed \<noteq> [] then sendBlock env net flushed else (True, net)) of
             (False, n1) \<Rightarrow> Some (False, cmp', n1, sent_bytes)
           | (True, n1) \<Rightarrow>
               let all_bytes = sent_bytes + of_nat (length flushed)
               in case net_enqueue env n1 [byte_of_block EndOfUnit] of
                    (False, n2) \<Rightarrow> Some (False, cmp', n2, all_bytes)
                  | (True, n2) \<Rightarrow>
                      if integ
                      then (case net_enqueue env n2 (write_u64_le (XXH64_digest checksum)) of
                              (ok, n3) \<Rightarrow> Some (ok, cmp', n3, all_bytes))
                      else Some (True, cmp', n2, all_bytes)))"

definition upload :: "('k, 'n, 'h) worker_env \<Rightarrow> Task \<Rightarrow> bytes \<Rightarrow> 'k Worker \<Rightarrow> 'n \<Rightarrow> (bool \<times> u64 \<times> 'k Worker \<times> 'n) option" where
  "upload env t header wk net =
     (case net_enqueue env net header of
        (False, n1) \<Rightarrow> Some (False, 0, wk, n1)
      | (True, n1) \<Rightarrow>
          (case upload_blocks env (wk_integrity wk) (storage_blocks env t) (XXH64_reset 0) (compressor wk) n1 0 of
             None \<Rightarrow> None
           | Some (False, checksum, cmp, n2, sent_bytes) \<Rightarrow> Some (False, sent_bytes, wk\<lparr>compressor := cmp\<rparr>, n2)
           | Some (True, checksum, cmp, n2, sent_bytes) \<Rightarrow>
               (case upload_tail env (wk_integrity wk) checksum cmp n2 sent_bytes of
                  None \<Rightarrow> None
                | Some (ok, cmp', n3, all_bytes) \<Rightarrow> Some (ok, all_bytes, wk\<lparr>compressor := cmp'\<rparr>, n3))))"

definition client_emit :: "client_event \<Rightarrow> 'k Worker \<Rightarrow> 'k Worker" where
  "client_emit e wk = wk\<lparr>wk_events := wk_events wk @ [e]\<rparr>"

definition send_unit :: "('k, 'n, 'h) worker_env \<Rightarrow> Task \<Rightarrow> bytes \<Rightarrow> 'k Worker \<Rightarrow> 'n \<Rightarrow> (bool \<times> 'k Worker \<times> 'n) option" where
  "send_unit env t header wk net =
     (case upload env t header
             (client_emit (Client_Upload_Started (pathname t) (task_type t) (task_offset t) (task_length t) (task_file_size t)) wk) net of
        None \<Rightarrow> None
      | Some (ok, all_bytes, wk', net') \<Rightarrow>
          Some (ok, client_emit (Client_Upload_Finished (pathname t) (task_type t) (task_offset t) (task_length t)
            (task_file_size t) all_bytes ok) wk', net'))"

section \<open>Probes\<close>

definition probe :: "('k, 'n, 'h) worker_env \<Rightarrow> Task \<Rightarrow> 'k Worker \<Rightarrow> 'n \<Rightarrow> bool \<times> 'k Worker \<times> 'n" where
  "probe env t wk net =
     (let key = nextKey wk;
          wk' = wk\<lparr>nextKey := key + 1,
            pending_units := pending_units wk @ [\<lparr>pend_key = key, pend_task = t, pend_accepted = False\<rparr>]\<rparr>
      in case net_enqueue env net (probe_frame env (hashFirst wk) key t) of (ok, n1) \<Rightarrow> (ok, wk', n1))"

text \<open>The first loop of \<open>resolve\<close>: one reply for every pending unit, in order; \<^const>\<open>None\<close> is a failure.\<close>

fun read_replies :: "('k, 'n, 'h) worker_env \<Rightarrow> PendingUnit list \<Rightarrow> 'n \<Rightarrow> PendingUnit list option \<times> 'n" where
  "read_replies env [] net = (Some [], net)"
| "read_replies env (u # us) net =
     (case net_recv_exact env net kProbeReplySize of
        (None, n1) \<Rightarrow> (None, n1)
      | (Some reply, n1) \<Rightarrow>
          if read_u64_le (drop 1 reply) \<noteq> pend_key u then (None, n1)
          else case read_replies env us n1 of
                 (None, n2) \<Rightarrow> (None, n2)
               | (Some us', n2) \<Rightarrow> (Some (u\<lparr>pend_accepted := reply ! 0 = byte_of_decision Accept\<rparr> # us'), n2))"

text \<open>The second loop: the accepted units are sent, the others are reported as skipped.\<close>

fun send_accepted :: "('k, 'n, 'h) worker_env \<Rightarrow> PendingUnit list \<Rightarrow> 'k Worker \<Rightarrow> 'n \<Rightarrow> (bool \<times> 'k Worker \<times> 'n) option" where
  "send_accepted env [] wk net = Some (True, wk, net)"
| "send_accepted env (u # us) wk net =
     (if pend_accepted u
      then case send_unit env (pend_task u) (acceptedHeader (pend_key u)) wk net of
             None \<Rightarrow> None
           | Some (False, wk', n1) \<Rightarrow> Some (False, wk', n1)
           | Some (True, wk', n1) \<Rightarrow> send_accepted env us wk' n1
      else let t = pend_task u
           in send_accepted env us (client_emit (Client_Upload_Skipped (pathname t) (task_type t) (task_offset t)
                (task_length t) (task_file_size t)) wk) net)"

definition resolve_pending :: "('k, 'n, 'h) worker_env \<Rightarrow> 'k Worker \<Rightarrow> 'n \<Rightarrow> (bool \<times> 'k Worker \<times> 'n) option" where
  "resolve_pending env wk net =
     (let finished = (\<lambda>ok wk n. Some (ok, wk\<lparr>pending_units := []\<rparr>, n))
      in case net_await env net [] of
           (False, n1) \<Rightarrow> finished False wk n1
         | (True, n1) \<Rightarrow>
             (case read_replies env (pending_units wk) n1 of
                (None, n2) \<Rightarrow> finished False wk n2
              | (Some us, n2) \<Rightarrow>
                  (case send_accepted env us wk n2 of
                     None \<Rightarrow> None
                   | Some (ok, wk', n3) \<Rightarrow> finished ok wk' n3)))"

text \<open>\<open>idle\<close>: there is no channel, or it has no further task waiting.\<close>

definition process_task :: "('k, 'n, 'h) worker_env \<Rightarrow> bool \<Rightarrow> Task \<Rightarrow> 'k Worker \<Rightarrow> 'n \<Rightarrow> (bool \<times> 'k Worker \<times> 'n) option" where
  "process_task env idle t wk net =
     (if \<not> acceptMode wk then send_unit env t (unitHeader t) wk net
      else case probe env t wk net of
             (False, wk1, n1) \<Rightarrow> Some (False, wk1, n1)
           | (True, wk1, n1) \<Rightarrow>
               if kProbeWindow \<le> length (pending_units wk1) \<or> idle then resolve_pending env wk1 n1
               else Some (True, wk1, n1))"

definition worker_finish :: "('k, 'n, 'h) worker_env \<Rightarrow> 'n \<Rightarrow> 'n" where
  "worker_finish env net = snd (net_enqueue env net [byte_of_unit End])"

end
