(* ===== verification/Server_Delivery.thy ===== *)
theory Server_Delivery
  imports Server_Upload
begin

text \<open>
  What the consumer thread does with a well-formed upload, when the disk below does not fail: every
  unit is written exactly as its data says.  The frames of a unit are those of the protocol; that the
  uploader sends them is shown in \<open>Client_Frames\<close>.
\<close>

section \<open>Frames of a unit\<close>

definition block_frame :: "bytes \<Rightarrow> bytes" where
  "block_frame p = byte_of_block Data # write_u32_le (of_nat (length p)) @ p"

definition unit_frames :: "bytes list \<Rightarrow> bytes" where
  "unit_frames ps = concat (map block_frame ps)"

definition unit_end :: "bool \<Rightarrow> bytes \<Rightarrow> bytes" where
  "unit_end integ data = byte_of_block EndOfUnit # (if integ then write_u64_le (XXH64 data 0) else [])"

definition payload_ok :: "bytes \<Rightarrow> bool" where
  "payload_ok p \<longleftrightarrow> p \<noteq> [] \<and> length p \<le> unat kMaxBlockSize"

section \<open>A disk that does not fail\<close>

definition fs_healthy :: "'w uv_fs \<Rightarrow> ('w \<Rightarrow> int \<Rightarrow> string option) \<Rightarrow> bool" where
  "fs_healthy os file \<longleftrightarrow>
     (\<forall>w fd p data off r w'. file w fd = Some p \<longrightarrow> data \<noteq> [] \<longrightarrow> 0 \<le> off \<longrightarrow>
        uv_fs_write os w fd data off = (r, w') \<longrightarrow> 0 < r) \<and>
     (\<forall>w p mode. 0 \<le> fst (uv_fs_open os w p mode)) \<and>
     (\<forall>w p. \<not> fst (create_directories os w p))"

lemma write_loop_succeeds:
  assumes "fs_writes os file content" and "fs_healthy os file"
  shows "file w fd = Some p \<Longrightarrow> 0 \<le> off \<Longrightarrow> fst (write_loop os w fd data off written)"
proof (induction "length data - written" arbitrary: w written rule: less_induct)
  case less
  show ?case
  proof (cases "written < length data")
    case False
    then show ?thesis by (simp add: write_loop.simps [of os w])
  next
    case True
    define n where "n = (if length data - written < kMaxSingleWrite then length data - written else kMaxSingleWrite)"
    let ?piece = "take n (drop written data)"
    obtain r w1 where call: "uv_fs_write os w fd ?piece (off + int written) = (r, w1)"
      by fastforce
    have "?piece \<noteq> []"
      using True by (simp add: n_def kMaxSingleWrite_def)
    then have r: "0 < r"
      using assms(2) less.prems call unfolding fs_healthy_def by (metis add_nonneg_nonneg of_nat_0_le_iff)
    then have "file w1 = file w"
      using assms(1) less.prems call unfolding fs_writes_def by (metis add_nonneg_nonneg of_nat_0_le_iff)
    then have "fst (write_loop os w1 fd data off (written + nat r))"
      using less.hyps [of "written + nat r" w1] less.prems r True by simp
    then show ?thesis
      using True call r less.prems(2) unfolding write_loop.simps [of os w] n_def by (simp add: Let_def)
  qed
qed

lemma write_fd_all_succeeds:
  assumes "fs_writes os file content" and "fs_healthy os file" and "file w fd = Some p" and "0 \<le> off"
  shows "\<exists>w'. write_fd_all os w fd data off = (True, w')"
  using write_loop_succeeds [OF assms(1,2,3,4), of data 0]
  by (cases "write_fd_all os w fd data off") (simp add: write_fd_all_def)

section \<open>Receiving the data of a unit\<close>

text \<open>What is stored when the unit has delivered \<open>d\<close>: a file is replaced, a chunk overlaid.\<close>

definition stored :: "bool \<Rightarrow> u64 \<Rightarrow> bytes \<Rightarrow> bytes \<Rightarrow> bytes" where
  "stored chunk base old d = (if \<not> chunk then d else if d = [] then old else overwrite old (unat base) d)"

definition storing :: "('w \<Rightarrow> int \<Rightarrow> string option) \<Rightarrow> ('w \<Rightarrow> string \<Rightarrow> bytes) \<Rightarrow> (int \<Rightarrow> string option) \<Rightarrow>
    (string \<Rightarrow> bytes) \<Rightarrow> string \<Rightarrow> bool \<Rightarrow> u64 \<Rightarrow> bool \<Rightarrow> UnitSink \<times> 'w \<Rightarrow> bytes \<Rightarrow> bool" where
  "storing file content f0 c0 p chunk base integ uw d \<longleftrightarrow> (case uw of (us, w) \<Rightarrow>
     file w = f0 \<and> content w = c0(p := stored chunk base (c0 p) d) \<and>
     is_chunk us = chunk \<and> base_offset us = base \<and> running us = of_nat (length d) \<and> integrity us = integ \<and>
     (if chunk then \<exists>fd. offset_writer us = \<lparr>off_file = Some fd\<rparr> \<and> f0 fd = Some p
      else f0 (seq_fd (sequential_writer us)) = Some p \<and> seq_offset (sequential_writer us) = int (length d)) \<and>
     (integ \<longrightarrow> (\<exists>outs. concat outs = d \<and> checksum_state us = foldl XXH64_update (XXH64_reset 0) outs)))"

text \<open>The bytes of a unit must not run past the largest file offset.\<close>

definition fits :: "bool \<Rightarrow> u64 \<Rightarrow> nat \<Rightarrow> bool" where
  "fits chunk base n \<longleftrightarrow> (chunk \<longrightarrow> unat base + n < 2 ^ 63)"

lemma chunk_offset:
  assumes "unat base + n < 2 ^ 63"
  shows "unat (base + of_nat n :: u64) = unat base + n"
proof -
  have n: "unat (of_nat n :: u64) = n"
    using assms by (simp only: unsigned_of_nat) (simp add: take_bit_eq_mod)
  moreover have "unat base + n < 2 ^ LENGTH(64)"
    using assms by simp
  ultimately show ?thesis
    using unat_add_lem [of base "of_nat n"] by simp
qed

lemma storing_write:
  assumes "fs_writes os file content" and "fs_healthy os file"
    and "storing file content f0 c0 p chunk base integ (us, w) d" and "out \<noteq> []" and "fits chunk base (length (d @ out))"
  shows "\<exists>us' w'. unit_write os (us, w) out = (True, us', w') \<and> storing file content f0 c0 p chunk base integ (us', w') (d @ out)"
proof -
  define us1 where "us1 = (if integ then us\<lparr>checksum_state := XXH64_update (checksum_state us) out\<rparr> else us)"
  note st = assms(3) [unfolded storing_def, simplified]
  have run: "running us + of_nat (length out) = of_nat (length (d @ out))"
    using st by simp
  have sum: "integ \<longrightarrow> (\<exists>outs. concat outs = d @ out \<and> checksum_state us1 = foldl XXH64_update (XXH64_reset 0) outs)"
  proof
    assume integ
    with st obtain outs where "concat outs = d" "checksum_state us = foldl XXH64_update (XXH64_reset 0) outs"
      by auto
    then show "\<exists>outs. concat outs = d @ out \<and> checksum_state us1 = foldl XXH64_update (XXH64_reset 0) outs"
      using \<open>integ\<close> by (intro exI [of _ "outs @ [out]"]) (simp add: us1_def)
  qed
  show ?thesis
  proof (cases chunk)
    case True
    with st obtain fd where fd: "offset_writer us = \<lparr>off_file = Some fd\<rparr>" "f0 fd = Some p"
      by auto
    have bound: "unat base + length (d @ out) < 2 ^ 63"
      using assms(5) True by (simp add: fits_def)
    then have off: "unat (base + of_nat (length d)) = unat base + length d"
      by (intro chunk_offset) simp
    then have lt: "unat (base + of_nat (length d)) < 2 ^ 63"
      using bound by simp
    have "file w fd = Some p"
      using st fd by simp
    moreover have "0 \<le> sint (base + of_nat (length d) :: u64)"
      using sint_offset [OF lt] by simp
    ultimately obtain w' where all: "write_fd_all os w fd out (sint (base + of_nat (length d) :: u64)) = (True, w')"
      using write_fd_all_succeeds [OF assms(1,2)] by blast
    then have at: "write_at os w \<lparr>off_file = Some fd\<rparr> (base + of_nat (length d)) out = (True, w')"
      by (simp add: write_at_def)
    have "file w' = file w \<and> content w' = (content w)(p := overwrite (content w p) (unat base + length d) out)"
      using write_at_stores [OF assms(1) \<open>file w fd = Some p\<close> lt at] assms(4) off by simp
    moreover have "overwrite (stored True base (c0 p) d) (unat base + length d) out = stored True base (c0 p) (d @ out)"
      using assms(4) by (simp add: stored_def overwrite_append)
    ultimately have "file w' = f0" "content w' = c0(p := stored chunk base (c0 p) (d @ out))"
      using st True by (simp_all add: fun_eq_iff)
    then have "storing file content f0 c0 p chunk base integ (us1\<lparr>running := running us + of_nat (length out)\<rparr>, w') (d @ out)"
      using st sum run True fd by (simp add: storing_def us1_def)
    moreover have "unit_write os (us, w) out = (True, us1\<lparr>running := running us + of_nat (length out)\<rparr>, w')"
      using st True fd at by (simp add: unit_write_def us1_def)
    ultimately show ?thesis by blast
  next
    case False
    let ?sq = "sequential_writer us"
    have fd: "file w (seq_fd ?sq) = Some p" and off: "seq_offset ?sq = int (length (content w p))"
      using st False by (simp_all add: stored_def)
    obtain w' where all: "write_fd_all os w (seq_fd ?sq) out (seq_offset ?sq) = (True, w')"
      using write_fd_all_succeeds [OF assms(1,2) fd, of "seq_offset ?sq" out] off by auto
    then have seq: "seq_write os w ?sq out = (True, w', ?sq\<lparr>seq_offset := seq_offset ?sq + int (length out)\<rparr>)"
      by (simp add: seq_write_def)
    let ?us' = "us1\<lparr>sequential_writer := ?sq\<lparr>seq_offset := seq_offset ?sq + int (length out)\<rparr>,
      running := running us + of_nat (length out)\<rparr>"
    have "file w' = f0" "content w' = c0(p := stored chunk base (c0 p) (d @ out))"
      using seq_write_appends [OF assms(1) fd off seq] st False by (simp_all add: stored_def fun_eq_iff)
    then have "storing file content f0 c0 p chunk base integ (?us', w') (d @ out)"
      using st sum run False by (simp add: storing_def us1_def)
    moreover have "unit_write os (us, w) out = (True, ?us', w')"
      using st False seq by (simp add: unit_write_def us1_def)
    ultimately show ?thesis by blast
  qed
qed

lemma storing_writes:
  assumes "fs_writes os file content" and "fs_healthy os file"
  shows "storing file content f0 c0 p chunk base integ uw d \<Longrightarrow> list_all (\<lambda>out. out \<noteq> []) outs \<Longrightarrow>
    fits chunk base (length (d @ concat outs)) \<Longrightarrow>
    \<exists>uw'. write_all (unit_write os) uw outs = (True, uw') \<and> storing file content f0 c0 p chunk base integ uw' (d @ concat outs)"
proof (induction outs arbitrary: uw d)
  case Nil
  then show ?case by simp
next
  case (Cons out outs)
  obtain us w where uw: "uw = (us, w)"
    by fastforce
  have "fits chunk base (length (d @ out))"
    using Cons.prems(3) by (auto simp: fits_def)
  then obtain us' w' where "unit_write os (us, w) out = (True, us', w')"
    "storing file content f0 c0 p chunk base integ (us', w') (d @ out)"
    using storing_write [OF assms Cons.prems(1) [unfolded uw], of out] Cons.prems(2) by auto
  with Cons.IH [of "(us', w')" "d @ out"] Cons.prems show ?case
    by (simp add: uw)
qed

section \<open>The block loop\<close>

lemma payload_length:
  assumes "payload_ok p"
  shows "unat (of_nat (length p) :: u32) = length p" and "(of_nat (length p) :: u32) \<noteq> 0"
    and "\<not> kMaxBlockSize < (of_nat (length p) :: u32)"
proof -
  have "length p \<le> 64 * 1024 * 1024" and ne: "0 < length p"
    using assms by (simp_all add: payload_ok_def kMaxBlockSize_def)
  then show n: "unat (of_nat (length p) :: u32) = length p"
    by (simp only: unsigned_of_nat) (simp add: take_bit_eq_mod)
  show "(of_nat (length p) :: u32) \<noteq> 0"
    using n ne by (metis less_irrefl unat_0)
  show "\<not> kMaxBlockSize < (of_nat (length p) :: u32)"
    using assms n by (simp add: word_less_nat_alt payload_ok_def)
qed

text \<open>What a decoder has left after a unit, for every continuation of the stream.\<close>

definition continues :: "('z \<Rightarrow> bytes \<Rightarrow> bytes option) \<Rightarrow> 'z \<Rightarrow> bytes \<Rightarrow> bytes \<Rightarrow> 'z \<Rightarrow> bool" where
  "continues dec z sent data z' \<longleftrightarrow>
     (\<forall>more everything. dec z (sent @ more) = Some everything \<longrightarrow>
        (\<exists>rest. everything = data @ rest \<and> dec z' more = Some rest))"

lemma receive_block:
  assumes "payload_ok p"
    and "decompress (conn_algo cn) (conn_decode cn) (unit_write (conn_os cn)) z uw p = Some (True, z', uw')"
  shows "receive_blocks list_read cn (block_frame p @ rest) z uw wire =
    receive_blocks list_read cn rest z' uw' (wire + of_nat (length p))"
proof -
  have "ucast (of_nat (length p) :: u32) = (of_nat (length p) :: u64)"
    using payload_length(1) [OF assms(1)] by (metis of_nat_unat)
  then show ?thesis
    using assms(2) payload_length [OF assms(1)] unfolding receive_blocks.simps [of list_read cn "block_frame p @ rest"]
    by (simp add: block_frame_def)
qed

lemma receive_blocks_delivers:
  assumes "fs_writes (conn_os cn) file content" and "fs_healthy (conn_os cn) file"
    and "decoder_progress (conn_decode cn) pot" and "streaming_decoder (conn_decode cn) dec" and "drains (conn_decode cn) dec"
    and "conn_algo cn = Zstd \<or> conn_algo cn = Lz4"
  shows "list_all payload_ok ps \<Longrightarrow> dec z (concat ps) = Some data \<Longrightarrow> (ps = [] \<longrightarrow> data = []) \<Longrightarrow>
    storing file content f0 c0 p chunk base integ uw d \<Longrightarrow> fits chunk base (length (d @ data)) \<Longrightarrow>
    \<exists>z' uw' wire'. receive_blocks list_read cn (unit_frames ps @ byte_of_block EndOfUnit # rest) z uw wire =
        Some (None, rest, z', uw', wire') \<and>
      storing file content f0 c0 p chunk base integ uw' (d @ data) \<and> continues dec z (concat ps) data z'"
proof (induction ps arbitrary: z uw wire d data)
  case Nil
  then show ?case
    by (auto simp: unit_frames_def receive_blocks.simps [of list_read cn] continues_def)
next
  case (Cons q ps)
  let ?wr = "unit_write (conn_os cn)"
  from decompress_delivers [OF assms(3,4,6), of z q "concat ps" data ?wr uw] Cons.prems(2)
  obtain ok z' uw' outs where dec: "decompress (conn_algo cn) (conn_decode cn) ?wr z uw q = Some (ok, z', uw')"
    and outs: "list_all (\<lambda>out. out \<noteq> []) outs" "write_all ?wr uw outs = (ok, uw')"
    and all: "\<And>more everything. dec z (q @ more) = Some everything \<Longrightarrow>
       \<exists>rest. everything = concat outs @ rest \<and> (ok \<longrightarrow> dec z' more = Some rest \<and>
          (q \<noteq> [] \<longrightarrow> drains (conn_decode cn) dec \<longrightarrow> more = [] \<longrightarrow> rest = []))"
    by auto
  from all [of "concat ps" data] Cons.prems(2) obtain rest1 where data: "data = concat outs @ rest1"
    and more: "ok \<Longrightarrow> dec z' (concat ps) = Some rest1" "ok \<Longrightarrow> concat ps = [] \<Longrightarrow> rest1 = []"
    using assms(5) Cons.prems(1) by (auto simp: payload_ok_def)
  have "fits chunk base (length (d @ concat outs))"
    using Cons.prems(5) by (auto simp: data fits_def)
  from storing_writes [OF assms(1,2) Cons.prems(4) outs(1) this] outs(2)
  have ok: ok and st: "storing file content f0 c0 p chunk base integ uw' (d @ concat outs)"
    by auto
  have "list_all payload_ok ps" "ps = [] \<longrightarrow> rest1 = []" "fits chunk base (length ((d @ concat outs) @ rest1))"
    using Cons.prems(1,5) more(2) ok by (simp_all add: data)
  from Cons.IH [OF this(1) more(1) [OF ok] this(2) st this(3), of "wire + of_nat (length q)"]
  obtain z2 uw2 wire2 where run: "receive_blocks list_read cn (unit_frames ps @ byte_of_block EndOfUnit # rest) z' uw'
        (wire + of_nat (length q)) = Some (None, rest, z2, uw2, wire2)"
    "storing file content f0 c0 p chunk base integ uw2 (d @ data)" "continues dec z' (concat ps) rest1 z2"
    by (auto simp: data)
  have "continues dec z (concat (q # ps)) data z2"
    unfolding continues_def
  proof (intro allI impI)
    fix m e
    assume "dec z (concat (q # ps) @ m) = Some e"
    with all [of "concat ps @ m" e] ok obtain r where "e = concat outs @ r" "dec z' (concat ps @ m) = Some r"
      by auto
    with run(3) show "\<exists>r. e = data @ r \<and> dec z2 m = Some r"
      by (fastforce simp: continues_def data)
  qed
  with run receive_block [OF _ dec [unfolded ok [THEN eqTrueI]], of "unit_frames ps @ byte_of_block EndOfUnit # rest" wire] Cons.prems(1)
  show ?case
    by (auto simp: unit_frames_def)
qed

section \<open>One unit\<close>

text \<open>The chunk files a sink holds open are open on their paths.\<close>

definition sink_open :: "('w \<Rightarrow> int \<Rightarrow> string option) \<Rightarrow> 'w \<Rightarrow> FileSink \<Rightarrow> bool" where
  "sink_open file w sk \<longleftrightarrow> (\<forall>path fd. map_of (chunk_files sk) path = Some fd \<longrightarrow> 0 \<le> fd \<and> file w fd = Some (c_str path))"

lemma ensure_parent_directory_keeps:
  assumes "posix_fs os file content" and "fs_healthy os file"
  shows "\<exists>w'. ensure_parent_directory os w path = (True, w') \<and> file w' = file w \<and> content w' = content w"
proof (cases "parent_path path = []")
  case False
  obtain e w' where call: "create_directories os w (parent_path path) = (e, w')"
    by fastforce
  moreover have "\<not> e"
    using assms(2) call unfolding fs_healthy_def by (metis fst_conv)
  ultimately show ?thesis
    using False assms(1) unfolding posix_fs_def fs_others_def ensure_parent_directory_def
    by (simp add: Let_def)
qed (simp add: ensure_parent_directory_def)

lemma open_created:
  assumes "posix_fs os file content" and "fs_healthy os file"
  shows "\<exists>w1 fd w2. ensure_parent_directory os w path = (True, w1) \<and> uv_fs_open os w1 (c_str path) mode = (fd, w2) \<and>
    0 \<le> fd \<and> file w fd = None \<and> file w2 = (file w)(fd \<mapsto> c_str path) \<and>
    content w2 = (if mode = WriteCreateTrunc then (content w)(c_str path := []) else content w)"
proof -
  obtain w1 where w1: "ensure_parent_directory os w path = (True, w1)" "file w1 = file w" "content w1 = content w"
    using ensure_parent_directory_keeps [OF assms] by blast
  obtain fd w2 where op: "uv_fs_open os w1 (c_str path) mode = (fd, w2)"
    by fastforce
  moreover have "0 \<le> fd"
    using assms(2) op unfolding fs_healthy_def by (metis fst_conv)
  ultimately have "file w1 fd = None" "file w2 = (file w1)(fd \<mapsto> c_str path)"
    "content w2 = (if mode = WriteCreateTrunc then (content w1)(c_str path := []) else content w1)"
    using assms(1) unfolding posix_fs_def fs_opens_def by blast+
  with w1 op \<open>0 \<le> fd\<close> show ?thesis
    by auto
qed

text \<open>Opening a unit makes its path ready to be written.\<close>

lemma open_unit_ready:
  assumes "posix_fs (conn_os cn) file content" and "fs_healthy (conn_os cn) file"
    and "resolve_safe_path (session_root (sink st)) path = Some full" and "sink_open file (world st) (sink st)"
    and "type = File \<or> type = Chunk"
  shows "\<exists>sw ow w sk. open_unit cn type path st = (Some (sw, ow), st\<lparr>world := w, sink := sk\<rparr>) \<and>
    storing file content (file w) (content (world st)) (c_str full) (type = Chunk) base (integrity_checks cn)
      (new_unit_sink cn type base sw ow, w) [] \<and>
    session_root sk = session_root (sink st) \<and>
    (if type = Chunk then sink_open file w sk
     else sk = sink st \<and> 0 \<le> seq_fd sw \<and> (file w)(seq_fd sw := None) = file (world st))"
  using assms(5)
proof
  assume type: "type = File"
  obtain w1 fd w2 where op: "ensure_parent_directory (conn_os cn) (world st) full = (True, w1)"
      "uv_fs_open (conn_os cn) w1 (c_str full) WriteCreateTrunc = (fd, w2)" "0 \<le> fd" "file (world st) fd = None"
      "file w2 = (file (world st))(fd \<mapsto> c_str full)" "content w2 = (content (world st))(c_str full := [])"
    using open_created [OF assms(1,2), of "world st" full WriteCreateTrunc] by auto
  then have "open_unit cn type path st =
      (Some (\<lparr>seq_fd = fd, seq_offset = 0\<rparr>, \<lparr>off_file = None\<rparr>), st\<lparr>world := w2\<rparr>)"
    using assms(3) type by (simp add: open_unit_def open_sequential_def seq_valid_def)
  moreover have "st\<lparr>world := w2\<rparr> = st\<lparr>world := w2, sink := sink st\<rparr>"
    by simp
  moreover have "storing file content (file w2) (content (world st)) (c_str full) (type = Chunk) base (integrity_checks cn)
      (new_unit_sink cn type base \<lparr>seq_fd = fd, seq_offset = 0\<rparr> \<lparr>off_file = None\<rparr>, w2) []"
    using op type by (auto simp: storing_def new_unit_sink_def stored_def intro!: exI [of _ "[]"])
  moreover have "(file w2)(fd := None) = file (world st)"
    using op(4,5) by (simp add: fun_eq_iff)
  ultimately show ?thesis
    using op(3) type
    by (intro exI [of _ "\<lparr>seq_fd = fd, seq_offset = 0\<rparr>"] exI [of _ "\<lparr>off_file = None\<rparr>"] exI [of _ w2] exI [of _ "sink st"])
      simp
next
  assume type: "type = Chunk"
  obtain fd w sk where acq: "acquire_chunk_file (conn_os cn) (world st) (sink st) full = (Some fd, w, sk)"
    and fd: "0 \<le> fd" "file w fd = Some (c_str full)" "content w = content (world st)" "sink_open file w sk"
      "session_root sk = session_root (sink st)"
  proof (cases "map_of (chunk_files (sink st)) full")
    case (Some fd)
    then show ?thesis
      using that [of fd "world st" "sink st"] assms(4) by (simp add: acquire_chunk_file_def sink_open_def)
  next
    case None
    obtain w1 fd w2 where op: "ensure_parent_directory (conn_os cn) (world st) full = (True, w1)"
        "uv_fs_open (conn_os cn) w1 (c_str full) WriteCreate = (fd, w2)" "0 \<le> fd" "file (world st) fd = None"
        "file w2 = (file (world st))(fd \<mapsto> c_str full)" "content w2 = content (world st)"
      using open_created [OF assms(1,2), of "world st" full WriteCreate] by auto
    let ?sk = "(sink st)\<lparr>chunk_files := chunk_files (sink st) @ [(full, fd)]\<rparr>"
    have "sink_open file w2 ?sk"
      using assms(4) op None by (fastforce simp: sink_open_def map_of_append map_add_def split: option.splits if_splits)
    then show ?thesis
      using that [of fd w2 ?sk] op None by (simp add: acquire_chunk_file_def)
  qed
  from acq have "open_unit cn type path st = (Some (no_sequential, \<lparr>off_file = Some fd\<rparr>), st\<lparr>world := w, sink := sk\<rparr>)"
    using assms(3) type by (simp add: open_unit_def open_offset_def off_valid_def)
  moreover have "storing file content (file w) (content (world st)) (c_str full) (type = Chunk) base (integrity_checks cn)
      (new_unit_sink cn type base no_sequential \<lparr>off_file = Some fd\<rparr>, w) []"
    using fd type by (auto simp: storing_def new_unit_sink_def stored_def intro!: exI [of _ "[]"])
  ultimately show ?thesis
    using fd type by auto
qed

lemma unit_write_keeps_fd:
  "unit_write os uw out = (ok, uw') \<Longrightarrow>
    seq_fd (sequential_writer (fst uw')) = seq_fd (sequential_writer (fst uw))"
  by (auto simp: unit_write_def seq_write_def split: prod.splits if_splits)

lemma check_unit_ends:
  assumes "storing file content f0 c0 p chunk base integ (us, w) data" and "length data < 2 ^ 64" and "integ = integrity_checks cn"
  shows "check_unit list_read cn ((if integ then write_u64_le (XXH64 data 0) else []) @ rest) us None = (None, rest)"
proof (cases integ)
  case True
  then obtain outs where "concat outs = data" "checksum_state us = foldl XXH64_update (XXH64_reset 0) outs"
    using assms(1) by (auto simp: storing_def)
  then have "XXH64_digest (checksum_state us) = XXH64 data 0"
    using XXH64_digest_blocks [of outs] assms(2) by simp
  then show ?thesis
    using True assms(3) by (simp add: check_unit_def)
qed (use assms(3) in \<open>simp add: check_unit_def\<close>)

text \<open>What a session is left with by a unit that was stored.\<close>

definition unit_stored :: "('w \<Rightarrow> int \<Rightarrow> string option) \<Rightarrow> ('w \<Rightarrow> string \<Rightarrow> bytes) \<Rightarrow> ('z \<Rightarrow> bytes \<Rightarrow> bytes option) \<Rightarrow>
    string \<Rightarrow> bool \<Rightarrow> u64 \<Rightarrow> bytes list \<Rightarrow> bytes \<Rightarrow> ('z, 'w) Session \<Rightarrow> ('z, 'w) Session \<Rightarrow> bool" where
  "unit_stored file content dec p chunk base ps data st st' \<longleftrightarrow>
     content (world st') = (content (world st))(p := stored chunk base (content (world st) p) data) \<and>
     sink_open file (world st') (sink st') \<and> session_root (sink st') = session_root (sink st) \<and>
     continues dec (decoder_ctx st) (concat ps) data (decoder_ctx st') \<and>
     units_done st' = units_done st + 1 \<and> bytes_total st' = bytes_total st + of_nat (length data)"

lemma receive_unit_delivers:
  assumes fs: "posix_fs (conn_os cn) file content" "fs_healthy (conn_os cn) file"
    and de: "decoder_progress (conn_decode cn) pot" "streaming_decoder (conn_decode cn) dec" "drains (conn_decode cn) dec"
      "conn_algo cn = Zstd \<or> conn_algo cn = Lz4"
    and u: "resolve_safe_path (session_root (sink st)) path = Some full" "type = File \<or> type = Chunk"
      "list_all payload_ok ps" "dec (decoder_ctx st) (concat ps) = Some data" "ps = [] \<longrightarrow> data = []"
      "fits (type = Chunk) base (length data)" "length data < 2 ^ 64"
    and sk: "sink_open file (world st) (sink st)"
  shows "\<exists>st'. receive_unit list_read cn type path base (unit_frames ps @ unit_end (integrity_checks cn) data @ rest) st =
      Some (True, rest, st') \<and> unit_stored file content dec (c_str full) (type = Chunk) base ps data st st'"
proof -
  let ?e = "UploadStarted (session_hex cn) (peer cn) path type base"
  let ?ck = "if integrity_checks cn then write_u64_le (XXH64 data 0) else []"
  have wr: "fs_writes (conn_os cn) file content"
    using fs(1) by (simp add: posix_fs_def)
  from open_unit_ready [OF fs, of "emit ?e st" path full type base] u(1,2) sk
  obtain sw ow w k where op: "open_unit cn type path (emit ?e st) = (Some (sw, ow), (emit ?e st)\<lparr>world := w, sink := k\<rparr>)"
    and st: "storing file content (file w) (content (world st)) (c_str full) (type = Chunk) base (integrity_checks cn)
      (new_unit_sink cn type base sw ow, w) []"
    and k: "session_root k = session_root (sink st)"
      "if type = Chunk then sink_open file w k
       else k = sink st \<and> 0 \<le> seq_fd sw \<and> (file w)(seq_fd sw := None) = file (world st)"
    by (auto simp: emit_def)
  from receive_blocks_delivers [OF wr fs(2) de u(3,4,5) st, of "?ck @ rest" 0] u(6)
  obtain z us w' wire where rb: "receive_blocks list_read cn (unit_frames ps @ byte_of_block EndOfUnit # ?ck @ rest)
        (decoder_ctx st) (new_unit_sink cn type base sw ow, w) 0 = Some (None, ?ck @ rest, z, (us, w'), wire)"
    and st': "storing file content (file w) (content (world st)) (c_str full) (type = Chunk) base (integrity_checks cn) (us, w') data"
    and z: "continues dec (decoder_ctx st) (concat ps) data z"
    by fastforce
  have fd: "seq_fd (sequential_writer us) = seq_fd sw"
    using receive_blocks_writes [where P = "\<lambda>uw. seq_fd (sequential_writer (fst uw)) = seq_fd sw", OF rb]
    by (simp add: unit_write_keeps_fd new_unit_sink_def)
  define w2 where "w2 = (if type = File then fst (seq_close (conn_os cn) w' (sequential_writer us)) else w')"
  have fw: "file w' = file w"
    using st' by (simp add: storing_def)
  have w2: "content w2 = content w'" "sink_open file w2 k"
    using fs(1) fd k(2) sk fw u(2) unfolding w2_def posix_fs_def fs_others_def
    by (auto simp: seq_close_def sink_open_def)
  obtain st2 where "receive_unit list_read cn type path base (unit_frames ps @ byte_of_block EndOfUnit # ?ck @ rest) st =
      Some (True, rest, st2)" "world st2 = w2" "sink st2 = k" "decoder_ctx st2 = z"
      "units_done st2 = units_done st + 1" "bytes_total st2 = bytes_total st + running us"
    using rb op check_unit_ends [OF st' u(7) refl, of rest]
    by (auto simp: receive_unit_def w2_def Let_def emit_def)
  then show ?thesis
    using w2 k(1) z st' by (auto simp: unit_end_def unit_stored_def storing_def)
qed

section \<open>A whole upload\<close>

text \<open>A unit of the stream: what its head says, its compressed payloads, and the data they carry.\<close>

record Unit =
  un_type :: UnitType
  un_path :: string
  un_base :: u64
  un_payloads :: "bytes list"
  un_data :: bytes

definition unit_stream :: "bool \<Rightarrow> Unit \<Rightarrow> bytes" where
  "unit_stream integ u =
     byte_of_unit (un_type u) # write_u16_le (of_nat (length (un_path u))) @ bytes_of (un_path u) @
     (if un_type u = Chunk then write_u64_le (un_base u) else []) @
     unit_frames (un_payloads u) @ unit_end integ (un_data u)"

definition unit_ok :: "string \<Rightarrow> Unit \<Rightarrow> bool" where
  "unit_ok rt u \<longleftrightarrow> (un_type u = File \<and> un_base u = 0 \<or> un_type u = Chunk) \<and>
     un_path u \<noteq> [] \<and> length (un_path u) \<le> unat kMaxPathLength \<and> resolve_safe_path rt (un_path u) \<noteq> None \<and>
     list_all payload_ok (un_payloads u) \<and> (un_payloads u = [] \<longrightarrow> un_data u = []) \<and>
     fits (un_type u = Chunk) (un_base u) (length (un_data u)) \<and> length (un_data u) < 2 ^ 64"

text \<open>The payloads, unit by unit, decode to the data.\<close>

definition coded :: "(bytes \<Rightarrow> bytes option) \<Rightarrow> Unit list \<Rightarrow> bool" where
  "coded decode us \<longleftrightarrow> (\<forall>n\<le>length us. decode (concat (concat (map un_payloads (take n us)))) = Some (concat (map un_data (take n us))))"

text \<open>What the files of the session hold after a unit, and after a list of them.\<close>

definition put_unit :: "string \<Rightarrow> Unit \<Rightarrow> (string \<Rightarrow> bytes) \<Rightarrow> string \<Rightarrow> bytes" where
  "put_unit rt u c =
     (case resolve_safe_path rt (un_path u) of
        None \<Rightarrow> c
      | Some full \<Rightarrow> c(c_str full := stored (un_type u = Chunk) (un_base u) (c (c_str full)) (un_data u)))"

lemma coded_first:
  assumes "coded decode (u # us)"
  shows "decode (concat (un_payloads u)) = Some (un_data u)"
  using assms [unfolded coded_def] by (auto dest: spec [of _ 1])

lemma coded_rest:
  assumes "coded (dec z) (u # us)" and "continues dec z (concat (un_payloads u)) (un_data u) z'"
  shows "coded (dec z') us"
  unfolding coded_def
proof (intro allI impI)
  fix n
  assume "n \<le> length us"
  then have "dec z (concat (concat (map un_payloads (take (Suc n) (u # us))))) = Some (concat (map un_data (take (Suc n) (u # us))))"
    using assms(1) unfolding coded_def by (metis Suc_le_mono length_Cons)
  then show "dec z' (concat (concat (map un_payloads (take n us)))) = Some (concat (map un_data (take n us)))"
    using assms(2) by (auto simp: continues_def)
qed

lemma unit_head_reads:
  assumes "unit_ok rt u" and "\<not> has_mode (conn_mode cn) ModeAccept"
  shows "upload_step list_read cn (unit_stream integ u @ rest) st =
    receive_unit list_read cn (un_type u) (un_path u) (un_base u)
      (unit_frames (un_payloads u) @ unit_end integ (un_data u) @ rest) st"
proof -
  have len: "unat (of_nat (length (un_path u)) :: u16) = length (un_path u)"
    using assms(1) unfolding unit_ok_def kMaxPathLength_def
    by (simp only: unsigned_of_nat) (simp add: take_bit_eq_mod)
  then have bounds: "(of_nat (length (un_path u)) :: u16) \<noteq> 0" "\<not> kMaxPathLength < (of_nat (length (un_path u)) :: u16)"
    using assms(1) by (auto simp: unit_ok_def word_less_nat_alt word_unat_eq_iff simp del: of_nat_eq_0_iff)
  have rd: "list_read (bytes_of (un_path u) @ r) (length (un_path u)) = (Some (bytes_of (un_path u)), r)" for r
    by simp
  show ?thesis
    using assms len bounds rd
    by (auto simp: unit_stream_def upload_step_def unit_head_def Let_def unit_ok_def)
qed

lemma handle_upload_delivers:
  assumes fs: "posix_fs (conn_os cn) file content" "fs_healthy (conn_os cn) file"
    and de: "decoder_progress (conn_decode cn) pot" "streaming_decoder (conn_decode cn) dec" "drains (conn_decode cn) dec"
      "conn_algo cn = Zstd \<or> conn_algo cn = Lz4"
    and mode: "\<not> has_mode (conn_mode cn) ModeAccept"
  shows "list_all (unit_ok (session_root (sink st))) us \<Longrightarrow> coded (dec (decoder_ctx st)) us \<Longrightarrow>
    sink_open file (world st) (sink st) \<Longrightarrow>
    \<exists>st'. handle_upload list_read cn (concat (map (unit_stream (integrity_checks cn)) us) @ byte_of_unit End # rest) st = Some (rest, st') \<and>
      content (world st') = fold (put_unit (session_root (sink st))) us (content (world st)) \<and>
      units_done st' = units_done st + of_nat (length us) \<and>
      bytes_total st' = bytes_total st + of_nat (length (concat (map un_data us)))"
proof (induction us arbitrary: st)
  case Nil
  then show ?case
    by (simp add: handle_upload.simps [of list_read cn] upload_step_def)
next
  case (Cons u us)
  let ?rt = "session_root (sink st)"
  let ?tail = "concat (map (unit_stream (integrity_checks cn)) us) @ byte_of_unit End # rest"
  have ok: "unit_ok ?rt u"
    using Cons.prems(1) by simp
  then obtain full where full: "resolve_safe_path ?rt (un_path u) = Some full"
    by (auto simp: unit_ok_def)
  have "un_type u = File \<or> un_type u = Chunk"
    using ok by (auto simp: unit_ok_def)
  from receive_unit_delivers [OF fs de full this _ coded_first [OF Cons.prems(2)] _ _ _ Cons.prems(3)] ok
  obtain st1 where run: "receive_unit list_read cn (un_type u) (un_path u) (un_base u)
      (unit_frames (un_payloads u) @ unit_end (integrity_checks cn) (un_data u) @ ?tail) st = Some (True, ?tail, st1)"
    and st1: "unit_stored file content dec (c_str full) (un_type u = Chunk) (un_base u) (un_payloads u) (un_data u) st st1"
    unfolding unit_ok_def by blast
  have "handle_upload list_read cn (concat (map (unit_stream (integrity_checks cn)) (u # us)) @ byte_of_unit End # rest) st =
    handle_upload list_read cn ?tail st1"
    using unit_head_reads [OF ok mode, of "integrity_checks cn" ?tail st] run
    by (subst handle_upload.simps) simp
  moreover have "session_root (sink st1) = ?rt" "coded (dec (decoder_ctx st1)) us" "sink_open file (world st1) (sink st1)"
    using st1 coded_rest [where dec = dec, OF Cons.prems(2)] by (simp_all add: unit_stored_def)
  moreover have "content (world st1) = put_unit ?rt u (content (world st))" "units_done st1 = units_done st + 1"
    "bytes_total st1 = bytes_total st + of_nat (length (un_data u))"
    using st1 full by (simp_all add: unit_stored_def put_unit_def)
  ultimately show ?case
    using Cons.IH [of st1] Cons.prems(1) by (auto simp: algebra_simps)
qed

text \<open>The assumptions on what surrounds the consumer thread, together.\<close>

definition upload_site :: "('z, 'w) Conn \<Rightarrow> ('w \<Rightarrow> int \<Rightarrow> string option) \<Rightarrow> ('w \<Rightarrow> string \<Rightarrow> bytes) \<Rightarrow>
    ('z \<Rightarrow> bytes \<Rightarrow> bytes option) \<Rightarrow> ('z \<Rightarrow> bytes \<Rightarrow> nat) \<Rightarrow> bool" where
  "upload_site cn file content dec pot \<longleftrightarrow>
     posix_fs (conn_os cn) file content \<and> fs_healthy (conn_os cn) file \<and> decoder_progress (conn_decode cn) pot \<and>
     streaming_decoder (conn_decode cn) dec \<and> drains (conn_decode cn) dec \<and> (conn_algo cn = Zstd \<or> conn_algo cn = Lz4)"

lemma consumer_delivers:
  assumes "upload_site cn file content dec pot" and "\<not> has_mode (conn_mode cn) ModeAccept" and "source_inv src"
    and "source_stream src = Cmd_Upload # concat (map (unit_stream (integrity_checks cn)) us) @ byte_of_unit End # rest"
    and "list_all (unit_ok (session_root (sink st))) us" and "coded (dec (decoder_ctx st)) us"
    and "sink_open file (world st) (sink st)"
  shows "\<exists>src' st'. consumer_main read_exact cn src st = Some (src', st') \<and>
    content (world st') = fold (put_unit (session_root (sink st))) us (content (world st)) \<and>
    units_done st' = units_done st + of_nat (length us) \<and>
    bytes_total st' = bytes_total st + of_nat (length (concat (map un_data us)))"
proof -
  from handle_upload_delivers [where dec = dec and content = content and pot = pot and rest = rest, OF _ _ _ _ _ _ assms(2,5,6,7)] assms(1)
  obtain st' where "handle_upload list_read cn (concat (map (unit_stream (integrity_checks cn)) us) @ byte_of_unit End # rest) st = Some (rest, st')"
    and st': "content (world st') = fold (put_unit (session_root (sink st))) us (content (world st))"
      "units_done st' = units_done st + of_nat (length us)"
      "bytes_total st' = bytes_total st + of_nat (length (concat (map un_data us)))"
    unfolding upload_site_def by blast
  then have "consumer_main list_read cn (source_stream src) st = Some (rest, st')"
    using assms(4) by (simp add: consumer_main_def)
  then obtain src' where "consumer_main read_exact cn src st = Some (src', st')"
    using chan.consumer_main_sim [OF assms(3), of cn st]
    by (cases "consumer_main read_exact cn src st") (auto simp: chan.sim_end_def)
  with st' show ?thesis by blast
qed

end
