(* ===== verification/Client_Frames.thy ===== *)
theory Client_Frames
  imports Client_Worker Server_Delivery
begin

text \<open>
  What a worker of \<open>Client_Worker\<close> puts on the wire: the frames that \<open>Server_Delivery\<close>
  stores.  The network is described by what has been sent on it; the compressed stream by the hypotheses
  of \<open>Compressor\<close>.
\<close>

section \<open>The network\<close>

definition net_sends :: "('k, 'n, 'h) worker_env \<Rightarrow> ('n \<Rightarrow> bytes) \<Rightarrow> bool" where
  "net_sends env sent \<longleftrightarrow> (\<forall>n b n'. net_enqueue env n b = (True, n') \<longrightarrow> sent n' = sent n @ b)"

definition net_up :: "('k, 'n, 'h) worker_env \<Rightarrow> bool" where
  "net_up env \<longleftrightarrow> (\<forall>n b. fst (net_enqueue env n b))"

lemma enqueue_cases:
  assumes "net_sends env sent"
  obtains (sent) n' where "net_enqueue env n b = (True, n')" "sent n' = sent n @ b"
    | (down) n' where "net_enqueue env n b = (False, n')" "\<not> net_up env"
proof (cases "net_enqueue env n b")
  case (Pair ok n')
  show thesis
  proof (cases ok)
    case True
    with Pair assms that(1) [of n'] show thesis
      by (simp add: net_sends_def)
  next
    case False
    with Pair have "\<not> net_up env"
      unfolding net_up_def by (metis fst_conv)
    with Pair False that(2) [of n'] show thesis
      by simp
  qed
qed

lemma sendBlock_cases:
  assumes "net_sends env sent"
  obtains (sent) n' where "sendBlock env n data = (True, n')" "sent n' = sent n @ block_frame data"
    | (down) n' where "sendBlock env n data = (False, n')" "\<not> net_up env"
  using assms
proof (cases rule: enqueue_cases [where n = n and b = "byte_of_block Data # write_u32_le (of_nat (length data))"])
  case (sent n1)
  note first = this
  from assms show thesis
  proof (cases rule: enqueue_cases [where n = n1 and b = data])
    case (sent n2)
    with first show thesis
      using that(1) [of n2] by (simp add: sendBlock_def block_frame_def)
  next
    case (down n2)
    with first show thesis
      using that(2) [of n2] by (simp add: sendBlock_def)
  qed
next
  case (down n1)
  then show thesis
    using that(2) [of n1] by (simp add: sendBlock_def)
qed

lemma produced_payload: "out \<noteq> [] \<Longrightarrow> length out \<le> OUT_BUF_SIZE \<Longrightarrow> payload_ok out"
  by (simp add: payload_ok_def kMaxBlockSize_def OUT_BUF_SIZE_def READ_BLOCK_def)

lemma unit_frames_simps [simp]: "unit_frames [] = []" "unit_frames (p # ps) = block_frame p @ unit_frames ps"
  "unit_frames (ps @ qs) = unit_frames ps @ unit_frames qs"
  by (simp_all add: unit_frames_def)

section \<open>One unit\<close>

lemma upload_blocks_frames:
  assumes "net_sends env sent" and "codec_documented (env_codec env) decode coding"
  shows "comp_algo cmp = Zstd \<or> comp_algo cmp = Lz4 \<Longrightarrow> list_all (\<lambda>b. length b \<le> READ_BLOCK) blks \<Longrightarrow> coding (cctx cmp) s t \<Longrightarrow>
    \<exists>ok ck' cmp' net' n' ps. upload_blocks env integ blks ck cmp net n = Some (ok, ck', cmp', net', n') \<and> (net_up env \<longrightarrow> ok) \<and>
      (ok \<longrightarrow> sent net' = sent net @ unit_frames ps \<and> list_all payload_ok ps \<and> comp_algo cmp' = comp_algo cmp \<and>
        coding (cctx cmp') (s @ concat ps) (t @ concat blks) \<and> (integ \<longrightarrow> ck' = foldl XXH64_update ck blks))"
proof (induction blks arbitrary: ck cmp net n s t)
  case Nil
  then show ?case
    by (intro exI [of _ True] exI [of _ ck] exI [of _ cmp] exI [of _ net] exI [of _ n] exI [of _ "[]"]) simp
next
  case (Cons b blks)
  let ?ck = "if integ then XXH64_update ck b else ck"
  from comp_update_codes [OF assms(2) Cons.prems(1,3), of b] Cons.prems(2)
  obtain out cmp1 where up: "comp_update (env_codec env) OUT_BUF_SIZE cmp b = Some (out, cmp1)" "length out \<le> OUT_BUF_SIZE"
      "comp_algo cmp1 = comp_algo cmp" "coding (cctx cmp1) (s @ out) (t @ b)"
    by auto
  have blks: "comp_algo cmp1 = Zstd \<or> comp_algo cmp1 = Lz4" "list_all (\<lambda>b. length b \<le> READ_BLOCK) blks"
    using Cons.prems up(3) by simp_all
  note IH = Cons.IH [OF blks up(4), of ?ck]
  show ?case
  proof (cases "out = []")
    case True
    then have run: "upload_blocks env integ (b # blks) ck cmp net n = upload_blocks env integ blks ?ck cmp1 net n"
      using up(1) by simp
    show ?thesis
      unfolding run using IH [of net n] up(3) True by simp
  next
    case False
    from assms(1) show ?thesis
    proof (cases rule: sendBlock_cases [where n = net and data = out])
      case (sent net1)
      obtain ok ck' cmp' net' n' ps where "upload_blocks env integ blks ?ck cmp1 net1 (n + of_nat (length out)) = Some (ok, ck', cmp', net', n')"
        "net_up env \<longrightarrow> ok" "ok \<longrightarrow> sent net' = sent net1 @ unit_frames ps \<and> list_all payload_ok ps \<and> comp_algo cmp' = comp_algo cmp1 \<and>
          coding (cctx cmp') ((s @ out) @ concat ps) ((t @ b) @ concat blks) \<and> (integ \<longrightarrow> ck' = foldl XXH64_update ?ck blks)"
        using IH [of net1 "n + of_nat (length out)"] by blast
      with sent False up produced_payload [OF False up(2)] show ?thesis
        by (intro exI [of _ ok] exI [of _ ck'] exI [of _ cmp'] exI [of _ net'] exI [of _ n'] exI [of _ "out # ps"]) simp
    next
      case (down net1)
      with False up(1) have "upload_blocks env integ (b # blks) ck cmp net n = Some (False, ?ck, cmp1, net1, n)"
        by simp
      with down(2) show ?thesis
        by blast
    qed
  qed
qed

lemma upload_tail_frames:
  assumes "net_sends env sent" and "codec_documented (env_codec env) decode coding"
    and "comp_algo cmp = Zstd \<or> comp_algo cmp = Lz4" and "coding (cctx cmp) s t"
  shows "\<exists>ok cmp' net' n' ps. upload_tail env integ ck cmp net n = Some (ok, cmp', net', n') \<and> (net_up env \<longrightarrow> ok) \<and>
      (ok \<longrightarrow> sent net' = sent net @ unit_frames ps @ byte_of_block EndOfUnit # (if integ then write_u64_le (XXH64_digest ck) else []) \<and>
        list_all payload_ok ps \<and> comp_algo cmp' = comp_algo cmp \<and> coding (cctx cmp') (s @ concat ps) t \<and>
        decode (s @ concat ps) = Some t)"
proof -
  from comp_flush_codes [OF assms(2,3,4)] obtain out cmp' where fl:
      "comp_flush (env_codec env) OUT_BUF_SIZE cmp = Some (out, cmp')" "length out \<le> OUT_BUF_SIZE"
      "comp_algo cmp' = comp_algo cmp" "coding (cctx cmp') (s @ out) t" "decode (s @ out) = Some t"
    by blast
  define ps where "ps = (if out = [] then [] else [out])"
  have ps: "concat ps = out" "list_all payload_ok ps"
    using produced_payload fl(2) by (simp_all add: ps_def)
  have flushed: "\<exists>ok net1. (if out \<noteq> [] then sendBlock env net out else (True, net)) = (ok, net1) \<and> (net_up env \<longrightarrow> ok) \<and>
      (ok \<longrightarrow> sent net1 = sent net @ unit_frames ps)"
    using assms(1) by (cases rule: sendBlock_cases [where n = net and data = out]) (auto simp: ps_def)
  then obtain ok net1 where send: "(if out \<noteq> [] then sendBlock env net out else (True, net)) = (ok, net1)" "net_up env \<longrightarrow> ok"
      "ok \<longrightarrow> sent net1 = sent net @ unit_frames ps"
    by blast
  from assms(1) obtain ok2 net2 where mark: "net_enqueue env net1 [byte_of_block EndOfUnit] = (ok2, net2)" "net_up env \<longrightarrow> ok2"
      "ok2 \<longrightarrow> sent net2 = sent net1 @ [byte_of_block EndOfUnit]"
    by (cases rule: enqueue_cases [where n = net1 and b = "[byte_of_block EndOfUnit]"]) auto
  from assms(1) obtain ok3 net3 where sum: "net_enqueue env net2 (write_u64_le (XXH64_digest ck)) = (ok3, net3)" "net_up env \<longrightarrow> ok3"
      "ok3 \<longrightarrow> sent net3 = sent net2 @ write_u64_le (XXH64_digest ck)"
    by (cases rule: enqueue_cases [where n = net2 and b = "write_u64_le (XXH64_digest ck)"]) auto
  have "upload_tail env integ ck cmp net n =
      (if \<not> ok then Some (False, cmp', net1, n)
       else if \<not> ok2 then Some (False, cmp', net2, n + of_nat (length out))
       else if integ then Some (ok3, cmp', net3, n + of_nat (length out))
       else Some (True, cmp', net2, n + of_nat (length out)))"
    using fl(1) send(1) mark(1) sum(1) unfolding upload_tail_def by (auto simp: Let_def split: prod.splits bool.splits)
  then show ?thesis
    using fl(3,4,5) ps send(2,3) mark(2,3) sum(2,3) by (auto intro!: exI [of _ ps])
qed

text \<open>The unit a task becomes, with the payloads it was sent in.\<close>

definition task_unit :: "('k, 'n, 'h) worker_env \<Rightarrow> Task \<Rightarrow> bytes list \<Rightarrow> Unit" where
  "task_unit env t ps =
     \<lparr>un_type = task_type t, un_path = pathname t, un_base = (if task_type t = Chunk then task_offset t else 0),
      un_payloads = ps, un_data = concat (storage_blocks env t)\<rparr>"

lemma task_unit_stream:
  "unit_stream integ (task_unit env t ps) =
     unitHeader t @ unit_frames ps @ unit_end integ (concat (storage_blocks env t))"
  by (simp add: unit_stream_def task_unit_def unitHeader_def append_u16_def append_u64_def Let_def)

lemma storage_length: "length (concat (storage_blocks env t)) < 2 ^ 64"
proof -
  have "unat (task_length t) < 2 ^ 64"
    using unsigned_less [of "task_length t"] by simp
  then show ?thesis
    using read_request_length [of "env_disk env" "submit t"]
    by (simp add: storage_blocks_def submit_def)
qed

lemma send_unit_frames:
  assumes "net_sends env sent" and "codec_documented (env_codec env) decode coding"
    and "comp_algo (compressor wk) = Zstd \<or> comp_algo (compressor wk) = Lz4" and "coding (cctx (compressor wk)) s d"
  shows "\<exists>ok wk' net' ps. send_unit env t header wk net = Some (ok, wk', net') \<and> (net_up env \<longrightarrow> ok) \<and>
    (ok \<longrightarrow> sent net' = sent net @ header @ unit_frames ps @ unit_end (wk_integrity wk) (concat (storage_blocks env t)) \<and>
      list_all payload_ok ps \<and> comp_algo (compressor wk') = comp_algo (compressor wk) \<and>
      acceptMode wk' = acceptMode wk \<and> wk_integrity wk' = wk_integrity wk \<and>
      coding (cctx (compressor wk')) (s @ concat ps) (d @ concat (storage_blocks env t)) \<and>
      decode (s @ concat ps) = Some (d @ concat (storage_blocks env t)))"
  using assms(1)
proof (cases rule: enqueue_cases [where n = net and b = header])
  case (down n1)
  then have "\<exists>wk'. send_unit env t header wk net = Some (False, wk', n1)"
    by (simp add: send_unit_def upload_def)
  with down(2) show ?thesis
    by blast
next
  case (sent n1)
  let ?blks = "storage_blocks env t"
  have "list_all (\<lambda>b. length b \<le> READ_BLOCK) ?blks"
    using read_request_bounded [of "env_disk env" "submit t"] by (simp add: storage_blocks_def list_all_iff)
  from upload_blocks_frames [OF assms(1,2,3) this assms(4), of "wk_integrity wk" "XXH64_reset 0" n1 0]
  obtain ok ck cmp n2 b2 ps where run: "upload_blocks env (wk_integrity wk) ?blks (XXH64_reset 0) (compressor wk) n1 0 = Some (ok, ck, cmp, n2, b2)"
    "net_up env \<longrightarrow> ok"
    and ps: "ok \<Longrightarrow> sent n2 = sent n1 @ unit_frames ps" "ok \<Longrightarrow> list_all payload_ok ps" "ok \<Longrightarrow> comp_algo cmp = comp_algo (compressor wk)"
      "ok \<Longrightarrow> coding (cctx cmp) (s @ concat ps) (d @ concat ?blks)" "ok \<Longrightarrow> wk_integrity wk \<Longrightarrow> ck = foldl XXH64_update (XXH64_reset 0) ?blks"
    by blast
  show ?thesis
  proof (cases ok)
    case False
    with run(1) sent(1) have "\<exists>wk'. send_unit env t header wk net = Some (False, wk', n2)"
      by (simp add: send_unit_def upload_def client_emit_def)
    with run(2) False show ?thesis
      by blast
  next
    case True
    have ck: "wk_integrity wk \<Longrightarrow> XXH64_digest ck = XXH64 (concat ?blks) 0"
      using ps(5) True XXH64_digest_blocks [OF storage_length] by simp
    from upload_tail_frames [OF assms(1,2) _ ps(4) [OF True], of "wk_integrity wk" ck n2 b2] assms(3) ps(3) True
    obtain ok2 cmp2 n3 b3 qs where tail: "upload_tail env (wk_integrity wk) ck cmp n2 b2 = Some (ok2, cmp2, n3, b3)" "net_up env \<longrightarrow> ok2"
      "ok2 \<Longrightarrow> sent n3 = sent n2 @ unit_frames qs @ byte_of_block EndOfUnit # (if wk_integrity wk then write_u64_le (XXH64_digest ck) else [])"
      "ok2 \<Longrightarrow> list_all payload_ok qs" "ok2 \<Longrightarrow> comp_algo cmp2 = comp_algo cmp" "ok2 \<Longrightarrow> coding (cctx cmp2) ((s @ concat ps) @ concat qs) (d @ concat ?blks)"
      "ok2 \<Longrightarrow> decode ((s @ concat ps) @ concat qs) = Some (d @ concat ?blks)"
      by auto
    obtain wk' where "send_unit env t header wk net = Some (ok2, wk', n3)" "compressor wk' = cmp2" "acceptMode wk' = acceptMode wk"
      "wk_integrity wk' = wk_integrity wk"
      using run(1) True sent(1) tail(1) by (simp add: send_unit_def upload_def client_emit_def)
    then show ?thesis
      using tail ps(1,2,3) True sent(2) ck
      by (intro exI [of _ ok2] exI [of _ wk'] exI [of _ n3] exI [of _ "ps @ qs"]) (simp add: unit_end_def)
  qed
qed

section \<open>A run of tasks\<close>

text \<open>
  The worker's channel hands it the tasks one after the other; with each comes the answer of
  \<open>occupancy\<close>, whether no further task is waiting.
\<close>

fun process_tasks :: "('k, 'n, 'h) worker_env \<Rightarrow> (bool \<times> Task) list \<Rightarrow> 'k Worker \<Rightarrow> 'n \<Rightarrow> (bool \<times> 'k Worker \<times> 'n) option" where
  "process_tasks env [] wk net = Some (True, wk, net)"
| "process_tasks env ((idle, t) # ts) wk net =
     (case process_task env idle t wk net of
        None \<Rightarrow> None
      | Some (False, wk', net') \<Rightarrow> Some (False, wk', net')
      | Some (True, wk', net') \<Rightarrow> process_tasks env ts wk' net')"

text \<open>The units sent so far, after \<open>s\<close> has been sent for \<open>d\<close>, decode one after the other.\<close>

definition coded_from :: "(bytes \<Rightarrow> bytes option) \<Rightarrow> bytes \<Rightarrow> bytes \<Rightarrow> Unit list \<Rightarrow> bool" where
  "coded_from decode s d us \<longleftrightarrow> (\<forall>n\<le>length us.
     decode (s @ concat (concat (map un_payloads (take n us)))) = Some (d @ concat (map un_data (take n us))))"

lemma coded_from_Cons:
  assumes "decode s = Some d" and "coded_from decode (s @ concat (un_payloads u)) (d @ un_data u) us"
  shows "coded_from decode s d (u # us)"
  unfolding coded_from_def
proof (intro allI impI)
  fix n
  assume "n \<le> length (u # us)"
  with assms show "decode (s @ concat (concat (map un_payloads (take n (u # us))))) = Some (d @ concat (map un_data (take n (u # us))))"
    by (cases n) (simp_all add: coded_from_def)
qed

definition sent_as :: "('k, 'n, 'h) worker_env \<Rightarrow> Task \<Rightarrow> Unit \<Rightarrow> bool" where
  "sent_as env t u \<longleftrightarrow> (\<exists>ps. u = task_unit env t ps \<and> list_all payload_ok ps \<and> (ps = [] \<longrightarrow> un_data u = []))"

lemma process_tasks_frames:
  assumes "net_sends env sent" and "codec_documented (env_codec env) decode coding"
  shows "comp_algo (compressor wk) = Zstd \<or> comp_algo (compressor wk) = Lz4 \<Longrightarrow> \<not> acceptMode wk \<Longrightarrow>
    coding (cctx (compressor wk)) s d \<Longrightarrow> decode s = Some d \<Longrightarrow>
    \<exists>ok wk' net' us. process_tasks env ts wk net = Some (ok, wk', net') \<and> (net_up env \<longrightarrow> ok) \<and>
      (ok \<longrightarrow> sent net' = sent net @ concat (map (unit_stream (wk_integrity wk)) us) \<and>
        list_all2 (sent_as env) (map snd ts) us \<and> coded_from decode s d us)"
proof (induction ts arbitrary: wk net s d)
  case Nil
  then show ?case
    by (intro exI [of _ True] exI [of _ wk] exI [of _ net] exI [of _ "[]"]) (simp add: coded_from_def)
next
  case (Cons it ts)
  obtain idle t where it: "it = (idle, t)"
    by fastforce
  let ?d = "concat (storage_blocks env t)"
  obtain ok wk1 net1 ps where run: "send_unit env t (unitHeader t) wk net = Some (ok, wk1, net1)" "net_up env \<longrightarrow> ok"
    and ps: "ok \<Longrightarrow> sent net1 = sent net @ unitHeader t @ unit_frames ps @ unit_end (wk_integrity wk) ?d"
      "ok \<Longrightarrow> list_all payload_ok ps" "ok \<Longrightarrow> comp_algo (compressor wk1) = comp_algo (compressor wk)"
      "ok \<Longrightarrow> acceptMode wk1 = acceptMode wk" "ok \<Longrightarrow> wk_integrity wk1 = wk_integrity wk"
      "ok \<Longrightarrow> coding (cctx (compressor wk1)) (s @ concat ps) (d @ ?d)" "ok \<Longrightarrow> decode (s @ concat ps) = Some (d @ ?d)"
    using send_unit_frames [OF assms Cons.prems(1,3), of t "unitHeader t" net] by blast
  show ?case
  proof (cases ok)
    case False
    with run(1) it Cons.prems(2) have "process_tasks env (it # ts) wk net = Some (False, wk1, net1)"
      by (simp add: process_task_def)
    with False run(2) show ?thesis
      by blast
  next
    case True
    then have alg: "comp_algo (compressor wk1) = Zstd \<or> comp_algo (compressor wk1) = Lz4" "\<not> acceptMode wk1"
      using Cons.prems(1,2) ps(3,4) by simp_all
    obtain ok' wk2 net2 us where rest: "process_tasks env ts wk1 net1 = Some (ok', wk2, net2)" "net_up env \<longrightarrow> ok'"
      "ok' \<Longrightarrow> sent net2 = sent net1 @ concat (map (unit_stream (wk_integrity wk1)) us)"
      "ok' \<Longrightarrow> list_all2 (sent_as env) (map snd ts) us" "ok' \<Longrightarrow> coded_from decode (s @ concat ps) (d @ ?d) us"
      using Cons.IH [OF alg ps(6,7) [OF True], of net1] by blast
    let ?u = "task_unit env t ps"
    have u: "un_payloads ?u = ps" "un_data ?u = ?d"
      by (simp_all add: task_unit_def)
    have "ps = [] \<Longrightarrow> ?d = []"
      using ps(7) [OF True] Cons.prems(4) by simp
    then have "sent_as env t ?u"
      unfolding sent_as_def u(2) using ps(2) [OF True] by (intro exI [of _ ps]) simp
    moreover have "process_tasks env (it # ts) wk net = Some (ok', wk2, net2)"
      using run(1) rest(1) True it Cons.prems(2) by (simp add: process_task_def)
    moreover have "ok' \<Longrightarrow> coded_from decode s d (?u # us)"
      using coded_from_Cons [where decode = decode and u = ?u and us = us, OF Cons.prems(4)] rest(5) u by simp
    ultimately show ?thesis
      using rest(2,3,4) ps(1,5) True it
      by (intro exI [of _ ok'] exI [of _ wk2] exI [of _ net2] exI [of _ "?u # us"]) (simp add: task_unit_stream)
  qed
qed

section \<open>From the uploader's disk to the server's\<close>

text \<open>A task the server takes: a path it resolves, and a range of offsets below the largest file offset.\<close>

definition task_ok :: "string \<Rightarrow> Task \<Rightarrow> bool" where
  "task_ok rt t \<longleftrightarrow> (task_type t = File \<and> task_offset t = 0 \<or> task_type t = Chunk) \<and>
     pathname t \<noteq> [] \<and> pathname t = copy_path (pathname t) \<and> resolve_safe_path rt (pathname t) \<noteq> None \<and>
     unat (task_offset t) + unat (task_length t) < 2 ^ 63"

definition on_disk :: "'h disk \<Rightarrow> (string \<Rightarrow> bytes) \<Rightarrow> Task \<Rightarrow> bool" where
  "on_disk dk files t \<longleftrightarrow> (\<exists>h. disk_open dk (pathname t) = Some h \<and> reads_file dk h (files (pathname t)))"

definition task_data :: "(string \<Rightarrow> bytes) \<Rightarrow> Task \<Rightarrow> bytes" where
  "task_data files t = take (unat (task_length t)) (drop (unat (task_offset t)) (files (pathname t)))"

text \<open>What storing a task does to the files of the session.\<close>

definition put_task :: "string \<Rightarrow> (string \<Rightarrow> bytes) \<Rightarrow> Task \<Rightarrow> (string \<Rightarrow> bytes) \<Rightarrow> string \<Rightarrow> bytes" where
  "put_task rt files t c =
     (case resolve_safe_path rt (pathname t) of
        None \<Rightarrow> c
      | Some full \<Rightarrow> c(c_str full := stored (task_type t = Chunk) (task_offset t) (c (c_str full)) (task_data files t)))"

lemma storage_blocks_data:
  assumes "on_disk (env_disk env) files t" and "task_ok rt t"
  shows "concat (storage_blocks env t) = task_data files t"
proof -
  obtain h where h: "disk_open (env_disk env) (rq_pathname (submit t)) = Some h"
      "reads_file (env_disk env) h (files (pathname t))"
    using assms by (auto simp: on_disk_def task_ok_def submit_def)
  have "unat (rq_offset (submit t)) + unat (rq_length (submit t)) < 2 ^ 64"
    using assms(2) by (simp add: submit_def task_ok_def)
  with read_request_reads(1) [OF h this] show ?thesis
    by (simp add: storage_blocks_def task_data_def submit_def)
qed

lemma sent_unit_ok:
  assumes "sent_as env t u" and "on_disk (env_disk env) files t" and "task_ok rt t"
  shows "unit_ok rt u" and "put_unit rt u = put_task rt files t"
proof -
  obtain ps where u: "u = task_unit env t ps" "list_all payload_ok ps" "ps = [] \<longrightarrow> un_data u = []"
    using assms(1) by (auto simp: sent_as_def)
  have data: "un_data u = task_data files t"
    using storage_blocks_data [OF assms(2,3)] by (simp add: u task_unit_def)
  have uf: "un_type u = task_type t" "un_path u = pathname t" "un_payloads u = ps"
      "un_base u = (if task_type t = Chunk then task_offset t else 0)"
    by (simp_all add: u(1) task_unit_def)
  have len: "length (pathname t) < PATH_CAP"
    using assms(3) unfolding task_ok_def copy_path_def PATH_CAP_def
    by (metis (no_types, lifting) diff_less le_less_trans length_take less_numeral_extra(1) min.cobounded2 zero_less_numeral)
  have "length (task_data files t) \<le> unat (task_length t)"
    by (simp add: task_data_def)
  with assms(3) have "fits (task_type t = Chunk) (task_offset t) (length (task_data files t))"
    by (auto simp: fits_def task_ok_def)
  moreover have "length (task_data files t) < 2 ^ 64"
    using storage_length [of env t] storage_blocks_data [OF assms(2,3)] by simp
  ultimately show "unit_ok rt u"
    using u(2,3) data assms(3) len uf
    by (auto simp: unit_ok_def task_ok_def kMaxPathLength_def PATH_CAP_def)
  show "put_unit rt u = put_task rt files t"
    using data uf by (auto simp: put_unit_def put_task_def stored_def fun_eq_iff split: option.split)
qed

lemma sent_units_ok:
  assumes "list_all2 (sent_as env) ts us" and "list_all (on_disk (env_disk env) files) ts" and "list_all (task_ok rt) ts"
  shows "list_all (unit_ok rt) us \<and> fold (put_unit rt) us c = fold (put_task rt files) ts c"
  using assms sent_unit_ok [of env _ _ files rt]
  by (induction arbitrary: c rule: list_all2_induct) auto

text \<open>A worker that has just been accepted, in front of a network that is up.\<close>

definition uploader_ready :: "('k, 'n, 'h) worker_env \<Rightarrow> 'k Worker \<Rightarrow> ('n \<Rightarrow> bytes) \<Rightarrow> (bytes \<Rightarrow> bytes option) \<Rightarrow>
    ('k \<Rightarrow> bytes \<Rightarrow> bytes \<Rightarrow> bool) \<Rightarrow> bool" where
  "uploader_ready env wk sent decode coding \<longleftrightarrow>
     net_sends env sent \<and> net_up env \<and> codec_documented (env_codec env) decode coding \<and>
     (comp_algo (compressor wk) = Zstd \<or> comp_algo (compressor wk) = Lz4) \<and> \<not> acceptMode wk \<and>
     coding (cctx (compressor wk)) [] [] \<and> decode [] = Some []"

lemma worker_run_frames:
  assumes "uploader_ready env wk sent decode coding"
  shows "\<exists>wk' net' us. process_tasks env ts wk net = Some (True, wk', net') \<and>
    sent (worker_finish env net') = sent net @ concat (map (unit_stream (wk_integrity wk)) us) @ [byte_of_unit End] \<and>
    list_all2 (sent_as env) (map snd ts) us \<and> coded decode us"
proof -
  note ready = assms [unfolded uploader_ready_def]
  obtain ok wk' net' us where run: "process_tasks env ts wk net = Some (ok, wk', net')" "net_up env \<longrightarrow> ok"
      "ok \<Longrightarrow> sent net' = sent net @ concat (map (unit_stream (wk_integrity wk)) us)"
      "ok \<Longrightarrow> list_all2 (sent_as env) (map snd ts) us" "ok \<Longrightarrow> coded_from decode [] [] us"
    using process_tasks_frames [where env = env and sent = sent and decode = decode and coding = coding and wk = wk
        and s = "[]" and d = "[]" and ts = ts and net = net] ready by blast
  have ok using run(2) ready by simp
  have "sent (worker_finish env net') = sent net' @ [byte_of_unit End]"
    using conjunct1 [OF ready] unfolding worker_finish_def
    by (cases rule: enqueue_cases [where n = net' and b = "[byte_of_unit End]"]) (use ready in auto)
  with run \<open>ok\<close> show ?thesis
    by (auto simp: coded_def coded_from_def)
qed

end
