(* ===== verification/Upload_Plan.thy ===== *)
theory Upload_Plan
  imports Scheduler Client_Frames "HOL-Library.Multiset"
begin

text \<open>
  The units the scheduler cuts a file into, stored by the server: in whatever order they arrive, over
  however many connections, the stored file is the uploader's.
\<close>

section \<open>Overwriting with pieces of one file\<close>

definition part_of :: "bytes \<Rightarrow> nat \<times> bytes \<Rightarrow> bool" where
  "part_of d piece \<longleftrightarrow> snd piece \<noteq> [] \<and> fst piece + length (snd piece) \<le> length d \<and>
     snd piece = take (length (snd piece)) (drop (fst piece) d)"

definition overwrite_all :: "(nat \<times> bytes) list \<Rightarrow> bytes \<Rightarrow> bytes" where
  "overwrite_all ps c = fold (\<lambda>piece c. overwrite c (fst piece) (snd piece)) ps c"

lemma overwrite_part:
  assumes "part_of d piece" and "length c \<le> length d"
  shows "length (overwrite c (fst piece) (snd piece)) \<le> length d"
    and "fst piece \<le> i \<Longrightarrow> i < fst piece + length (snd piece) \<Longrightarrow>
      i < length (overwrite c (fst piece) (snd piece)) \<and> overwrite c (fst piece) (snd piece) ! i = d ! i"
    and "i < length c \<Longrightarrow> c ! i = d ! i \<Longrightarrow>
      i < length (overwrite c (fst piece) (snd piece)) \<and> overwrite c (fst piece) (snd piece) ! i = d ! i"
proof -
  have le: "fst piece + length (snd piece) \<le> length d" and eq: "snd piece = take (length (snd piece)) (drop (fst piece) d)"
    using assms(1) by (simp_all add: part_of_def)
  have nth: "snd piece ! (i - fst piece) = d ! i" if "fst piece \<le> i" "i < fst piece + length (snd piece)" for i
  proof -
    have "snd piece ! (i - fst piece) = take (length (snd piece)) (drop (fst piece) d) ! (i - fst piece)"
      using eq by simp
    also have "\<dots> = d ! i"
      using that le by simp
    finally show ?thesis .
  qed
  show "length (overwrite c (fst piece) (snd piece)) \<le> length d"
    using assms(2) le by simp
  show "fst piece \<le> i \<Longrightarrow> i < fst piece + length (snd piece) \<Longrightarrow>
      i < length (overwrite c (fst piece) (snd piece)) \<and> overwrite c (fst piece) (snd piece) ! i = d ! i"
    using nth by (simp add: nth_overwrite)
  show "i < length c \<Longrightarrow> c ! i = d ! i \<Longrightarrow>
      i < length (overwrite c (fst piece) (snd piece)) \<and> overwrite c (fst piece) (snd piece) ! i = d ! i"
    using nth by (auto simp: nth_overwrite less_max_iff_disj)
qed

lemma overwrite_all_parts:
  assumes "list_all (part_of d) ps" and "length c \<le> length d"
  shows "length (overwrite_all ps c) \<le> length d \<and>
    (\<forall>i. (i < length c \<and> c ! i = d ! i) \<or> (\<exists>piece\<in>set ps. fst piece \<le> i \<and> i < fst piece + length (snd piece)) \<longrightarrow>
      i < length (overwrite_all ps c) \<and> overwrite_all ps c ! i = d ! i)"
  using assms
proof (induction ps arbitrary: c)
  case Nil
  then show ?case by (simp add: overwrite_all_def)
next
  case (Cons piece ps)
  let ?c = "overwrite c (fst piece) (snd piece)"
  have part: "part_of d piece" and rest: "list_all (part_of d) ps"
    using Cons.prems(1) by simp_all
  have run: "overwrite_all (piece # ps) c = overwrite_all ps ?c"
    by (simp add: overwrite_all_def)
  show ?case
    unfolding run using Cons.IH [OF rest overwrite_part(1) [OF part Cons.prems(2)]] overwrite_part(2,3) [OF part Cons.prems(2)]
    by auto
qed

lemma parts_rebuild:
  assumes "list_all (part_of d) ps" and "length c \<le> length d"
    and "\<And>i. i < length d \<Longrightarrow> \<exists>piece\<in>set ps. fst piece \<le> i \<and> i < fst piece + length (snd piece)"
  shows "overwrite_all ps c = d"
proof -
  have all: "i < length (overwrite_all ps c) \<and> overwrite_all ps c ! i = d ! i" if "i < length d" for i
    using overwrite_all_parts [OF assms(1,2)] assms(3) [OF that] by blast
  moreover have "length (overwrite_all ps c) \<le> length d"
    using overwrite_all_parts [OF assms(1,2)] by blast
  ultimately have "length (overwrite_all ps c) = length d"
    by (metis le_neq_implies_less less_irrefl)
  with all show ?thesis
    by (intro nth_equalityI) auto
qed

section \<open>The chunks of a file\<close>

definition task_piece :: "(string \<Rightarrow> bytes) \<Rightarrow> Task \<Rightarrow> nat \<times> bytes" where
  "task_piece files t = (unat (task_offset t), task_data files t)"

lemma chunk_piece:
  fixes mtime :: u64
  assumes "copy_path path = path" and "length (files path) = unat fsize" and "0 < unat csize" and "off < unat fsize"
  defines "t \<equiv> worker_task Chunk path (of_nat off) (of_nat (min (unat csize) (unat fsize - off))) fsize mtime"
  shows "task_type t = Chunk" and "pathname t = path"
    and "task_piece files t = (off, take (min (unat csize) (unat fsize - off)) (drop off (files path)))"
    and "part_of (files path) (task_piece files t)"
proof -
  have "unat fsize < 2 ^ 64"
    using unsigned_less [of fsize] by simp
  then have "unat (of_nat off :: u64) = off" "unat (of_nat (min (unat csize) (unat fsize - off)) :: u64) = min (unat csize) (unat fsize - off)"
    using assms(4) by (simp_all add: unat_u64_of_nat)
  then show piece: "task_piece files t = (off, take (min (unat csize) (unat fsize - off)) (drop off (files path)))"
    using assms(1) by (simp add: t_def worker_task_def task_piece_def task_data_def)
  show "task_type t = Chunk" "pathname t = path"
    using assms(1) by (simp_all add: t_def worker_task_def)
  show "part_of (files path) (task_piece files t)"
    unfolding piece part_of_def using assms(2,3,4) by auto
qed

lemma chunks_from_parts:
  assumes "copy_path path = path" and "length (files path) = unat fsize"
  shows "list_all (\<lambda>t. task_type t = Chunk \<and> pathname t = path \<and> part_of (files path) (task_piece files t))
      (chunks_from csize path fsize mtime off) \<and>
    (0 < unat csize \<longrightarrow> (\<forall>i. off \<le> i \<and> i < unat fsize \<longrightarrow> (\<exists>t\<in>set (chunks_from csize path fsize mtime off).
      fst (task_piece files t) \<le> i \<and> i < fst (task_piece files t) + length (snd (task_piece files t)))))"
  using assms
proof (induction csize path fsize mtime off rule: chunks_from.induct)
  case (1 csize path fsize mtime off)
  show ?case
  proof (cases "0 < unat csize \<and> off < unat fsize")
    case False
    then show ?thesis
      by (auto simp: chunks_from.simps [of csize path fsize mtime off])
  next
    case True
    let ?t = "worker_task Chunk path (of_nat off) (of_nat (min (unat csize) (unat fsize - off))) fsize mtime"
    let ?rest = "chunks_from csize path fsize mtime (off + unat csize)"
    note t = chunk_piece [where files = files and mtime = mtime, OF 1(2,3) conjunct1 [OF True] conjunct2 [OF True]]
    have list: "chunks_from csize path fsize mtime off = ?t # ?rest"
      using True by (simp add: chunks_from.simps [of csize path fsize mtime off])
    have here: "fst (task_piece files ?t) \<le> i \<and> i < fst (task_piece files ?t) + length (snd (task_piece files ?t))"
      if "off \<le> i" "i < off + unat csize" "i < unat fsize" for i
      using that 1(3) by (simp add: t(3))
    note IH = 1(1) [OF True 1(2,3)]
    have "\<exists>u\<in>set (?t # ?rest). fst (task_piece files u) \<le> i \<and> i < fst (task_piece files u) + length (snd (task_piece files u))"
      if i: "off \<le> i" "i < unat fsize" for i
    proof (cases "i < off + unat csize")
      case True
      with here i show ?thesis
        by (intro bexI [of _ ?t]) simp_all
    next
      case False
      with IH True i obtain u where "u \<in> set ?rest"
        "fst (task_piece files u) \<le> i \<and> i < fst (task_piece files u) + length (snd (task_piece files u))"
        by (meson not_less)
      then show ?thesis
        by (intro bexI [of _ u]) simp_all
    qed
    then show ?thesis
      unfolding list list.pred_inject using conjunct1 [OF IH] t by blast
  qed
qed

section \<open>Storing the units of a file\<close>

lemma put_chunks:
  assumes "resolve_safe_path rt path = Some full"
  shows "list_all (\<lambda>t. task_type t = Chunk \<and> pathname t = path \<and> part_of (files path) (task_piece files t)) us \<Longrightarrow>
    fold (put_task rt files) us c = c(c_str full := overwrite_all (map (task_piece files) us) (c (c_str full)))"
proof (induction us arbitrary: c)
  case Nil
  then show ?case by (simp add: overwrite_all_def)
next
  case (Cons t us)
  have "task_data files t \<noteq> []"
    using Cons.prems by (simp add: part_of_def task_piece_def)
  then have "put_task rt files t c = c(c_str full := overwrite (c (c_str full)) (unat (task_offset t)) (task_data files t))"
    using Cons.prems assms by (simp add: put_task_def stored_def)
  then show ?case
    using Cons.IH Cons.prems by (simp add: overwrite_all_def task_piece_def fun_eq_iff)
qed

lemma file_tasks_stored:
  assumes "config_ok cfg" and "copy_path path = path" and "length (files path) = unat fsize"
    and "resolve_safe_path rt path = Some full" and "length (c (c_str full)) \<le> unat fsize"
    and "mset us = mset (file_tasks cfg path (Some fsize) lwt)"
  shows "fold (put_task rt files) us c = c(c_str full := files path)"
proof (cases "bigFileThreshold cfg \<le> fsize")
  case False
  let ?t = "worker_task File path 0 fsize fsize (case lwt of None \<Rightarrow> 0 | Some t \<Rightarrow> t)"
  have "us = [?t]"
    using assms(6) False by (simp add: file_tasks_def)
  moreover have "task_data files ?t = files path"
    using assms(2,3) by (simp add: task_data_def worker_task_def)
  ultimately show ?thesis
    using assms(2,4) by (simp add: put_task_def stored_def worker_task_def)
next
  case True
  define ts where "ts = chunks_from (chunkSize cfg) path fsize (case lwt of None \<Rightarrow> 0 | Some t \<Rightarrow> t) 0"
  have "mset us = mset ts"
    using assms(6) True by (simp add: file_tasks_def ts_def)
  then have us: "set us = set ts"
    by (rule mset_eq_setD)
  have "0 < unat (chunkSize cfg)"
    using assms(1) by (auto simp: config_ok_def unat_gt_0)
  note chunks = chunks_from_parts [where files = files and csize = "chunkSize cfg" and off = 0 and
      mtime = "case lwt of None \<Rightarrow> 0 | Some t \<Rightarrow> t", OF assms(2,3), folded ts_def]
  have parts: "list_all (\<lambda>t. task_type t = Chunk \<and> pathname t = path \<and> part_of (files path) (task_piece files t)) us"
    using conjunct1 [OF chunks] by (simp only: list_all_iff us)
  have cover: "\<exists>t\<in>set us. fst (task_piece files t) \<le> i \<and> i < fst (task_piece files t) + length (snd (task_piece files t))"
    if "i < unat fsize" for i
    using conjunct2 [OF chunks] that \<open>0 < unat (chunkSize cfg)\<close> by (simp add: us)
  have "overwrite_all (map (task_piece files) us) (c (c_str full)) = files path"
    by (rule parts_rebuild) (use parts cover assms(3,5) in \<open>auto simp: list_all_iff\<close>)
  then show ?thesis
    using put_chunks [OF assms(4) parts, of c] by simp
qed

end
