(* ===== verification/Ring.thy ===== *)
theory Ring
  imports Dicker_Prelude
begin

text \<open>
  The single-producer single-consumer ring of \<open>client/ring.h\<close>, through which the reader thread and
  the worker thread exchange buffers.

  A state holds the atomics and, for each of the three parties (the thread that pushes, the one that pops, and
  the one that closes), the place in its code; a step executes one atomic access of one party, so that a
  schedule, a list of parties, is an execution, with the accesses in one order that all threads agree on.
  \<open>std::atomic::wait\<close> is two places: comparing the value, and sleeping until a \<open>notify\<close>,
  after which it compares again.  \<open>pushed\<close> and \<open>popped\<close> record the values whose
  index update has been published.
\<close>

section \<open>State\<close>

datatype 'a push_pc =
    PushIdle
  | PushClosed 'a u64
  | PushRoom 'a u64
  | PushGate 'a u64
  | PushRoom2 'a u64 u32
  | PushClosed2 'a u64 u32
  | PushWait 'a u64 u32
  | PushSleep 'a u64 u32
  | PushWrite 'a u64
  | PushTail 'a u64
  | PushBump
  | PushNotify

datatype 'a pop_pc =
    PopIdle
  | PopTail u64
  | PopClosed u64
  | PopTail2 u64
  | PopGate u64
  | PopTail3 u64 u32
  | PopClosed2 u64 u32
  | PopWait u64 u32
  | PopSleep u64 u32
  | PopRead u64
  | PopHead u64 'a
  | PopBump 'a
  | PopNotify 'a

datatype close_pc = CloseStart | CloseBumpE | CloseNotifyE | CloseBumpF | CloseNotifyF | CloseDone

record 'a ring =
  buf :: "'a list"
  head :: u64
  tail :: u64
  notEmptyGate :: u32
  notFullGate :: u32
  closed :: bool
  pusher :: "'a push_pc"
  popper :: "'a pop_pc"
  closer :: close_pc
  to_push :: "'a list"
  pushed :: "'a list"
  popped :: "'a list"
  push_results :: "bool list"
  pop_results :: "'a option list"

text \<open>The capacity is \<open>2 ^ m\<close>, so that masking with one less is the remainder.\<close>

definition ring_new :: "nat \<Rightarrow> 'a \<Rightarrow> 'a list \<Rightarrow> 'a ring" where
  "ring_new m x vs = \<lparr>buf = replicate (2 ^ m) x, head = 0, tail = 0, notEmptyGate = 0, notFullGate = 0, closed = False,
     pusher = PushIdle, popper = PopIdle, closer = CloseStart, to_push = vs, pushed = [], popped = [],
     push_results = [], pop_results = []\<rparr>"

definition slot :: "nat \<Rightarrow> u64 \<Rightarrow> nat" where
  "slot m n = unat (n AND (2 ^ m - 1))"

definition wake_popper :: "'a ring \<Rightarrow> 'a ring" where
  "wake_popper r = (case popper r of PopSleep h g \<Rightarrow> r\<lparr>popper := PopWait h g\<rparr> | _ \<Rightarrow> r)"

definition wake_pusher :: "'a ring \<Rightarrow> 'a ring" where
  "wake_pusher r = (case pusher r of PushSleep v t g \<Rightarrow> r\<lparr>pusher := PushWait v t g\<rparr> | _ \<Rightarrow> r)"

section \<open>\<open>push\<close>, \<open>pop\<close> and \<open>close\<close>\<close>

definition has_room :: "nat \<Rightarrow> 'a ring \<Rightarrow> u64 \<Rightarrow> bool" where
  "has_room m r t \<longleftrightarrow> t - head r < 2 ^ m"

definition push_step :: "nat \<Rightarrow> 'a ring \<Rightarrow> 'a ring" where
  "push_step m r =
     (case pusher r of
        PushIdle \<Rightarrow>
          (case to_push r of
             [] \<Rightarrow> r
           | v # vs \<Rightarrow> r\<lparr>pusher := PushClosed v (tail r), to_push := vs\<rparr>)
      | PushClosed v t \<Rightarrow>
          if closed r then r\<lparr>pusher := PushIdle, push_results := push_results r @ [False]\<rparr>
          else r\<lparr>pusher := PushRoom v t\<rparr>
      | PushRoom v t \<Rightarrow> r\<lparr>pusher := (if has_room m r t then PushWrite v t else PushGate v t)\<rparr>
      | PushGate v t \<Rightarrow> r\<lparr>pusher := PushRoom2 v t (notFullGate r)\<rparr>
      | PushRoom2 v t g \<Rightarrow> r\<lparr>pusher := (if has_room m r t then PushClosed v t else PushClosed2 v t g)\<rparr>
      | PushClosed2 v t g \<Rightarrow> r\<lparr>pusher := (if closed r then PushClosed v t else PushWait v t g)\<rparr>
      | PushWait v t g \<Rightarrow> r\<lparr>pusher := (if notFullGate r = g then PushSleep v t g else PushClosed v t)\<rparr>
      | PushSleep v t g \<Rightarrow> r
      | PushWrite v t \<Rightarrow> r\<lparr>pusher := PushTail v t, buf := (buf r)[slot m t := v]\<rparr>
      | PushTail v t \<Rightarrow> r\<lparr>pusher := PushBump, tail := t + 1, pushed := pushed r @ [v]\<rparr>
      | PushBump \<Rightarrow> r\<lparr>pusher := PushNotify, notEmptyGate := notEmptyGate r + 1\<rparr>
      | PushNotify \<Rightarrow> wake_popper (r\<lparr>pusher := PushIdle, push_results := push_results r @ [True]\<rparr>))"

definition pop_step :: "nat \<Rightarrow> 'a ring \<Rightarrow> 'a ring" where
  "pop_step m r =
     (case popper r of
        PopIdle \<Rightarrow> r\<lparr>popper := PopTail (head r)\<rparr>
      | PopTail h \<Rightarrow> r\<lparr>popper := (if h \<noteq> tail r then PopRead h else PopClosed h)\<rparr>
      | PopClosed h \<Rightarrow> r\<lparr>popper := (if closed r then PopTail2 h else PopGate h)\<rparr>
      | PopTail2 h \<Rightarrow>
          if h = tail r then r\<lparr>popper := PopIdle, pop_results := pop_results r @ [None]\<rparr>
          else r\<lparr>popper := PopRead h\<rparr>
      | PopGate h \<Rightarrow> r\<lparr>popper := PopTail3 h (notEmptyGate r)\<rparr>
      | PopTail3 h g \<Rightarrow> r\<lparr>popper := (if h \<noteq> tail r then PopTail h else PopClosed2 h g)\<rparr>
      | PopClosed2 h g \<Rightarrow> r\<lparr>popper := (if closed r then PopTail h else PopWait h g)\<rparr>
      | PopWait h g \<Rightarrow> r\<lparr>popper := (if notEmptyGate r = g then PopSleep h g else PopTail h)\<rparr>
      | PopSleep h g \<Rightarrow> r
      | PopRead h \<Rightarrow> r\<lparr>popper := PopHead h (buf r ! slot m h)\<rparr>
      | PopHead h v \<Rightarrow> r\<lparr>popper := PopBump v, head := h + 1, popped := popped r @ [v]\<rparr>
      | PopBump v \<Rightarrow> r\<lparr>popper := PopNotify v, notFullGate := notFullGate r + 1\<rparr>
      | PopNotify v \<Rightarrow> wake_pusher (r\<lparr>popper := PopIdle, pop_results := pop_results r @ [Some v]\<rparr>))"

definition close_step :: "'a ring \<Rightarrow> 'a ring" where
  "close_step r =
     (case closer r of
        CloseStart \<Rightarrow> r\<lparr>closer := CloseBumpE, closed := True\<rparr>
      | CloseBumpE \<Rightarrow> r\<lparr>closer := CloseNotifyE, notEmptyGate := notEmptyGate r + 1\<rparr>
      | CloseNotifyE \<Rightarrow> wake_popper (r\<lparr>closer := CloseBumpF\<rparr>)
      | CloseBumpF \<Rightarrow> r\<lparr>closer := CloseNotifyF, notFullGate := notFullGate r + 1\<rparr>
      | CloseNotifyF \<Rightarrow> wake_pusher (r\<lparr>closer := CloseDone\<rparr>)
      | CloseDone \<Rightarrow> r)"

datatype party = Pusher | Popper | Closer

fun ring_step :: "nat \<Rightarrow> party \<Rightarrow> 'a ring \<Rightarrow> 'a ring" where
  "ring_step m Pusher r = push_step m r"
| "ring_step m Popper r = pop_step m r"
| "ring_step m Closer r = close_step r"

definition ring_run :: "nat \<Rightarrow> party list \<Rightarrow> 'a ring \<Rightarrow> 'a ring" where
  "ring_run m ps r = fold (ring_step m) ps r"

section \<open>Slots\<close>

lemma slot_mod: "m < 64 \<Longrightarrow> slot m n = unat n mod 2 ^ m"
proof -
  assume "m < 64"
  then have "n AND (2 ^ m - 1) = take_bit m n"
    by (simp add: take_bit_eq_mask mask_eq_exp_minus_1)
  then have "slot m n = take_bit m (unat n)"
    by (simp only: slot_def unsigned_take_bit_eq)
  then show ?thesis
    by (simp add: take_bit_eq_mod)
qed

lemma slot_plus:
  assumes "m < 64"
  shows "slot m (n + of_nat i) = (unat n + i) mod 2 ^ m"
proof -
  have dvd: "(2 :: nat) ^ m dvd 2 ^ 64"
    using assms by (intro le_imp_power_dvd) simp
  have "unat (n + of_nat i) = (unat n + i) mod 2 ^ 64"
    by (simp add: unat_word_ariths unsigned_of_nat take_bit_eq_mod mod_add_right_eq)
  then show ?thesis
    using mod_mod_cancel [OF dvd] by (simp add: slot_mod [OF assms])
qed

lemma slot_less: "m < 64 \<Longrightarrow> slot m n < 2 ^ m"
  by (simp add: slot_mod)

text \<open>Two offsets below the capacity lead to different slots.\<close>

lemma mod_plus_inj:
  assumes "(a + i) mod (c :: nat) = (a + j) mod c" and "i < c" and "j < c"
  shows "i = j"
proof -
  have "j = i" if "(a + i) mod c = (a + j) mod c" "i \<le> j" "j < c" for i j
  proof -
    have "c dvd (a + j) - (a + i)"
      using that(1,2) by (intro mod_eq_dvd_iff_nat [THEN iffD1]) simp_all
    then show ?thesis
      using that(2,3) by (auto dest: dvd_imp_le)
  qed
  from this [of i j] this [of j i] assms show ?thesis
    by (metis nat_le_linear)
qed

lemma slot_plus_inj:
  assumes "m < 64" and "i < 2 ^ m" and "j < 2 ^ m" and "slot m (n + of_nat i) = slot m (n + of_nat j)"
  shows "i = j"
  using assms(4) mod_plus_inj [of "unat n" i "2 ^ m" j] assms(2,3) by (simp add: slot_plus [OF assms(1)])

section \<open>The values in the ring\<close>

definition span :: "u64 \<Rightarrow> u64 \<Rightarrow> nat" where
  "span h t = unat (t - h)"

definition held :: "nat \<Rightarrow> 'a list \<Rightarrow> u64 \<Rightarrow> u64 \<Rightarrow> 'a list" where
  "held m b h t = map (\<lambda>i. b ! slot m (h + of_nat i)) [0..<span h t]"

lemma span_tail: "t = h + of_nat (span h t)"
  by (simp add: span_def)

lemma span_push: "span h t < 2 ^ 63 \<Longrightarrow> span h (t + 1) = span h t + 1"
proof -
  assume lt: "span h t < 2 ^ 63"
  have eq: "t + 1 - h = (t - h) + 1"
    by simp
  have "unat (t - h) + unat (1 :: u64) < 2 ^ LENGTH(64)"
    using lt by (simp add: span_def)
  then have "unat ((t - h) + 1) = unat (t - h) + unat (1 :: u64)"
    by (simp only: unat_add_lem)
  then show ?thesis
    unfolding span_def eq by simp
qed

lemma span_pop: "0 < span h t \<Longrightarrow> span (h + 1) t = span h t - 1"
proof -
  assume "0 < span h t"
  then have "(1 :: u64) \<le> t - h"
    by (simp add: span_def word_le_nat_alt)
  moreover have eq: "t - (h + 1) = t - h - 1"
    by simp
  ultimately show ?thesis
    unfolding span_def eq by (simp add: unat_sub)
qed

lemma span_eq_0 [simp]: "span h t = 0 \<longleftrightarrow> h = t"
  by (auto simp: span_def unat_eq_0)

lemma span_self [simp]: "span t t = 0"
  by simp

lemma span_pos [simp]: "0 < span h t \<longleftrightarrow> h \<noteq> t"
  using span_eq_0 [of h t] by linarith

lemma held_write:
  assumes "m < 64" and "span h t < 2 ^ m"
  shows "held m (b[slot m t := v]) h t = held m b h t"
proof -
  have "slot m t \<noteq> slot m (h + of_nat i)" if "i < span h t" for i
    using slot_plus_inj [OF assms(1), of i "span h t" h] that assms(2) span_tail [of t h] by auto
  then show ?thesis
    by (auto simp: held_def)
qed

lemma held_push:
  assumes "span h t < 2 ^ 63"
  shows "held m b h (t + 1) = held m b h t @ [b ! slot m t]"
  using span_push [OF assms] span_tail [of t h] by (simp add: held_def)

lemma held_pop:
  assumes "0 < span h t"
  shows "held m b h t = b ! slot m h # held m b (h + 1) t"
proof -
  have "[0..<span h t] = 0 # map Suc [0..<span (h + 1) t]"
    using assms by (simp add: span_pop map_Suc_upt upt_conv_Cons)
  then show ?thesis
    by (simp add: held_def add.assoc)
qed

text \<open>What each place in the code knows.\<close>

definition push_knows :: "nat \<Rightarrow> 'a ring \<Rightarrow> bool" where
  "push_knows m r =
     (case pusher r of
        PushClosed v t \<Rightarrow> t = tail r
      | PushRoom v t \<Rightarrow> t = tail r
      | PushGate v t \<Rightarrow> t = tail r
      | PushRoom2 v t g \<Rightarrow> t = tail r
      | PushClosed2 v t g \<Rightarrow> t = tail r
      | PushWait v t g \<Rightarrow> t = tail r
      | PushSleep v t g \<Rightarrow> t = tail r
      | PushWrite v t \<Rightarrow> t = tail r \<and> span (head r) t < 2 ^ m
      | PushTail v t \<Rightarrow> t = tail r \<and> span (head r) t < 2 ^ m \<and> buf r ! slot m t = v
      | _ \<Rightarrow> True)"

definition pop_knows :: "nat \<Rightarrow> 'a ring \<Rightarrow> bool" where
  "pop_knows m r =
     (case popper r of
        PopTail h \<Rightarrow> h = head r
      | PopClosed h \<Rightarrow> h = head r
      | PopTail2 h \<Rightarrow> h = head r
      | PopGate h \<Rightarrow> h = head r
      | PopTail3 h g \<Rightarrow> h = head r
      | PopClosed2 h g \<Rightarrow> h = head r
      | PopWait h g \<Rightarrow> h = head r
      | PopSleep h g \<Rightarrow> h = head r
      | PopRead h \<Rightarrow> h = head r \<and> h \<noteq> tail r
      | PopHead h v \<Rightarrow> h = head r \<and> h \<noteq> tail r \<and> buf r ! slot m h = v
      | _ \<Rightarrow> True)"

lemma knows_frame [simp]:
  "pop_knows m (r\<lparr>pusher := pp\<rparr>) = pop_knows m r" "pop_knows m (r\<lparr>to_push := vs\<rparr>) = pop_knows m r"
  "pop_knows m (r\<lparr>push_results := bs\<rparr>) = pop_knows m r" "pop_knows m (r\<lparr>pop_results := rs\<rparr>) = pop_knows m r"
  "pop_knows m (r\<lparr>notEmptyGate := g\<rparr>) = pop_knows m r" "pop_knows m (r\<lparr>notFullGate := g\<rparr>) = pop_knows m r"
  "pop_knows m (r\<lparr>closed := c\<rparr>) = pop_knows m r" "pop_knows m (r\<lparr>closer := cp\<rparr>) = pop_knows m r"
  "push_knows m (r\<lparr>popper := qp\<rparr>) = push_knows m r" "push_knows m (r\<lparr>to_push := vs\<rparr>) = push_knows m r"
  "push_knows m (r\<lparr>push_results := bs\<rparr>) = push_knows m r" "push_knows m (r\<lparr>pop_results := rs\<rparr>) = push_knows m r"
  "push_knows m (r\<lparr>notEmptyGate := g\<rparr>) = push_knows m r" "push_knows m (r\<lparr>notFullGate := g\<rparr>) = push_knows m r"
  "push_knows m (r\<lparr>closed := c\<rparr>) = push_knows m r" "push_knows m (r\<lparr>closer := cp\<rparr>) = push_knows m r"
  by (simp_all add: push_knows_def pop_knows_def cong: push_pc.case_cong pop_pc.case_cong)

lemma wake_popper_frame [simp]:
  "push_knows m (wake_popper r) = push_knows m r" "pop_knows m (wake_popper r) = pop_knows m r"
  "buf (wake_popper r) = buf r" "head (wake_popper r) = head r" "tail (wake_popper r) = tail r"
  "pushed (wake_popper r) = pushed r" "popped (wake_popper r) = popped r" "closed (wake_popper r) = closed r" "closer (wake_popper r) = closer r"
  "notEmptyGate (wake_popper r) = notEmptyGate r" "notFullGate (wake_popper r) = notFullGate r" "pusher (wake_popper r) = pusher r"
  "to_push (wake_popper r) = to_push r" "push_results (wake_popper r) = push_results r" "pop_results (wake_popper r) = pop_results r"
  by (cases "popper r"; simp add: wake_popper_def pop_knows_def)+

lemma wake_pusher_frame [simp]:
  "push_knows m (wake_pusher r) = push_knows m r" "pop_knows m (wake_pusher r) = pop_knows m r"
  "buf (wake_pusher r) = buf r" "head (wake_pusher r) = head r" "tail (wake_pusher r) = tail r"
  "pushed (wake_pusher r) = pushed r" "popped (wake_pusher r) = popped r" "closed (wake_pusher r) = closed r" "closer (wake_pusher r) = closer r"
  "notEmptyGate (wake_pusher r) = notEmptyGate r" "notFullGate (wake_pusher r) = notFullGate r" "popper (wake_pusher r) = popper r"
  "to_push (wake_pusher r) = to_push r" "push_results (wake_pusher r) = push_results r" "pop_results (wake_pusher r) = pop_results r"
  by (cases "pusher r"; simp add: wake_pusher_def push_knows_def)+

definition fifo :: "nat \<Rightarrow> 'a ring \<Rightarrow> bool" where
  "fifo m r \<longleftrightarrow> length (buf r) = 2 ^ m \<and> span (head r) (tail r) \<le> 2 ^ m \<and>
     pushed r = popped r @ held m (buf r) (head r) (tail r) \<and> push_knows m r \<and> pop_knows m r"

lemma has_room_span:
  assumes "m < 63"
  shows "has_room m r t \<longleftrightarrow> span (head r) t < 2 ^ m"
proof -
  have eq: "(2 :: u64) ^ m = of_nat (2 ^ m)"
    by simp
  have "(2 :: nat) ^ m < 2 ^ 64"
    using assms by (intro power_strict_increasing) simp_all
  then have "unat ((2 :: u64) ^ m) = 2 ^ m"
    unfolding eq by (simp only: unsigned_of_nat) (simp add: take_bit_eq_mod)
  then show ?thesis
    by (simp add: has_room_def span_def word_less_nat_alt)
qed

lemma fifo_push:
  assumes "m < 63" and "fifo m r"
  shows "fifo m (push_step m r)"
proof -
  have cap: "(2 :: nat) ^ m < 2 ^ 63"
    using assms(1) by (intro power_strict_increasing) simp_all
  note inv = assms(2) [unfolded fifo_def]
  show ?thesis
  proof (cases "pusher r")
    case (PushTail v t)
    then have "t = tail r" "span (head r) (tail r) < 2 ^ m" "buf r ! slot m (tail r) = v"
      using inv by (auto simp: push_knows_def)
    then have "span (head r) (tail r + 1) \<le> 2 ^ m" "span (head r) (tail r + 1) \<noteq> 0"
      "held m (buf r) (head r) (tail r + 1) = held m (buf r) (head r) (tail r) @ [v]"
      using cap held_push [of "head r" "tail r" m "buf r"] span_push [of "head r" "tail r"] by simp_all
    with PushTail \<open>t = tail r\<close> inv show ?thesis
      by (auto simp: push_step_def fifo_def push_knows_def pop_knows_def split: pop_pc.splits)
  next
    case (PushWrite v t)
    then have t: "t = tail r" "span (head r) (tail r) < 2 ^ m"
      using inv by (auto simp: push_knows_def)
    then have "held m ((buf r)[slot m t := v]) (head r) (tail r) = held m (buf r) (head r) (tail r)" "slot m t < 2 ^ m"
      using assms(1) by (simp_all add: held_write slot_less)
    moreover have "slot m t \<noteq> slot m (head r)" if "head r \<noteq> tail r"
      using slot_plus_inj [of m 0 "span (head r) (tail r)" "head r"] t span_tail [of "tail r" "head r"] assms(1) that by auto
    ultimately show ?thesis
      using PushWrite t inv by (auto simp: push_step_def fifo_def push_knows_def pop_knows_def split: pop_pc.splits)
  qed (use inv has_room_span [OF assms(1)] in \<open>auto simp: push_step_def fifo_def push_knows_def split: list.splits\<close>)
qed

lemma fifo_pop:
  assumes "m < 63" and "fifo m r"
  shows "fifo m (pop_step m r)"
proof -
  note inv = assms(2) [unfolded fifo_def]
  show ?thesis
  proof (cases "popper r")
    case (PopHead h v)
    then have h: "h = head r" "0 < span (head r) (tail r)" "buf r ! slot m (head r) = v"
      using inv by (auto simp: pop_knows_def)
    then have "span (head r + 1) (tail r) < span (head r) (tail r)"
      "held m (buf r) (head r) (tail r) = v # held m (buf r) (head r + 1) (tail r)"
      using held_pop [of "head r" "tail r" m "buf r"] span_pop [of "head r" "tail r"] by simp_all
    with PopHead h(1) inv show ?thesis
      by (auto simp: pop_step_def fifo_def push_knows_def pop_knows_def split: push_pc.splits)
  qed (use inv in \<open>auto simp: pop_step_def fifo_def pop_knows_def\<close>)
qed

lemma fifo_close:
  assumes "fifo m r"
  shows "fifo m (close_step r)"
  using assms
  by (cases "closer r") (simp_all add: close_step_def fifo_def)

lemma fifo_step: "m < 63 \<Longrightarrow> fifo m r \<Longrightarrow> fifo m (ring_step m p r)"
  by (cases p) (simp_all add: fifo_push fifo_pop fifo_close)

section \<open>Waking up\<close>

lemma unat_u32_of_nat: "n < 2 ^ 32 \<Longrightarrow> unat (of_nat n :: u32) = n"
  by (simp only: unsigned_of_nat) (simp add: take_bit_eq_mod)

text \<open>
  How far a waiting thread has come: it has read the gate, it has seen afterwards that there is
  nothing for it to do, also that the ring is open, or it sleeps.
\<close>

datatype phase = Off | Armed u32 | Checked u32 | Waiting u32 | Asleep u32

text \<open>
  \<open>ev\<close> counts what has happened for the waiting thread since (values it may take, or places that got free); every such event is
  followed by a bump of the gate and a notification, and so is closing.  The flags say which bumps and notifications are still to come.
  \<open>k\<close> is the number of bumps since the gate was read.
\<close>

definition bumps :: "u32 \<Rightarrow> u32 \<Rightarrow> nat \<Rightarrow> bool \<Rightarrow> bool \<Rightarrow> bool \<Rightarrow> nat \<Rightarrow> bool" where
  "bumps gate g ev bump cbump cl k \<longleftrightarrow>
     gate = g + of_nat k \<and> k + of_bool bump + of_bool cbump \<le> ev + 1 + of_bool cl"

fun watch_at :: "phase \<Rightarrow> u32 \<Rightarrow> nat \<Rightarrow> bool \<Rightarrow> bool \<Rightarrow> bool \<Rightarrow> bool \<Rightarrow> bool \<Rightarrow> nat \<Rightarrow> bool" where
  "watch_at Off gate ev bump note cbump cnote cl k = True"
| "watch_at (Armed g) gate ev bump note cbump cnote cl k = bumps gate g ev bump cbump cl k"
| "watch_at (Checked g) gate ev bump note cbump cnote cl k = (bumps gate g ev bump cbump cl k \<and> ev \<le> k + of_bool bump)"
| "watch_at (Waiting g) gate ev bump note cbump cnote cl k =
     (bumps gate g ev bump cbump cl k \<and> ev + of_bool cl \<le> k + of_bool bump + of_bool cbump)"
| "watch_at (Asleep g) gate ev bump note cbump cnote cl k =
     (bumps gate g ev bump cbump cl k \<and> ev + of_bool cl \<le> k + of_bool bump + of_bool cbump \<and> (gate \<noteq> g \<longrightarrow> note \<or> cnote))"

definition watch :: "phase \<Rightarrow> u32 \<Rightarrow> nat \<Rightarrow> bool \<Rightarrow> bool \<Rightarrow> bool \<Rightarrow> bool \<Rightarrow> bool \<Rightarrow> bool" where
  "watch ph gate ev bump note cbump cnote cl \<longleftrightarrow> (\<exists>k. watch_at ph gate ev bump note cbump cnote cl k)"

fun woken :: "phase \<Rightarrow> phase" where
  "woken (Asleep g) = Waiting g"
| "woken ph = ph"

lemma watch_at_steps:
  "watch_at ph gate ev False note cbump cnote cl k \<Longrightarrow> watch_at ph gate (ev + 1) True note cbump cnote cl k"
  "watch_at ph gate ev True note cbump cnote cl k \<Longrightarrow> watch_at ph (gate + 1) ev False True cbump cnote cl (k + 1)"
  "watch_at ph gate ev bump note False cnote False k \<Longrightarrow> watch_at ph gate ev bump note True cnote True k"
  "watch_at ph gate ev bump note True cnote cl k \<Longrightarrow> watch_at ph (gate + 1) ev bump note False True cl (k + 1)"
  "watch_at ph gate ev bump note cbump cnote cl k \<Longrightarrow> watch_at (woken ph) gate ev bump note' cbump cnote' cl k"
  by (cases ph; simp add: bumps_def)+

lemma watch_steps:
  "watch ph gate ev False note cbump cnote cl \<Longrightarrow> watch ph gate (ev + 1) True note cbump cnote cl"
  "watch ph gate ev True note cbump cnote cl \<Longrightarrow> watch ph (gate + 1) ev False True cbump cnote cl"
  "watch ph gate ev bump note False cnote False \<Longrightarrow> watch ph gate ev bump note True cnote True"
  "watch ph gate ev bump note True cnote cl \<Longrightarrow> watch ph (gate + 1) ev bump note False True cl"
  "watch ph gate ev bump note cbump cnote cl \<Longrightarrow> watch (woken ph) gate ev bump note' cbump cnote' cl"
  unfolding watch_def by (blast intro: watch_at_steps)+

text \<open>How the waiting thread itself proceeds.\<close>

lemma watch_proceed:
  "(cbump \<Longrightarrow> cl) \<Longrightarrow> watch (Armed gate) gate ev bump note cbump cnote cl"
  "watch (Armed g) gate 0 bump note cbump cnote cl \<Longrightarrow> watch (Checked g) gate 0 bump note cbump cnote cl"
  "watch (Checked g) gate ev bump note False cnote False \<Longrightarrow> watch (Waiting g) gate ev bump note False cnote False"
  "watch (Waiting g) g ev bump note cbump cnote cl \<Longrightarrow> watch (Asleep g) g ev bump note cbump cnote cl"
  "watch Off gate ev bump note cbump cnote cl"
proof -
  assume "cbump \<Longrightarrow> cl"
  then show "watch (Armed gate) gate ev bump note cbump cnote cl"
    unfolding watch_def by (intro exI [of _ 0]) (cases bump; cases cbump; simp add: bumps_def)
qed (auto simp: watch_def)

text \<open>No wake-up is lost: a sleeper with nothing under way has nothing to do.\<close>

lemma watch_quiet:
  assumes "watch (Asleep g) gate ev False False False False cl" and "ev + 3 < 2 ^ 32"
  shows "ev = 0 \<and> \<not> cl"
proof -
  obtain k where k: "gate = g + of_nat k" "k \<le> ev + 1 + of_bool cl" "ev + of_bool cl \<le> k" "gate = g"
    using assms(1) by (auto simp: watch_def bumps_def)
  then have "(of_nat k :: u32) = 0"
    by simp
  moreover have "k < 2 ^ 32"
    using k(2) assms(2) by (cases cl) auto
  ultimately have "k = 0"
    by (metis (no_types) unat_0 unat_u32_of_nat)
  with k(3) show ?thesis
    by (cases cl) auto
qed

text \<open>The phases of the two threads, and what is under way for them.\<close>

fun pop_phase :: "'a pop_pc \<Rightarrow> phase" where
  "pop_phase (PopTail3 h g) = Armed g"
| "pop_phase (PopClosed2 h g) = Checked g"
| "pop_phase (PopWait h g) = Waiting g"
| "pop_phase (PopSleep h g) = Asleep g"
| "pop_phase _ = Off"

fun push_phase :: "'a push_pc \<Rightarrow> phase" where
  "push_phase (PushRoom2 v t g) = Armed g"
| "push_phase (PushClosed2 v t g) = Checked g"
| "push_phase (PushWait v t g) = Waiting g"
| "push_phase (PushSleep v t g) = Asleep g"
| "push_phase _ = Off"

fun pop_bumps :: "'a pop_pc \<Rightarrow> bool" where
  "pop_bumps (PopBump v) = True"
| "pop_bumps _ = False"

fun pop_notifies :: "'a pop_pc \<Rightarrow> bool" where
  "pop_notifies (PopNotify v) = True"
| "pop_notifies _ = False"

definition gates :: "nat \<Rightarrow> 'a ring \<Rightarrow> bool" where
  "gates m r \<longleftrightarrow> (closed r \<longleftrightarrow> closer r \<noteq> CloseStart) \<and>
     watch (pop_phase (popper r)) (notEmptyGate r) (span (head r) (tail r))
       (pusher r = PushBump) (pusher r = PushNotify) (closer r = CloseBumpE) (closer r = CloseNotifyE) (closer r \<noteq> CloseStart) \<and>
     watch (push_phase (pusher r)) (notFullGate r) (2 ^ m - span (head r) (tail r))
       (pop_bumps (popper r)) (pop_notifies (popper r)) (closer r \<in> {CloseBumpE, CloseNotifyE, CloseBumpF}) (closer r = CloseNotifyF)
       (closer r \<noteq> CloseStart)"

lemma woken_popper [simp]:
  "pop_phase (popper (wake_popper r)) = woken (pop_phase (popper r))"
  "pop_bumps (popper (wake_popper r)) = pop_bumps (popper r)" "pop_notifies (popper (wake_popper r)) = pop_notifies (popper r)"
  by (cases "popper r"; simp add: wake_popper_def)+

lemma woken_pusher [simp]:
  "push_phase (pusher (wake_pusher r)) = woken (push_phase (pusher r))"
  "pusher (wake_pusher r) = PushBump \<longleftrightarrow> pusher r = PushBump" "pusher (wake_pusher r) = PushNotify \<longleftrightarrow> pusher r = PushNotify"
  by (cases "pusher r"; simp add: wake_pusher_def)+

lemma gatesD:
  assumes "gates m r"
  shows "closed r \<longleftrightarrow> closer r \<noteq> CloseStart"
    and "watch (pop_phase (popper r)) (notEmptyGate r) (span (head r) (tail r))
       (pusher r = PushBump) (pusher r = PushNotify) (closer r = CloseBumpE) (closer r = CloseNotifyE) (closer r \<noteq> CloseStart)"
    and "watch (push_phase (pusher r)) (notFullGate r) (2 ^ m - span (head r) (tail r))
       (pop_bumps (popper r)) (pop_notifies (popper r)) (closer r \<in> {CloseBumpE, CloseNotifyE, CloseBumpF}) (closer r = CloseNotifyF)
       (closer r \<noteq> CloseStart)"
  using assms unfolding gates_def by blast+

lemma gatesI:
  assumes "closed r \<longleftrightarrow> closer r \<noteq> CloseStart"
    and "watch (pop_phase (popper r)) (notEmptyGate r) (span (head r) (tail r))
       (pusher r = PushBump) (pusher r = PushNotify) (closer r = CloseBumpE) (closer r = CloseNotifyE) (closer r \<noteq> CloseStart)"
    and "watch (push_phase (pusher r)) (notFullGate r) (2 ^ m - span (head r) (tail r))
       (pop_bumps (popper r)) (pop_notifies (popper r)) (closer r \<in> {CloseBumpE, CloseNotifyE, CloseBumpF}) (closer r = CloseNotifyF)
       (closer r \<noteq> CloseStart)"
  shows "gates m r"
  using assms unfolding gates_def by blast

lemma gates_push:
  assumes "m < 63" and "fifo m r" and "gates m r"
  shows "gates m (push_step m r)"
proof -
  note inv = assms(2) [unfolded fifo_def push_knows_def] and gt = gatesD [OF assms(3)]
  show ?thesis
  proof (cases "pusher r")
    case (PushTail v t)
    have "(2 :: nat) ^ m < 2 ^ 63"
      using assms(1) by (intro power_strict_increasing) simp_all
    then have "span (head r) (tail r + 1) = span (head r) (tail r) + 1"
      using inv PushTail by (intro span_push) auto
    with inv gt PushTail watch_steps(1) show ?thesis
      by (intro gatesI) (auto simp: push_step_def watch_proceed(5))
  next
    case PushNotify
    with gt watch_steps(5) show ?thesis
      by (intro gatesI) (auto simp: push_step_def watch_proceed(5))
  next
    case (PushRoom2 v t g)
    with gt inv watch_proceed(2) show ?thesis
      by (intro gatesI) (auto simp: push_step_def has_room_span [OF assms(1)] watch_proceed(5))
  next
    case (PushClosed2 v t g)
    with gt watch_proceed(3) show ?thesis
      by (intro gatesI) (auto simp: push_step_def watch_proceed(5))
  next
    case (PushWait v t g)
    with gt watch_proceed(4) show ?thesis
      by (intro gatesI) (auto simp: push_step_def watch_proceed(5))
  next
    case PushBump
    with gt watch_steps(2) show ?thesis
      by (intro gatesI) (auto simp: push_step_def watch_proceed(5))
  next
    case (PushGate v t)
    with gt watch_proceed(1) show ?thesis
      by (intro gatesI) (auto simp: push_step_def)
  qed (use gt in \<open>auto simp: push_step_def gates_def watch_proceed(5) split: list.splits\<close>)
qed

lemma gates_pop:
  assumes "m < 63" and "fifo m r" and "gates m r"
  shows "gates m (pop_step m r)"
proof -
  note inv = assms(2) [unfolded fifo_def pop_knows_def] and gt = gatesD [OF assms(3)]
  show ?thesis
  proof (cases "popper r")
    case (PopHead h v)
    then have "span (head r + 1) (tail r) = span (head r) (tail r) - 1" "0 < span (head r) (tail r)" "h = head r"
      using inv span_pop [of "head r" "tail r"] by auto
    moreover have "span (head r) (tail r) \<le> 2 ^ m"
      using inv by blast
    ultimately have "2 ^ m - span (head r + 1) (tail r) = (2 ^ m - span (head r) (tail r)) + 1"
      by linarith
    with gt PopHead \<open>h = head r\<close> watch_steps(1) show ?thesis
      by (intro gatesI) (auto simp: pop_step_def watch_proceed(5))
  next
    case (PopNotify v)
    with gt watch_steps(5) show ?thesis
      by (intro gatesI) (auto simp: pop_step_def watch_proceed(5))
  next
    case (PopTail3 h g)
    with gt inv watch_proceed(2) show ?thesis
      by (intro gatesI) (auto simp: pop_step_def watch_proceed(5))
  next
    case (PopClosed2 h g)
    with gt watch_proceed(3) show ?thesis
      by (intro gatesI) (auto simp: pop_step_def watch_proceed(5))
  next
    case (PopWait h g)
    with gt watch_proceed(4) show ?thesis
      by (intro gatesI) (auto simp: pop_step_def watch_proceed(5))
  next
    case (PopBump v)
    with gt watch_steps(2) show ?thesis
      by (intro gatesI) (auto simp: pop_step_def watch_proceed(5))
  next
    case (PopGate h)
    with gt watch_proceed(1) show ?thesis
      by (intro gatesI) (auto simp: pop_step_def)
  qed (use gt in \<open>auto simp: pop_step_def gates_def watch_proceed(5)\<close>)
qed

lemma gates_close:
  assumes "gates m r"
  shows "gates m (close_step r)"
proof -
  note gt = gatesD [OF assms]
  show ?thesis
  proof (cases "closer r")
    case CloseStart
    with gt watch_steps(3) show ?thesis
      by (intro gatesI) (auto simp: close_step_def)
  next
    case CloseBumpE
    with gt watch_steps(4) show ?thesis
      by (intro gatesI) (auto simp: close_step_def)
  next
    case CloseNotifyE
    with gt watch_steps(5) show ?thesis
      by (intro gatesI) (auto simp: close_step_def)
  next
    case CloseBumpF
    with gt watch_steps(4) show ?thesis
      by (intro gatesI) (auto simp: close_step_def)
  next
    case CloseNotifyF
    with gt watch_steps(5) show ?thesis
      by (intro gatesI) (auto simp: close_step_def)
  next
    case CloseDone
    with assms show ?thesis
      by (simp add: close_step_def)
  qed
qed

lemma gates_step: "m < 63 \<Longrightarrow> fifo m r \<Longrightarrow> gates m r \<Longrightarrow> gates m (ring_step m p r)"
  by (cases p) (simp_all add: gates_push gates_pop gates_close)

section \<open>What was given and what was returned\<close>

fun push_holds :: "'a push_pc \<Rightarrow> 'a list" where
  "push_holds PushIdle = []"
| "push_holds (PushClosed v t) = [v]"
| "push_holds (PushRoom v t) = [v]"
| "push_holds (PushGate v t) = [v]"
| "push_holds (PushRoom2 v t g) = [v]"
| "push_holds (PushClosed2 v t g) = [v]"
| "push_holds (PushWait v t g) = [v]"
| "push_holds (PushSleep v t g) = [v]"
| "push_holds (PushWrite v t) = [v]"
| "push_holds (PushTail v t) = [v]"
| "push_holds PushBump = []"
| "push_holds PushNotify = []"

fun push_early :: "'a push_pc \<Rightarrow> bool" where
  "push_early PushIdle = True"
| "push_early (PushClosed v t) = True"
| "push_early _ = False"

fun pop_holds :: "'a pop_pc \<Rightarrow> 'a list" where
  "pop_holds (PopBump v) = [v]"
| "pop_holds (PopNotify v) = [v]"
| "pop_holds _ = []"

fun pop_saw_closed :: "'a pop_pc \<Rightarrow> bool" where
  "pop_saw_closed (PopTail2 h) = True"
| "pop_saw_closed _ = False"

definition returned :: "'a ring \<Rightarrow> 'a list" where
  "returned r = concat (map (\<lambda>x. case x of None \<Rightarrow> [] | Some v \<Rightarrow> [v]) (pop_results r))"

text \<open>The pushes that reported success, and the one that has stored its value and not yet returned.\<close>

definition accepted_pushes :: "'a ring \<Rightarrow> nat" where
  "accepted_pushes r = length (filter id (push_results r))"

fun push_returns :: "'a push_pc \<Rightarrow> nat" where
  "push_returns PushBump = 1"
| "push_returns PushNotify = 1"
| "push_returns _ = 0"

definition order :: "'a list \<Rightarrow> 'a ring \<Rightarrow> bool" where
  "order vs r \<longleftrightarrow>
     (\<exists>failed. vs = pushed r @ failed @ push_holds (pusher r) @ to_push r \<and> (failed \<noteq> [] \<longrightarrow> closed r \<and> push_early (pusher r))) \<and>
     length (pushed r) = accepted_pushes r + push_returns (pusher r) \<and>
     popped r = returned r @ pop_holds (popper r) \<and> (None \<in> set (pop_results r) \<or> pop_saw_closed (popper r) \<longrightarrow> closed r)"

lemma woken_holds [simp]:
  "push_holds (pusher (wake_pusher r)) = push_holds (pusher r)" "push_early (pusher (wake_pusher r)) = push_early (pusher r)"
  "returned (wake_pusher r) = returned r" "push_returns (pusher (wake_pusher r)) = push_returns (pusher r)"
  "accepted_pushes (wake_pusher r) = accepted_pushes r"
  by (cases "pusher r"; simp add: wake_pusher_def returned_def accepted_pushes_def)+

lemma woken_pop_holds [simp]: "pop_holds (popper (wake_popper r)) = pop_holds (popper r)" "returned (wake_popper r) = returned r"
  "pop_saw_closed (popper (wake_popper r)) = pop_saw_closed (popper r)" "accepted_pushes (wake_popper r) = accepted_pushes r"
  by (cases "popper r"; simp add: wake_popper_def returned_def accepted_pushes_def)+

lemma order_step:
  assumes "order vs r"
  shows "order vs (ring_step m p r)"
proof (cases p)
  case Pusher
  then show ?thesis
    using assms by (cases "pusher r") (auto simp: order_def push_step_def returned_def accepted_pushes_def split: list.splits)
next
  case Popper
  then show ?thesis
    using assms by (cases "popper r") (auto simp: order_def pop_step_def returned_def accepted_pushes_def)
next
  case Closer
  then show ?thesis
    using assms by (cases "closer r") (auto simp: order_def close_step_def returned_def accepted_pushes_def)
qed

lemma ring_run_invariant:
  assumes "m < 63"
  shows "fifo m (ring_run m ps (ring_new m x vs)) \<and> gates m (ring_run m ps (ring_new m x vs)) \<and> order vs (ring_run m ps (ring_new m x vs))"
proof -
  have "fifo m r \<and> gates m r \<and> order vs r \<Longrightarrow> fifo m (ring_run m ps r) \<and> gates m (ring_run m ps r) \<and> order vs (ring_run m ps r)" for r
    unfolding ring_run_def
  proof (induction ps arbitrary: r)
    case (Cons p ps)
    then show ?case
      using fifo_step [OF assms, of r p] gates_step [OF assms, of r p] order_step [of vs r m p] by simp
  qed simp
  moreover have "fifo m (ring_new m x vs) \<and> gates m (ring_new m x vs) \<and> order vs (ring_new m x vs)"
    by (simp add: ring_new_def fifo_def push_knows_def pop_knows_def held_def gates_def watch_proceed(5) order_def returned_def accepted_pushes_def)
  ultimately show ?thesis
    by blast
qed

section \<open>Properties\<close>

text \<open>
  Property C36.  The ring is a first-in first-out queue under every interleaving: what \<open>pop\<close> has returned is
  what was given to \<open>push\<close>, in the same order and nothing twice; every push that reported success is among the returned values or
  the at most \<open>2 ^ m\<close> in the ring and one being taken, beside at most one more whose push is about to return; \<open>pop\<close> fails only
  after \<open>close\<close>.
\<close>

theorem ring_is_fifo:
  assumes "m < 63" and "r = ring_run m ps (ring_new m x vs)"
  shows "\<exists>inside rest. vs = returned r @ inside @ rest \<and> length inside \<le> 2 ^ m + 1 \<and>
    length (returned r @ inside) \<in> {accepted_pushes r, accepted_pushes r + 1} \<and> (None \<in> set (pop_results r) \<longrightarrow> closed r)"
proof -
  have f: "fifo m r" and o: "order vs r"
    using ring_run_invariant [OF assms(1), of ps x vs] assms(2) by simp_all
  obtain failed where vs: "vs = pushed r @ failed @ push_holds (pusher r) @ to_push r" "popped r = returned r @ pop_holds (popper r)"
      "None \<in> set (pop_results r) \<longrightarrow> closed r" "length (pushed r) = accepted_pushes r + push_returns (pusher r)"
    using o by (auto simp: order_def)
  let ?inside = "pop_holds (popper r) @ held m (buf r) (head r) (tail r)"
  have "length (pop_holds (popper r)) \<le> 1" "push_returns (pusher r) \<in> {0, 1}"
    by (cases "popper r"; simp) (cases "pusher r"; simp)
  moreover have "length (held m (buf r) (head r) (tail r)) \<le> 2 ^ m" "pushed r = popped r @ held m (buf r) (head r) (tail r)"
    using f by (simp_all add: fifo_def held_def)
  ultimately show ?thesis
    using vs by (intro exI [of _ ?inside] exI [of _ "failed @ push_holds (pusher r) @ to_push r"]) simp
qed

text \<open>A schedule that lets each thread run in turns, and the values it passes on.\<close>

definition turns :: "nat \<Rightarrow> party list" where
  "turns n = concat (replicate n [Pusher, Popper, Pusher])"

theorem ring_is_fifo_witness:
  "returned (ring_run 1 (turns 40) (ring_new 1 0 [7, 8, 9])) = [7, 8, 9 :: nat] \<and>
   (\<exists>inside rest. [7, 8, 9] = returned (ring_run 1 (turns 40) (ring_new 1 0 [7, 8, 9 :: nat])) @ inside @ rest \<and> length inside \<le> 2 ^ 1 + 1)"
proof -
  have "returned (ring_run 1 (turns 40) (ring_new 1 0 [7, 8, 9])) = [7, 8, 9 :: nat]"
    by code_simp
  then show ?thesis
    using ring_is_fifo [OF _ refl, where m = 1 and ps = "turns 40" and x = 0 and vs = "[7, 8, 9 :: nat]"] by simp
qed

text \<open>
  Property C37.  No wake-up is lost: a thread that sleeps in \<open>pop\<close> sleeps on an empty open ring, and one that
  sleeps in \<open>push\<close> on a full open ring, unless the wake-up it waits for is already under way in the other thread or in
  \<open>close\<close>; so the two threads never both sleep for good.
\<close>

theorem ring_no_lost_wakeup:
  assumes "m < 31" and "r = ring_run m ps (ring_new m x vs)"
  shows "(popper r = PopSleep h g \<and> pusher r \<noteq> PushBump \<and> pusher r \<noteq> PushNotify \<and> closer r \<noteq> CloseBumpE \<and> closer r \<noteq> CloseNotifyE \<longrightarrow>
      head r = tail r \<and> \<not> closed r) \<and>
    (pusher r = PushSleep v t g' \<and> \<not> pop_bumps (popper r) \<and> \<not> pop_notifies (popper r) \<and>
      closer r \<notin> {CloseBumpE, CloseNotifyE, CloseBumpF, CloseNotifyF} \<longrightarrow>
      span (head r) (tail r) = 2 ^ m \<and> \<not> closed r) \<and>
    (popper r = PopSleep h g \<and> pusher r = PushSleep v t g' \<longrightarrow> closer r \<in> {CloseBumpE, CloseNotifyE, CloseBumpF, CloseNotifyF})"
proof -
  have f: "fifo m r" and gt: "gates m r"
    using ring_run_invariant [of m ps x vs] assms by simp_all
  have cap: "span (head r) (tail r) \<le> 2 ^ m" "(2 :: nat) ^ m \<le> 2 ^ 30"
    using f assms(1) power_increasing [of m 30 "2 :: nat"] by (simp_all add: fifo_def)
  have "span (head r) (tail r) + 3 < 2 ^ 32" "2 ^ m - span (head r) (tail r) + 3 < (2 :: nat) ^ 32"
    using cap by simp_all
  note quiet = watch_quiet [OF _ this(1)] watch_quiet [OF _ this(2)]
  have pop: "head r = tail r \<and> \<not> closed r"
    if "popper r = PopSleep h g" "pusher r \<noteq> PushBump" "pusher r \<noteq> PushNotify" "closer r \<noteq> CloseBumpE" "closer r \<noteq> CloseNotifyE" for h g
    using gatesD [OF gt] quiet(1) that by auto
  have push: "span (head r) (tail r) = 2 ^ m \<and> \<not> closed r"
    if "pusher r = PushSleep v t g" "\<not> pop_bumps (popper r)" "\<not> pop_notifies (popper r)"
      "closer r \<notin> {CloseBumpE, CloseNotifyE, CloseBumpF, CloseNotifyF}" for v t g
  proof -
    have "watch (Asleep g) (notFullGate r) (2 ^ m - span (head r) (tail r)) False False False False (closer r \<noteq> CloseStart)"
      using gatesD [OF gt] that by auto
    from quiet(2) [OF this] show ?thesis
      using gatesD [OF gt] cap(1) by auto
  qed
  have both: "closer r \<in> {CloseBumpE, CloseNotifyE, CloseBumpF, CloseNotifyF}" if "popper r = PopSleep h g" "pusher r = PushSleep v t g'"
  proof (rule ccontr)
    assume c: "closer r \<notin> {CloseBumpE, CloseNotifyE, CloseBumpF, CloseNotifyF}"
    show False
      using pop [OF that(1)] push [OF that(2)] that c by simp
  qed
  show ?thesis
    using pop [of h g] push [of v t g'] both by blast
qed

theorem ring_no_lost_wakeup_witness:
  "popper (ring_run 1 (replicate 7 Popper) (ring_new 1 0 [7 :: nat])) = PopSleep 0 0 \<and>
   head (ring_run 1 (replicate 7 Popper) (ring_new 1 0 [7 :: nat])) = tail (ring_run 1 (replicate 7 Popper) (ring_new 1 0 [7 :: nat])) \<and>
   \<not> closed (ring_run 1 (replicate 7 Popper) (ring_new 1 0 [7 :: nat]))"
proof -
  let ?r = "ring_run 1 (replicate 7 Popper) (ring_new 1 0 [7 :: nat])"
  have "popper ?r = PopSleep 0 0" "pusher ?r = PushIdle" "closer ?r = CloseStart"
    by code_simp+
  then show ?thesis
    using ring_no_lost_wakeup [OF _ refl, where m = 1 and ps = "replicate 7 Popper" and x = 0 and vs = "[7 :: nat]"] by simp
qed

end
