(* ===== verification/Reader_Pipeline.thy ===== *)
theory Reader_Pipeline
  imports Storage_Reader Ring
begin

text \<open>
  The reader thread and the worker thread of \<open>client/storageReader.h\<close>: the reader takes buffers from the
  ring \<open>spare\<close>, fills them from the disk and passes them on through the ring \<open>ready\<close>; the worker
  (here the loop of \<open>Worker::hashUnit\<close>, which \<open>upload\<close> and \<open>drainStorage\<close> share) uses and returns them.

  A step is one operation of one thread.  A ring is a queue of at most \<open>READ_RING\<close> values, which is
  what \<open>Ring\<close> shows of it; a \<open>pop\<close> of an empty queue and a \<open>push\<close> into a full one leave the state
  as it is, that is, the thread waits.  The rings are closed only when the reader is destroyed, which is not part of a run.  The
  semaphore that limits the readers of different workers is left out, as it does not touch this state.
\<close>

section \<open>State\<close>

record Filled =
  f_idx :: nat
  f_len :: u32
  f_eof :: bool

datatype 'h reader_pc =
    RIdle
  | RPop 'h u64 u64
  | RRead 'h nat u64 u64
  | RPush 'h nat nat u64 u64
  | RBack nat
  | RMark

datatype worker_pc = WIdle | WNext | WUse nat u32 | WRecycle nat

record 'h pipe =
  bufs :: "bytes list"
  spare :: "nat list"
  ready :: "Filled list"
  inbox :: "ReadRequest list"
  reader :: "'h reader_pc"
  consumer :: worker_pc
  todo :: "ReadRequest list"
  unit_data :: "bytes list"
  delivered :: "bytes list list"

text \<open>The constructor puts every buffer into \<open>spare\<close>; the buffers hold whatever was in memory.\<close>

definition pipe_new :: "bytes list \<Rightarrow> ReadRequest list \<Rightarrow> 'h pipe" where
  "pipe_new bs reqs = \<lparr>bufs = bs, spare = [0..<READ_AHEAD], ready = [], inbox = [], reader = RIdle, consumer = WIdle,
     todo = reqs, unit_data = [], delivered = []\<rparr>"

section \<open>The two threads\<close>

definition put_buf :: "nat \<Rightarrow> bytes \<Rightarrow> bytes list \<Rightarrow> bytes list" where
  "put_buf i got bs = bs[i := got @ drop (length got) (bs ! i)]"

definition reader_step :: "'h disk \<Rightarrow> 'h pipe \<Rightarrow> 'h pipe" where
  "reader_step d r =
     (case reader r of
        RIdle \<Rightarrow>
          (case inbox r of
             [] \<Rightarrow> r
           | req # rest \<Rightarrow>
               r\<lparr>inbox := rest,
                 reader := (case disk_open d (rq_pathname req) of
                              None \<Rightarrow> RMark
                            | Some h \<Rightarrow> RPop h (rq_offset req) (rq_length req))\<rparr>)
      | RPop h off remaining \<Rightarrow>
          if remaining = 0 then r\<lparr>reader := RMark\<rparr>
          else (case spare r of [] \<Rightarrow> r | i # rest \<Rightarrow> r\<lparr>spare := rest, reader := RRead h i off remaining\<rparr>)
      | RRead h i off remaining \<Rightarrow>
          let got = read_at d h (want remaining) off []
          in if got = [] then r\<lparr>reader := RBack i\<rparr>
             else r\<lparr>bufs := put_buf i got (bufs r), reader := RPush h i (length got) off remaining\<rparr>
      | RPush h i n off remaining \<Rightarrow>
          if length (ready r) < READ_RING
          then r\<lparr>ready := ready r @ [\<lparr>f_idx = i, f_len = of_nat n, f_eof = False\<rparr>],
                 reader := RPop h (off + of_nat n) (remaining - of_nat n)\<rparr>
          else r
      | RBack i \<Rightarrow> if length (spare r) < READ_RING then r\<lparr>spare := spare r @ [i], reader := RMark\<rparr> else r
      | RMark \<Rightarrow>
          if length (ready r) < READ_RING
          then r\<lparr>ready := ready r @ [\<lparr>f_idx = 0, f_len = 0, f_eof = True\<rparr>], reader := RIdle\<rparr>
          else r)"

definition consumer_step :: "'h pipe \<Rightarrow> 'h pipe" where
  "consumer_step r =
     (case consumer r of
        WIdle \<Rightarrow>
          (case todo r of
             [] \<Rightarrow> r
           | req # rest \<Rightarrow> r\<lparr>todo := rest, inbox := inbox r @ [req], unit_data := [], consumer := WNext\<rparr>)
      | WNext \<Rightarrow>
          (case ready r of
             [] \<Rightarrow> r
           | f # rest \<Rightarrow>
               if f_eof f then r\<lparr>ready := rest, consumer := WIdle, delivered := delivered r @ [unit_data r]\<rparr>
               else r\<lparr>ready := rest, consumer := WUse (f_idx f) (f_len f)\<rparr>)
      | WUse i n \<Rightarrow> r\<lparr>unit_data := unit_data r @ [take (unat n) (bufs r ! i)], consumer := WRecycle i\<rparr>
      | WRecycle i \<Rightarrow> if length (spare r) < READ_RING then r\<lparr>spare := spare r @ [i], consumer := WNext\<rparr> else r)"

datatype side = Reader_Side | Worker_Side

fun pipe_step :: "'h disk \<Rightarrow> side \<Rightarrow> 'h pipe \<Rightarrow> 'h pipe" where
  "pipe_step d Reader_Side r = reader_step d r"
| "pipe_step d Worker_Side r = consumer_step r"

definition pipe_run :: "'h disk \<Rightarrow> side list \<Rightarrow> 'h pipe \<Rightarrow> 'h pipe" where
  "pipe_run d ps r = fold (pipe_step d) ps r"

section \<open>Who owns which buffer\<close>

fun reader_owns :: "'h reader_pc \<Rightarrow> nat list" where
  "reader_owns (RRead h i off remaining) = [i]"
| "reader_owns (RPush h i n off remaining) = [i]"
| "reader_owns (RBack i) = [i]"
| "reader_owns _ = []"

fun worker_owns :: "worker_pc \<Rightarrow> nat list" where
  "worker_owns (WUse i n) = [i]"
| "worker_owns (WRecycle i) = [i]"
| "worker_owns _ = []"

definition filled :: "Filled list \<Rightarrow> Filled list" where
  "filled fs = filter (\<lambda>f. \<not> f_eof f) fs"

definition ready_owns :: "Filled list \<Rightarrow> nat list" where
  "ready_owns fs = map f_idx (filled fs)"

definition owned :: "'h pipe \<Rightarrow> nat list" where
  "owned r = spare r @ reader_owns (reader r) @ ready_owns (ready r) @ worker_owns (consumer r)"

definition ownership :: "'h pipe \<Rightarrow> bool" where
  "ownership r \<longleftrightarrow> length (bufs r) = READ_AHEAD \<and> distinct (owned r) \<and> set (owned r) = {..<READ_AHEAD}"

lemma filled_simps [simp]:
  "filled [] = []" "filled (f # fs) = (if f_eof f then filled fs else f # filled fs)" "filled (fs @ gs) = filled fs @ filled gs"
  by (simp_all add: filled_def)

lemma ready_owns_simps [simp]:
  "ready_owns [] = []" "ready_owns (f # fs) = (if f_eof f then ready_owns fs else f_idx f # ready_owns fs)"
  "ready_owns (fs @ gs) = ready_owns fs @ ready_owns gs"
  by (simp_all add: ready_owns_def)

lemma ownership_reader: "ownership r \<Longrightarrow> ownership (reader_step d r)"
  by (cases "reader r")
     (auto simp: ownership_def owned_def reader_step_def put_buf_def Let_def split: list.splits option.splits)

lemma ownership_consumer: "ownership r \<Longrightarrow> ownership (consumer_step r)"
  by (cases "consumer r") (auto simp: ownership_def owned_def consumer_step_def split: list.splits)

lemma ownership_lengths:
  assumes "ownership r"
  shows "length (spare r) + length (reader_owns (reader r)) + length (filled (ready r)) + length (worker_owns (consumer r)) = READ_AHEAD"
proof -
  have "length (owned r) = READ_AHEAD"
    using assms distinct_card [of "owned r"] by (simp add: ownership_def)
  then show ?thesis
    by (simp add: owned_def ready_owns_def)
qed

section \<open>What is on its way\<close>

definition block_of :: "bytes list \<Rightarrow> Filled \<Rightarrow> bytes" where
  "block_of bs f = take (unat (f_len f)) (bs ! f_idx f)"

fun worker_block :: "bytes list \<Rightarrow> worker_pc \<Rightarrow> bytes list" where
  "worker_block bs (WUse i n) = [take (unat n) (bs ! i)]"
| "worker_block bs _ = []"

fun reader_block :: "bytes list \<Rightarrow> 'h reader_pc \<Rightarrow> bytes list" where
  "reader_block bs (RPush h i n off remaining) = [take n (bs ! i)]"
| "reader_block bs _ = []"

fun reader_rest :: "'h disk \<Rightarrow> 'h reader_pc \<Rightarrow> bytes list" where
  "reader_rest d (RPop h off remaining) = read_blocks d h off remaining"
| "reader_rest d (RRead h i off remaining) = (if remaining = 0 then [] else read_blocks d h off remaining)"
| "reader_rest d (RPush h i n off remaining) = read_blocks d h (off + of_nat n) (remaining - of_nat n)"
| "reader_rest d _ = []"

fun reader_fits :: "'h reader_pc \<Rightarrow> bool" where
  "reader_fits (RRead h i off remaining) \<longleftrightarrow> remaining \<noteq> 0"
| "reader_fits (RPush h i n off remaining) \<longleftrightarrow> n \<le> READ_BLOCK"
| "reader_fits _ \<longleftrightarrow> True"

definition in_unit :: "'h disk \<Rightarrow> 'h pipe \<Rightarrow> bytes list" where
  "in_unit d r = unit_data r @ worker_block (bufs r) (consumer r) @ map (block_of (bufs r)) (filled (ready r)) @
     reader_block (bufs r) (reader r) @ reader_rest d (reader r)"

text \<open>A unit is asked for, being read, or read to its end.\<close>

definition asked :: "ReadRequest \<Rightarrow> 'h pipe \<Rightarrow> bool" where
  "asked req r \<longleftrightarrow> inbox r = [req] \<and> reader r = RIdle \<and> ready r = [] \<and> consumer r = WNext \<and> unit_data r = []"

definition reading :: "'h disk \<Rightarrow> ReadRequest \<Rightarrow> 'h pipe \<Rightarrow> bool" where
  "reading d req r \<longleftrightarrow> inbox r = [] \<and> reader r \<noteq> RIdle \<and> reader_fits (reader r) \<and> consumer r \<noteq> WIdle \<and>
     list_all (\<lambda>f. \<not> f_eof f) (ready r) \<and> in_unit d r = read_request d req"

definition ended :: "'h disk \<Rightarrow> ReadRequest \<Rightarrow> 'h pipe \<Rightarrow> bool" where
  "ended d req r \<longleftrightarrow> inbox r = [] \<and> reader r = RIdle \<and> consumer r \<noteq> WIdle \<and>
     (\<exists>fs e. ready r = fs @ [e] \<and> list_all (\<lambda>f. \<not> f_eof f) fs \<and> f_eof e) \<and> in_unit d r = read_request d req"

definition at_rest :: "'h pipe \<Rightarrow> bool" where
  "at_rest r \<longleftrightarrow> inbox r = [] \<and> reader r = RIdle \<and> ready r = [] \<and> consumer r = WIdle"

definition progress :: "'h disk \<Rightarrow> ReadRequest list \<Rightarrow> 'h pipe \<Rightarrow> bool" where
  "progress d reqs r \<longleftrightarrow>
     (\<exists>ds. delivered r = map (read_request d) ds \<and>
        (reqs = ds @ todo r \<and> at_rest r \<or>
         (\<exists>req. reqs = ds @ req # todo r \<and> (asked req r \<or> reading d req r \<or> ended d req r))))"

section \<open>Every step keeps the books\<close>

lemma put_buf_nth:
  "j \<noteq> i \<Longrightarrow> put_buf i got bs ! j = bs ! j" "i < length bs \<Longrightarrow> take (length got) (put_buf i got bs ! i) = got"
  by (simp_all add: put_buf_def)

lemma read_blocks_step:
  "remaining \<noteq> 0 \<Longrightarrow> read_at d h (want remaining) off [] = [] \<Longrightarrow> read_blocks d h off remaining = []"
  "remaining \<noteq> 0 \<Longrightarrow> read_at d h (want remaining) off [] = got \<Longrightarrow> got \<noteq> [] \<Longrightarrow>
     read_blocks d h off remaining = got # read_blocks d h (off + of_nat (length got)) (remaining - of_nat (length got))"
  "read_blocks d h off 0 = []"
  by (simp_all add: read_blocks.simps [of d h off remaining] read_blocks.simps [of d h off 0] Let_def)

lemma read_at_fits: "length (read_at d h (want remaining) off []) \<le> READ_BLOCK"
  using read_at_length [of "[]" "want remaining" d h off] by (simp add: want_def split: if_splits)

lemma asked_reader: "asked req r \<Longrightarrow> reading d req (reader_step d r)"
  by (auto simp: asked_def reading_def reader_step_def in_unit_def read_request_def split: option.split)

text \<open>Filling the buffer the reader owns changes no block that is on its way.\<close>

lemma reading_fill:
  assumes own: "ownership r" and rd: "reading d req r" and pc: "reader r = RRead h i off remaining"
  shows "reading d req (reader_step d r)"
proof -
  let ?got = "read_at d h (want remaining) off []"
  have rem: "remaining \<noteq> 0"
    using rd pc by (simp add: reading_def)
  show ?thesis
  proof (cases "?got = []")
    case True
    then show ?thesis
      using rd pc rem read_blocks_step(1) [OF rem, of d h off]
      by (simp add: reader_step_def Let_def reading_def in_unit_def)
  next
    case False
    have i: "i < length (bufs r)" "i \<notin> set (ready_owns (ready r))" "i \<notin> set (worker_owns (consumer r))"
      using own pc by (auto simp: ownership_def owned_def)
    have "map (block_of (put_buf i ?got (bufs r))) (filled (ready r)) = map (block_of (bufs r)) (filled (ready r))"
    proof (rule map_cong [OF refl])
      fix f assume "f \<in> set (filled (ready r))"
      with i(2) have "f_idx f \<noteq> i"
        by (auto simp: ready_owns_def)
      then show "block_of (put_buf i ?got (bufs r)) f = block_of (bufs r) f"
        by (simp add: block_of_def put_buf_nth(1))
    qed
    moreover have "worker_block (put_buf i ?got (bufs r)) (consumer r) = worker_block (bufs r) (consumer r)"
      using i(3) by (cases "consumer r") (auto simp: put_buf_nth(1))
    ultimately show ?thesis
      using rd pc rem False read_blocks_step(2) [OF rem refl False] put_buf_nth(2) [OF i(1), of ?got] read_at_fits [of d h remaining off]
      by (simp add: reader_step_def Let_def reading_def in_unit_def del: map_eq_conv)
  qed
qed

lemma reading_reader:
  assumes own: "ownership r" and rd: "reading d req r"
  shows "reading d req (reader_step d r) \<or> ended d req (reader_step d r)"
proof (cases "reader r")
  case (RPop h off remaining)
  then show ?thesis
    using rd by (cases "spare r") (auto simp: reader_step_def reading_def in_unit_def read_blocks_step(3))
next
  case (RRead h i off remaining)
  then show ?thesis
    using reading_fill [OF own rd] by blast
next
  case (RPush h i n off remaining)
  then have "n < 2 ^ 32"
    using rd by (simp add: reading_def READ_BLOCK_def)
  then show ?thesis
    using rd RPush by (auto simp: reader_step_def reading_def in_unit_def block_of_def unat_u32_of_nat)
next
  case RMark
  then show ?thesis
    using rd by (auto simp: reader_step_def reading_def ended_def in_unit_def)
qed (use rd in \<open>auto simp: reader_step_def reading_def in_unit_def\<close>)

lemma ended_reader: "ended d req r \<Longrightarrow> reader_step d r = r"
  by (auto simp: ended_def reader_step_def)

lemma asked_consumer: "asked req r \<Longrightarrow> consumer_step r = r"
  by (auto simp: asked_def consumer_step_def)

lemma in_unit_consumer:
  assumes "consumer r \<noteq> WIdle" and "ready r \<noteq> [] \<longrightarrow> \<not> f_eof (hd (ready r)) \<or> consumer r \<noteq> WNext"
  shows "in_unit d (consumer_step r) = in_unit d r"
  using assms by (cases "consumer r") (auto simp: consumer_step_def in_unit_def block_of_def split: list.splits)

lemma reading_consumer:
  assumes "reading d req r"
  shows "reading d req (consumer_step r)"
proof -
  have "ready r \<noteq> [] \<longrightarrow> \<not> f_eof (hd (ready r)) \<or> consumer r \<noteq> WNext"
    using assms by (cases "ready r") (auto simp: reading_def)
  then have "in_unit d (consumer_step r) = read_request d req"
    using assms by (simp add: in_unit_consumer reading_def)
  then show ?thesis
    using assms
    by (cases "consumer r") (auto simp: reading_def consumer_step_def split: list.splits if_splits)
qed

lemma ended_consumer:
  assumes "ended d req r"
  shows "ended d req (consumer_step r) \<and> delivered (consumer_step r) = delivered r \<or>
    at_rest (consumer_step r) \<and> delivered (consumer_step r) = delivered r @ [read_request d req]"
proof -
  obtain fs e where fs: "ready r = fs @ [e]" "list_all (\<lambda>f. \<not> f_eof f) fs" "f_eof e"
    using assms by (auto simp: ended_def)
  show ?thesis
  proof (cases "consumer r = WNext \<and> fs = []")
    case True
    then show ?thesis
      using assms fs by (auto simp: ended_def at_rest_def consumer_step_def in_unit_def)
  next
    case False
    then have "in_unit d (consumer_step r) = read_request d req"
      using assms fs by (subst in_unit_consumer) (cases fs; auto simp: ended_def)+
    then show ?thesis
      using assms fs False by (cases "consumer r"; cases fs) (auto simp: ended_def consumer_step_def)
  qed
qed

lemma consumer_delivers_late: "reading d req r \<Longrightarrow> delivered (consumer_step r) = delivered r"
  by (auto simp: reading_def consumer_step_def split: worker_pc.split list.split)

lemma reader_frame [simp]: "delivered (reader_step d r) = delivered r" "todo (reader_step d r) = todo r"
  by (simp_all add: reader_step_def Let_def split: reader_pc.split list.split)

lemma consumer_todo: "consumer r \<noteq> WIdle \<Longrightarrow> todo (consumer_step r) = todo r"
  by (auto simp: consumer_step_def split: worker_pc.split list.split)

lemma progress_reader:
  assumes "ownership r" and "progress d reqs r"
  shows "progress d reqs (reader_step d r)"
proof -
  obtain ds where ds: "delivered r = map (read_request d) ds"
      "reqs = ds @ todo r \<and> at_rest r \<or> (\<exists>req. reqs = ds @ req # todo r \<and> (asked req r \<or> reading d req r \<or> ended d req r))"
    using assms(2) by (auto simp: progress_def)
  have "at_rest r \<Longrightarrow> reader_step d r = r"
    by (simp add: at_rest_def reader_step_def)
  moreover have "asked req r \<or> reading d req r \<or> ended d req r \<Longrightarrow> reading d req (reader_step d r) \<or> ended d req (reader_step d r)" for req
    using asked_reader [of req r d] reading_reader [OF assms(1), of d req] ended_reader [of d req r] by auto
  ultimately have "reqs = ds @ todo r \<and> at_rest (reader_step d r) \<or>
      (\<exists>req. reqs = ds @ req # todo r \<and> (asked req (reader_step d r) \<or> reading d req (reader_step d r) \<or> ended d req (reader_step d r)))"
    using ds(2) by metis
  with ds(1) show ?thesis
    unfolding progress_def by (intro exI [of _ ds]) simp
qed

lemma progress_consumer:
  assumes "progress d reqs r"
  shows "progress d reqs (consumer_step r)"
proof -
  obtain ds where ds: "delivered r = map (read_request d) ds"
      "reqs = ds @ todo r \<and> at_rest r \<or> (\<exists>req. reqs = ds @ req # todo r \<and> (asked req r \<or> reading d req r \<or> ended d req r))"
    using assms by (auto simp: progress_def)
  from ds(2) show ?thesis
  proof (elim disjE exE conjE)
    assume *: "reqs = ds @ todo r" "at_rest r"
    show ?thesis
    proof (cases "todo r")
      case Nil
      then have "consumer_step r = r"
        using *(2) by (simp add: at_rest_def consumer_step_def)
      with assms show ?thesis by simp
    next
      case (Cons req rest)
      then show ?thesis
        using * ds(1) unfolding progress_def
        by (intro exI [of _ ds]) (simp add: at_rest_def consumer_step_def asked_def)
    qed
  next
    fix req assume *: "reqs = ds @ req # todo r" "asked req r"
    then show ?thesis
      using asked_consumer [of req r] assms by simp
  next
    fix req assume *: "reqs = ds @ req # todo r" "reading d req r"
    have "todo (consumer_step r) = todo r"
      using * by (intro consumer_todo) (simp add: reading_def)
    with * show ?thesis
      using ds(1) reading_consumer [of d req r] consumer_delivers_late [of d req r] unfolding progress_def
      by (intro exI [of _ ds]) auto
  next
    fix req assume *: "reqs = ds @ req # todo r" "ended d req r"
    have td: "todo (consumer_step r) = todo r"
      using * by (intro consumer_todo) (simp add: ended_def)
    from ended_consumer [OF *(2)] show ?thesis
    proof
      assume "ended d req (consumer_step r) \<and> delivered (consumer_step r) = delivered r"
      with * td ds(1) show ?thesis
        unfolding progress_def by (intro exI [of _ ds]) auto
    next
      assume "at_rest (consumer_step r) \<and> delivered (consumer_step r) = delivered r @ [read_request d req]"
      with * td ds(1) show ?thesis
        unfolding progress_def by (intro exI [of _ "ds @ [req]"]) auto
    qed
  qed
qed

lemma pipe_step_keeps:
  "ownership r \<and> progress d reqs r \<Longrightarrow> ownership (pipe_step d p r) \<and> progress d reqs (pipe_step d p r)"
  by (cases p) (simp_all add: ownership_reader ownership_consumer progress_reader progress_consumer)

lemma pipe_run_keeps:
  "ownership r \<and> progress d reqs r \<Longrightarrow> ownership (pipe_run d ps r) \<and> progress d reqs (pipe_run d ps r)"
  unfolding pipe_run_def
proof (induction ps arbitrary: r)
  case (Cons p ps)
  then show ?case
    using pipe_step_keeps [of r d reqs p] by simp
qed simp

lemma pipe_new_keeps: "length bs = READ_AHEAD \<Longrightarrow> ownership (pipe_new bs reqs) \<and> progress d reqs (pipe_new bs reqs)"
  by (auto simp: pipe_new_def ownership_def owned_def progress_def at_rest_def)

section \<open>Something always moves\<close>

fun reader_work :: "'h disk \<Rightarrow> 'h reader_pc \<Rightarrow> nat" where
  "reader_work d RIdle = 0"
| "reader_work d (RPop h off remaining) = 6 * length (read_blocks d h off remaining) + 5"
| "reader_work d (RRead h i off remaining) = 6 * length (read_blocks d h off remaining) + 4"
| "reader_work d (RPush h i n off remaining) = 6 * length (read_blocks d h (off + of_nat n) (remaining - of_nat n)) + 9"
| "reader_work d (RBack i) = 3"
| "reader_work d RMark = 2"

fun worker_work :: "worker_pc \<Rightarrow> nat" where
  "worker_work (WUse i n) = 2"
| "worker_work (WRecycle i) = 1"
| "worker_work _ = 0"

definition request_work :: "'h disk \<Rightarrow> ReadRequest \<Rightarrow> nat" where
  "request_work d req = 6 * length (read_request d req) + 6"

definition pipe_work :: "'h disk \<Rightarrow> 'h pipe \<Rightarrow> nat" where
  "pipe_work d r = reader_work d (reader r) + worker_work (consumer r) + 3 * length (filled (ready r)) +
     length (filter f_eof (ready r)) + sum_list (map (request_work d) (inbox r)) + sum_list (map (\<lambda>req. request_work d req + 1) (todo r))"

lemma reader_step_works:
  assumes "reader_fits (reader r)" and "reader_step d r \<noteq> r"
  shows "pipe_work d (reader_step d r) < pipe_work d r"
proof (cases "reader r")
  case RIdle
  then show ?thesis
    using assms(2) by (auto simp: reader_step_def pipe_work_def request_work_def read_request_def split: list.splits option.splits)
next
  case (RRead h i off remaining)
  then have rem: "remaining \<noteq> 0"
    using assms(1) by simp
  show ?thesis
    using RRead read_blocks_step(1,2) [OF rem, of d h off]
    by (cases "read_at d h (want remaining) off [] = []") (simp_all add: reader_step_def Let_def pipe_work_def)
qed (use assms in \<open>auto simp: reader_step_def pipe_work_def split: list.splits if_splits\<close>)

lemma consumer_step_works: "consumer_step r \<noteq> r \<Longrightarrow> pipe_work d (consumer_step r) < pipe_work d r"
  by (cases "consumer r") (auto simp: consumer_step_def pipe_work_def split: list.splits if_splits)

lemma progress_fits: "progress d reqs r \<Longrightarrow> reader_fits (reader r)"
  by (auto simp: progress_def at_rest_def asked_def reading_def ended_def)

lemma stuck_finished:
  assumes own: "ownership r" and prog: "progress d reqs r" and stuck: "reader_step d r = r" "consumer_step r = r"
  shows "delivered r = map (read_request d) reqs"
proof -
  have len: "length (spare r) \<le> 4" "spare r = [] \<Longrightarrow> reader_owns (reader r) = [] \<Longrightarrow> filled (ready r) = [] \<Longrightarrow> consumer r = WNext \<Longrightarrow> False"
    using ownership_lengths [OF own] by (auto simp: READ_AHEAD_def)
  have worker: "consumer r = WNext \<and> ready r = [] \<or> consumer r = WIdle \<and> todo r = []"
    using stuck(2) len(1) by (auto simp: consumer_step_def READ_RING_def split: worker_pc.splits list.splits if_splits dest: arg_cong [of _ r consumer])
  moreover have "\<not> asked req r" for req
    using arg_cong [OF stuck(1), of inbox] by (auto simp: asked_def reader_step_def split: option.splits)
  moreover have "\<not> ended d req r" for req
    using worker by (auto simp: ended_def)
  moreover have "\<not> reading d req r" for req
  proof
    assume rd: "reading d req r"
    with worker have w: "consumer r = WNext" "ready r = []"
      by (auto simp: reading_def)
    show False
      using rd w len arg_cong [OF stuck(1), of reader]
      by (cases "reader r") (auto simp: reading_def reader_step_def READ_RING_def Let_def split: list.splits if_splits)
  qed
  ultimately show ?thesis
    using prog by (auto simp: progress_def at_rest_def)
qed

definition rounds :: "nat \<Rightarrow> side list" where
  "rounds n = concat (replicate n [Reader_Side, Worker_Side])"

lemma rounds_finish:
  "ownership r \<Longrightarrow> progress d reqs r \<Longrightarrow> pipe_work d r \<le> n \<Longrightarrow> delivered (pipe_run d (rounds n) r) = map (read_request d) reqs"
proof (induction n arbitrary: r)
  case 0
  then have "reader_step d r = r" "consumer_step r = r"
    using reader_step_works [OF progress_fits [OF 0(2)]] consumer_step_works [of r d] by force+
  with 0 stuck_finished [of r d reqs] show ?case
    by (simp add: pipe_run_def rounds_def)
next
  case (Suc n)
  let ?r1 = "reader_step d r"
  let ?r2 = "consumer_step ?r1"
  have inv: "ownership ?r1" "progress d reqs ?r1" "ownership ?r2" "progress d reqs ?r2"
    using Suc.prems by (simp_all add: ownership_reader ownership_consumer progress_reader progress_consumer)
  have run: "pipe_run d (rounds (Suc n)) r = pipe_run d (rounds n) ?r2"
    by (simp add: pipe_run_def rounds_def)
  have le: "pipe_work d ?r1 \<le> pipe_work d r" "pipe_work d ?r2 \<le> pipe_work d ?r1"
    using reader_step_works [OF progress_fits [OF Suc.prems(2)], of d] consumer_step_works [of ?r1 d] by (force intro: less_imp_le)+
  show ?case
  proof (cases "?r1 = r \<and> ?r2 = ?r1")
    case False
    then have "pipe_work d ?r2 < pipe_work d r"
      using le reader_step_works [OF progress_fits [OF Suc.prems(2)], of d] consumer_step_works [of ?r1 d] by force
    then show ?thesis
      unfolding run using Suc.prems(3) by (intro Suc.IH inv) simp
  next
    case True
    then have still: "reader_step d r = r" "consumer_step r = r"
      by auto
    then have "pipe_run d (rounds k) r = r" for k
      by (induction k) (simp_all add: pipe_run_def rounds_def)
    then show ?thesis
      using still Suc.prems stuck_finished [of r d reqs] by simp
  qed
qed

section \<open>Property\<close>


definition sample_reads :: "ReadRequest list" where
  "sample_reads = [\<lparr>rq_pathname = ''a'', rq_offset = 1, rq_length = 9\<rparr>, \<lparr>rq_pathname = ''none'', rq_offset = 0, rq_length = 4\<rparr>]"


section \<open>A second producer\<close>

text \<open>
  The ring has room for one pushing thread.  \<open>spare\<close> has two: the worker's \<open>recycle\<close>, and the reader's return of a
  buffer when a file ends early.  When both load \<open>tail\<close> before either stores it, both report success
  and one buffer is gone.
\<close>

definition two_push :: "nat \<Rightarrow> bool \<Rightarrow> 'a ring \<times> 'a push_pc \<Rightarrow> 'a ring \<times> 'a push_pc" where
  "two_push m first = (\<lambda>(r, other).
     if first then (push_step m r, other)
     else let r1 = push_step m (r\<lparr>pusher := other\<rparr>) in (r1\<lparr>pusher := pusher r\<rparr>, pusher r1))"

lemma two_producers_lose:
  "let (r, other) = fold (two_push 3) [True, False, True, True, True, True, True, True, False, False, False, False, False, False]
     (ring_new 3 0 [1, 2 :: nat], PushIdle)
   in push_results r = [True, True] \<and> held 3 (buf r) (head r) (tail r) = [2]"
  by code_simp

end
