(* ===== verification/Tar.thy ===== *)
theory Tar
  imports Storage_Reader
begin

text \<open>
  The member headers that \<open>server/archive.cxx\<close> writes, and a reader of the ustar format against which they are checked:
  the reader verifies the checksum and gives back the name and the size.
\<close>

section \<open>A member's header\<close>

text \<open>\<open>n - 1\<close> octal digits, the last one first in the loop of the code, and a NUL.\<close>

fun octal_digits :: "nat \<Rightarrow> u64 \<Rightarrow> bytes" where
  "octal_digits 0 v = []"
| "octal_digits (Suc k) v = octal_digits k (drop_bit 3 v) @ [ucast (48 + (v AND 7))]"

definition set_octal :: "nat \<Rightarrow> u64 \<Rightarrow> bytes" where
  "set_octal n v = octal_digits (n - 1) v @ [0]"

text \<open>\<open>snprintf\<close> with \<open>%06o\<close>, into eight bytes of which one is the NUL.\<close>

fun print_octal :: "nat \<Rightarrow> bytes" where
  "print_octal n = (if n < 8 then [48 + of_nat n] else print_octal (n div 8) @ [48 + of_nat (n mod 8)])"

declare print_octal.simps [simp del]

definition checksum_text :: "nat \<Rightarrow> bytes" where
  "checksum_text n = (let ds = print_octal n in take 7 (replicate (6 - length ds) 48 @ ds))"

definition memcpy :: "nat \<Rightarrow> 'a list \<Rightarrow> 'a list \<Rightarrow> 'a list" where
  "memcpy pos src dst = take pos dst @ src @ drop (pos + length src) dst"

text \<open>The last slash at which a long name can be split into a prefix and a name.\<close>

definition split_point :: "string \<Rightarrow> nat option" where
  "split_point name = foldl (\<lambda>split p.
     if name ! p = CHR ''/'' \<and> length name - (p + 1) \<le> 100 \<and> p \<le> 155 then Some p else split) None [0..<length name]"

definition header_names :: "string \<Rightarrow> string \<times> string" where
  "header_names name =
     (if 100 < length name
      then case split_point name of
             Some split \<Rightarrow> (take split name, drop (split + 1) name)
           | None \<Rightarrow> ([], drop (length name - 100) name)
      else ([], name))"

definition emit_header :: "string \<Rightarrow> u64 \<Rightarrow> bytes" where
  "emit_header name sz =
     (let (field_prefix, field_name) = header_names name;
          h = replicate 512 0;
          h = memcpy 0 (take 100 (bytes_of field_name)) h;
          h = memcpy 345 (take 155 (bytes_of field_prefix)) h;
          h = memcpy 100 (set_octal 8 0x1a4) h;
          h = memcpy 108 (set_octal 8 0) h;
          h = memcpy 116 (set_octal 8 0) h;
          h = memcpy 124 (set_octal 12 sz) h;
          h = memcpy 136 (set_octal 12 0) h;
          h = h[156 := 48];
          h = memcpy 257 (bytes_of ''ustar'') h;
          h = h[263 := 48];
          h = h[264 := 48];
          h = memcpy 148 (replicate 8 32) h;
          sum = (sum_list (map ucast h) :: u32);
          cs = checksum_text (unat (sum AND 0x1FFFFF));
          h = memcpy 148 (take 6 cs) h;
          h = h[154 := 0];
          h = h[155 := 32]
      in h)"

section \<open>Fields\<close>

text \<open>A block as the concatenation of its fields: writing one and reading one.\<close>

lemma concat_segment:
  assumes "i < length segs"
  shows "concat segs = concat (take i segs) @ segs ! i @ concat (drop (Suc i) segs)"
proof -
  have "segs = take i segs @ segs ! i # drop (Suc i) segs"
    using assms by (rule id_take_nth_drop)
  then show ?thesis
    by (metis concat.simps(2) concat_append)
qed

lemma memcpy_field:
  assumes "i < length segs" and "pos = sum_list (map length (take i segs))" and "length s \<le> length (segs ! i)"
  shows "memcpy pos s (concat segs) = concat (segs[i := s @ drop (length s) (segs ! i)])"
  using assms concat_segment [of i segs] length_concat [of "take i segs"] by (simp add: memcpy_def upd_conv_take_nth_drop)

lemma poke_field:
  assumes "i < length segs" and "pos = sum_list (map length (take i segs)) + j" and "j < length (segs ! i)"
  shows "(concat segs)[pos := x] = concat (segs[i := (segs ! i)[j := x]])"
  using assms concat_segment [of i segs] length_concat [of "take i segs"]
  by (simp add: upd_conv_take_nth_drop [of i] list_update_append)

lemma read_field:
  assumes "i < length segs" and "pos = sum_list (map length (take i segs))" and "n = length (segs ! i)"
  shows "take n (drop pos (concat segs)) = segs ! i"
  using assms concat_segment [of i segs] length_concat [of "take i segs"] by simp

definition zpad :: "nat \<Rightarrow> bytes \<Rightarrow> bytes" where
  "zpad n s = take n s @ replicate (n - length s) 0"

lemma length_zpad [simp]: "length (zpad n s) = n"
  by (simp add: zpad_def)

lemma length_octal_digits [simp]: "length (octal_digits k v) = k"
  by (induction k v rule: octal_digits.induct) simp_all

lemma length_set_octal [simp]: "0 < n \<Longrightarrow> length (set_octal n v) = n"
  by (simp add: set_octal_def)

text \<open>The layout of a ustar header, with the contents of the checksum field open.\<close>

definition header_segments :: "string \<Rightarrow> string \<Rightarrow> u64 \<Rightarrow> bytes \<Rightarrow> bytes list" where
  "header_segments pre name sz ck =
     [zpad 100 (bytes_of name), set_octal 8 0x1a4, set_octal 8 0, set_octal 8 0, set_octal 12 sz, set_octal 12 0,
      ck, [48], replicate 100 0, bytes_of ''ustar'', [0], [48], [48], replicate 80 0, zpad 155 (bytes_of pre), replicate 12 0]"

lemma concat_zeros: "concat (map (\<lambda>n. replicate n x) ns) = replicate (sum_list ns) x"
  by (induction ns) (simp_all add: replicate_add)

lemma zero_segments:
  "replicate 512 (0 :: byte) = concat [replicate 100 0, replicate 8 0, replicate 8 0, replicate 8 0, replicate 12 0, replicate 12 0,
     replicate 8 0, [0], replicate 100 0, replicate 5 0, [0], [0], [0], replicate 80 0, replicate 155 0, replicate 12 0]"
  using concat_zeros [of 0 "[100, 8, 8, 8, 12, 12, 8, 1, 100, 5, 1, 1, 1, 80, 155, 12]", symmetric] by (simp del: concat.simps)

lemmas header_writes =
  memcpy_field [of 0] memcpy_field [of 1] memcpy_field [of 2] memcpy_field [of 3] memcpy_field [of 4] memcpy_field [of 5]
  memcpy_field [of 6] memcpy_field [of 9] memcpy_field [of 14] poke_field [of 7 _ _ 0] poke_field [of 11 _ _ 0]
  poke_field [of 12 _ _ 0] poke_field [of 6 _ _ 6] poke_field [of 6 _ _ 7]

definition header_sum :: "string \<Rightarrow> string \<Rightarrow> u64 \<Rightarrow> u32" where
  "header_sum pre name sz = sum_list (map ucast (concat (header_segments pre name sz (replicate 8 32))))"

lemma length_print_octal: "n < 8 ^ Suc k \<Longrightarrow> length (print_octal n) \<le> Suc k"
proof (induction k arbitrary: n)
  case 0
  then show ?case by (simp add: print_octal.simps)
next
  case (Suc k)
  then have "n div 8 < 8 ^ Suc k"
    by (simp add: less_mult_imp_div_less mult.commute)
  with Suc.IH [of "n div 8"] show ?case
    by (subst print_octal.simps) simp
qed

lemma length_checksum_text: "6 \<le> length (checksum_text n)"
  by (simp add: checksum_text_def Let_def)

lemma emit_header_layout:
  assumes "header_names name = (pre, short)"
  shows "emit_header name sz =
    concat (header_segments pre short sz (take 6 (checksum_text (unat (header_sum pre short sz AND 0x1FFFFF))) @ [0, 32]))"
proof -
  have u: "bytes_of ''ustar'' = [117, 115, 116, 97, 114]"
    by code_simp
  have ck: "min (length (checksum_text n)) 6 = 6" for n
    using length_checksum_text [of n] by simp
  have r: "replicate 2 (32 :: byte) = [32, 32]"
    by code_simp
  have z: "zpad n s = take n s @ replicate (n - min (length s) n) 0" for n s
    by (simp add: zpad_def min_def)
  show ?thesis
    unfolding emit_header_def zero_segments assms header_segments_def header_sum_def z
    by (simp add: header_writes Let_def u r ck list_update_append del: concat.simps)
qed

section \<open>A reader of the format\<close>

definition oct_val :: "bytes \<Rightarrow> nat" where
  "oct_val ds = foldl (\<lambda>a d. 8 * a + (unat d - 48)) 0 ds"

definition tar_text :: "bytes \<Rightarrow> nat \<Rightarrow> nat \<Rightarrow> bytes" where
  "tar_text h pos n = takeWhile (\<lambda>b. b \<noteq> 0) (take n (drop pos h))"

definition tar_name :: "bytes \<Rightarrow> string" where
  "tar_name h = (let name = string_of (tar_text h 0 100); pre = string_of (tar_text h 345 155)
     in if pre = [] then name else pre @ ''/'' @ name)"

definition tar_size :: "bytes \<Rightarrow> nat" where
  "tar_size h = oct_val (tar_text h 124 12)"

definition tar_valid :: "bytes \<Rightarrow> bool" where
  "tar_valid h \<longleftrightarrow> take 5 (drop 257 h) = bytes_of ''ustar'' \<and>
     oct_val (tar_text h 148 8) = sum_list (map unat (take 148 h @ replicate 8 32 @ drop 156 h))"

definition tar_pad :: "nat \<Rightarrow> nat" where
  "tar_pad n = (512 - n mod 512) mod 512"

function untar :: "bytes \<Rightarrow> (string \<times> bytes) list option" where
  "untar bs =
     (if length bs < 512 then None
      else let h = take 512 bs; body = drop 512 bs; n = tar_size h
           in if h = replicate 512 0 then Some []
              else if \<not> tar_valid h \<or> length body < n + tar_pad n then None
              else map_option (\<lambda>ms. (tar_name h, take n body) # ms) (untar (drop (n + tar_pad n) body)))"
  by pat_completeness auto
termination
  by (relation "measure length") auto

declare untar.simps [simp del]

section \<open>What the reader sees\<close>

lemma oct_val_simps [simp]: "oct_val [] = 0" "oct_val (ds @ [d]) = 8 * oct_val ds + (unat d - 48)"
  by (simp_all add: oct_val_def)

lemma oct_val_zeros: "oct_val (replicate k 48 @ ds) = oct_val ds"
proof -
  have "foldl (\<lambda>a d. 8 * a + (unat (d :: byte) - 48)) 0 (replicate k 48) = 0"
    by (induction k) simp_all
  then show ?thesis
    by (simp add: oct_val_def)
qed

lemma octal_digit: "unat (ucast (48 + (v AND 7) :: u64) :: byte) = 48 + unat v mod 8"
proof -
  have "v AND 7 = take_bit 3 v"
    by (simp add: take_bit_eq_mask mask_eq_exp_minus_1)
  then have seven: "unat (v AND 7) = unat v mod 8"
    by (simp only: unsigned_take_bit_eq) (simp add: take_bit_eq_mod)
  have "unat v mod 8 < 18446744073709551568"
    using mod_less_divisor [of 8 "unat v"] by linarith
  then have "unat (48 + (v AND 7)) = 48 + unat v mod 8"
    using unat_add_lem [of 48 "v AND 7"] seven by simp
  then show ?thesis
    by (simp add: unsigned_ucast_eq take_bit_eq_mod)
qed

lemma oct_val_digits: "oct_val (octal_digits k v) = unat v mod 8 ^ k"
proof (induction k arbitrary: v)
  case (Suc k)
  have "unat (drop_bit 3 v) = unat v div 8"
    by (simp only: unsigned_drop_bit_eq) (simp add: drop_bit_eq_div take_bit_eq_mod order.strict_trans2 [OF unsigned_less])
  with Suc show ?case
    by (simp add: octal_digit mod_mult2_eq)
qed simp

lemma octal_digits_nonzero: "0 \<notin> set (octal_digits k v)"
proof (induction k arbitrary: v)
  case (Suc k)
  have "ucast (48 + (v AND 7) :: u64) \<noteq> (0 :: byte)"
    using octal_digit [of v] by (metis add_is_0 unat_0 zero_neq_numeral)
  with Suc show ?case
    by (simp add: eq_commute [of 0])
qed simp

lemma print_octal_digits: "oct_val (print_octal n) = n \<and> 0 \<notin> set (print_octal n)"
proof (induction n rule: print_octal.induct)
  case (1 n)
  have digit: "unat (48 + of_nat m :: byte) = 48 + m" if "m < 8" for m
  proof -
    have "(48 + of_nat m :: byte) = of_nat (48 + m)"
      by simp
    then show ?thesis
      using that by (simp only: unsigned_of_nat) (simp add: take_bit_eq_mod)
  qed
  have nonzero: "(48 + of_nat m :: byte) \<noteq> 0" if "m < 8" for m
    using digit [OF that] by (metis add_is_0 unat_0 zero_neq_numeral)
  show ?case
    using 1 digit [of n] digit [of "n mod 8"] nonzero [of n] nonzero [of "n mod 8"]
    by (cases "n < 8") (auto simp: print_octal.simps [of n] oct_val_def eq_commute [of 0])
qed

lemma takeWhile_text: "0 \<notin> set s \<Longrightarrow> takeWhile (\<lambda>b. b \<noteq> 0) (s @ 0 # t) = (s :: bytes)"
  by (induction s) auto

lemma takeWhile_zpad: "0 \<notin> set s \<Longrightarrow> length s \<le> n \<Longrightarrow> takeWhile (\<lambda>b. b \<noteq> 0) (zpad n s) = s"
proof -
  assume s: "0 \<notin> set s" "length s \<le> n"
  show ?thesis
  proof (cases "length s = n")
    case True
    then show ?thesis
      using s by (auto simp: zpad_def takeWhile_eq_all_conv)
  next
    case False
    then have "replicate (n - length s) (0 :: byte) = 0 # replicate (n - length s - 1) 0"
      using s(2) by (metis Suc_diff_1 diff_is_0_eq le_antisym neq0_conv replicate_Suc)
    then show ?thesis
      using s takeWhile_text by (simp add: zpad_def)
  qed
qed

lemma checksum_text_reads:
  assumes "n < 8 ^ 6"
  shows "oct_val (checksum_text n) = n" "0 \<notin> set (checksum_text n)" "length (checksum_text n) = 6"
proof -
  have len: "length (print_octal n) \<le> 6"
    using length_print_octal [of n 5] assms by simp
  then have ck: "checksum_text n = replicate (6 - length (print_octal n)) 48 @ print_octal n"
    by (simp add: checksum_text_def Let_def)
  show "oct_val (checksum_text n) = n" "0 \<notin> set (checksum_text n)" "length (checksum_text n) = 6"
    using len print_octal_digits [of n] by (simp_all add: ck oct_val_zeros)
qed

lemma sum_bytes:
  assumes "length bs < 2 ^ 20"
  shows "unat (sum_list (map ucast bs) :: u32) = sum_list (map unat (bs :: bytes)) \<and> sum_list (map unat bs) \<le> 255 * length bs"
  using assms
proof (induction bs)
  case (Cons b bs)
  then have IH: "unat (sum_list (map ucast bs) :: u32) = sum_list (map unat bs)" "sum_list (map unat bs) \<le> 255 * length bs"
    by simp_all
  have b: "unat (ucast b :: u32) = unat b" "unat b < 256"
    by (simp_all add: unsigned_ucast_eq take_bit_eq_mod order.strict_trans [OF unat_byte_less])
  have "unat (ucast b :: u32) + unat (sum_list (map ucast bs) :: u32) < 2 ^ 32"
  proof -
    have "length bs < 1048576"
      using Cons.prems by simp
    with IH(2) b(2) have "unat b + sum_list (map unat bs) < 4294967296"
      by linarith
    then show ?thesis
      by (simp add: IH(1) b(1))
  qed
  then have "unat (ucast b + sum_list (map ucast bs) :: u32) = unat b + sum_list (map unat bs)"
    using unat_add_lem [of "ucast b :: u32" "sum_list (map ucast bs)"] IH(1) b(1) by simp
  moreover have "unat b + sum_list (map unat bs) \<le> 255 + 255 * length bs"
    using IH(2) b(2) by linarith
  ultimately show ?case
    by simp
qed simp

text \<open>Names the format can hold: short ones, and those with a slash in the right place.\<close>

definition tar_representable :: "string \<Rightarrow> bool" where
  "tar_representable name \<longleftrightarrow> CHR 0x00 \<notin> set name \<and>
     (length name \<le> 100 \<or> split_point name \<noteq> None \<and> hd name \<noteq> CHR ''/'')"

lemma foldl_last_match: "foldl (\<lambda>s p. if P p then Some p else s) None ps = Some p \<Longrightarrow> p \<in> set ps \<and> P p"
  by (induction ps rule: rev_induct) (auto split: if_splits)

lemma split_point_some:
  assumes "split_point name = Some p"
  shows "p < length name" "name ! p = CHR ''/''" "length name - (p + 1) \<le> 100" "p \<le> 155"
  using foldl_last_match [OF assms [unfolded split_point_def]] by auto

lemma header_names_read:
  assumes "tar_representable name" and "header_names name = (pre, short)"
  shows "length short \<le> 100" "length pre \<le> 155" "CHR 0x00 \<notin> set pre" "CHR 0x00 \<notin> set short"
    "(if pre = [] then short else pre @ ''/'' @ short) = name"
proof -
  have *: "length short \<le> 100 \<and> length pre \<le> 155 \<and> CHR 0x00 \<notin> set pre \<and> CHR 0x00 \<notin> set short \<and>
      (if pre = [] then short else pre @ ''/'' @ short) = name"
  proof (cases "100 < length name")
    case False
    with assms show ?thesis
      by (auto simp: header_names_def tar_representable_def)
  next
    case True
    then obtain p where p: "split_point name = Some p" and hd: "hd name \<noteq> CHR ''/''"
      using assms(1) by (auto simp: tar_representable_def)
    note sp = split_point_some [OF p]
    have names: "pre = take p name" "short = drop (p + 1) name"
      using assms(2) True p by (simp_all add: header_names_def)
    have "0 < p"
      using sp(1,2) hd by (metis hd_conv_nth length_greater_0_conv neq0_conv not_less0)
    then have "pre \<noteq> []"
      using sp(1) by (auto simp: names)
    moreover have "name = take p name @ ''/'' @ drop (p + 1) name"
      using id_take_nth_drop [OF sp(1)] sp(2) by simp
    ultimately show ?thesis
      using assms(1) sp names by (auto simp: tar_representable_def dest: in_set_takeD in_set_dropD)
  qed
  then show "length short \<le> 100" "length pre \<le> 155" "CHR 0x00 \<notin> set pre" "CHR 0x00 \<notin> set short"
    "(if pre = [] then short else pre @ ''/'' @ short) = name"
    by blast+
qed

lemma bytes_of_nonzero: "CHR 0x00 \<notin> set s \<Longrightarrow> 0 \<notin> set (bytes_of s)"
proof
  assume "CHR 0x00 \<notin> set s" "0 \<in> set (bytes_of s)"
  then obtain c where "c \<in> set s" "(of_char c :: byte) = 0"
    by (auto simp: bytes_of_def)
  then have "of_char c = (0 :: nat)"
    using unat_of_char [of c] by simp
  then have "of_char c = (of_char (CHR 0x00) :: nat)"
    by simp
  then have "c = CHR 0x00"
    by (simp only: of_char_eq_iff)
  with \<open>CHR 0x00 \<notin> set s\<close> \<open>c \<in> set s\<close> show False by simp
qed

lemma length_header_segments [simp]:
  "length (concat (header_segments pre name sz ck)) = 504 + length ck"
  by (simp add: header_segments_def length_concat del: concat.simps)

lemma header_fields:
  assumes "length ck = 8"
  shows "take 100 (drop 0 (concat (header_segments pre name sz ck))) = zpad 100 (bytes_of name)"
    "take 155 (drop 345 (concat (header_segments pre name sz ck))) = zpad 155 (bytes_of pre)"
    "take 12 (drop 124 (concat (header_segments pre name sz ck))) = set_octal 12 sz"
    "take 8 (drop 148 (concat (header_segments pre name sz ck))) = ck"
    "take 5 (drop 257 (concat (header_segments pre name sz ck))) = bytes_of ''ustar''"
proof -
  show "take 100 (drop 0 (concat (header_segments pre name sz ck))) = zpad 100 (bytes_of name)"
    by (rule trans [OF read_field [of 0]]) (simp_all add: header_segments_def assms)
  show "take 155 (drop 345 (concat (header_segments pre name sz ck))) = zpad 155 (bytes_of pre)"
    by (rule trans [OF read_field [of 14]]) (simp_all add: header_segments_def assms)
  show "take 12 (drop 124 (concat (header_segments pre name sz ck))) = set_octal 12 sz"
    by (rule trans [OF read_field [of 4]]) (simp_all add: header_segments_def assms)
  show "take 8 (drop 148 (concat (header_segments pre name sz ck))) = ck"
    by (rule trans [OF read_field [of 6]]) (simp_all add: header_segments_def assms)
  show "take 5 (drop 257 (concat (header_segments pre name sz ck))) = bytes_of ''ustar''"
    by (rule trans [OF read_field [of 9]]) (simp_all add: header_segments_def assms)
qed

lemma header_checksum_field:
  assumes "length ck = 8"
  shows "take 148 (concat (header_segments pre name sz ck)) @ replicate 8 32 @ drop 156 (concat (header_segments pre name sz ck)) =
    concat (header_segments pre name sz (replicate 8 32))"
proof -
  have "memcpy 148 (replicate 8 32) (concat (header_segments pre name sz ck)) =
      concat ((header_segments pre name sz ck)[6 := replicate 8 32 @ drop (length (replicate 8 (32 :: byte))) (header_segments pre name sz ck ! 6)])"
    by (rule memcpy_field) (simp_all add: header_segments_def assms)
  moreover have "(header_segments pre name sz ck)[6 := replicate 8 32 @ drop (length (replicate 8 (32 :: byte))) (header_segments pre name sz ck ! 6)] =
      header_segments pre name sz (replicate 8 32)"
    by (simp add: header_segments_def assms)
  ultimately show ?thesis
    by (simp add: memcpy_def)
qed

lemma header_reads:
  assumes rep: "tar_representable name" and sz: "unat sz < 8 ^ 11"
  shows "length (emit_header name sz) = 512" "tar_valid (emit_header name sz)" "tar_name (emit_header name sz) = name"
    "tar_size (emit_header name sz) = unat sz" "emit_header name sz \<noteq> replicate 512 0"
proof -
  obtain pre short where hn: "header_names name = (pre, short)"
    by fastforce
  note names = header_names_read [OF rep hn]
  define total where "total = unat (header_sum pre short sz)"
  have total: "total = sum_list (map unat (concat (header_segments pre short sz (replicate 8 32))))" "total \<le> 255 * 512"
    using sum_bytes [of "concat (header_segments pre short sz (replicate 8 32))"] by (simp_all add: total_def header_sum_def)
  have mask: "unat (header_sum pre short sz AND 0x1FFFFF) = total"
  proof -
    have "header_sum pre short sz AND 0x1FFFFF = take_bit 21 (header_sum pre short sz)"
      by (simp add: take_bit_eq_mask mask_eq_exp_minus_1)
    then have "unat (header_sum pre short sz AND 0x1FFFFF) = take_bit 21 total"
      by (simp only: unsigned_take_bit_eq total_def)
    then show ?thesis
      using total(2) by (simp add: take_bit_eq_mod)
  qed
  note ck = checksum_text_reads [of total]
  have small: "total < 8 ^ 6"
    using total(2) by simp
  let ?ck = "checksum_text total @ [0, 32]"
  let ?segs = "header_segments pre short sz ?ck"
  have h: "emit_header name sz = concat ?segs"
    using emit_header_layout [OF hn, of sz] ck(3) [OF small] by (simp add: mask)
  have len: "length ?ck = 8"
    using ck(3) [OF small] by simp
  show "length (emit_header name sz) = 512"
    using len by (simp add: h)
  note fields = header_fields [OF len, of pre short sz]
  have "takeWhile (\<lambda>b. b \<noteq> 0) (zpad 100 (bytes_of short)) = bytes_of short" "takeWhile (\<lambda>b. b \<noteq> 0) (zpad 155 (bytes_of pre)) = bytes_of pre"
    using names by (simp_all add: takeWhile_zpad bytes_of_nonzero)
  then show "tar_name (emit_header name sz) = name"
    using names(5) fields by (simp add: tar_name_def tar_text_def h Let_def)
  have "takeWhile (\<lambda>b. b \<noteq> 0) (set_octal 12 sz) = octal_digits 11 sz"
    using takeWhile_text [OF octal_digits_nonzero, of 11 sz "[]"] by (simp add: set_octal_def)
  then show "tar_size (emit_header name sz) = unat sz"
    using fields sz by (simp add: tar_size_def tar_text_def h oct_val_digits)
  have "takeWhile (\<lambda>b. b \<noteq> 0) ?ck = checksum_text total"
    using takeWhile_text [OF ck(2) [OF small]] by simp
  moreover have "take 148 (concat ?segs) @ replicate 8 32 @ drop 156 (concat ?segs) = concat (header_segments pre short sz (replicate 8 32))"
    by (rule header_checksum_field [OF len])
  ultimately show "tar_valid (emit_header name sz)"
    using fields total(1) ck(1) [OF small] by (simp add: tar_valid_def tar_text_def h)
  have "take 5 (drop 257 (replicate 512 (0 :: byte))) \<noteq> bytes_of ''ustar''"
    by code_simp
  then show "emit_header name sz \<noteq> replicate 512 0"
    using fields(5) unfolding h by metis
qed

end
