(* ===== verification/Archive.thy ===== *)
theory Archive
  imports Tar Compressor "HOL-Library.List_Lexorder" "HOL-Library.Char_ord"
begin

text \<open>
  \<open>server/archive.h\<close> and \<open>server/archive.cxx\<close>: a session directory as a zstd-compressed tar stream,
  produced chunk by chunk, and the loop of \<open>server/connection.cxx\<close> that sends it.  Parameters are what the
  file system reports of the directory, the contents its files have when they are opened, and the
  calls of zstd (\<open>codec\<close>).
\<close>

section \<open>The streamer\<close>

definition kRawTarget :: nat where "kRawTarget = 2 ^ 18"

record ArchiveEntry =
  en_path :: string
  en_name :: string
  en_size :: u64

text \<open>What iterating the directory reports of a path; \<^const>\<open>None\<close> is an error of the call.\<close>

record DirEntry =
  de_path :: string
  de_regular :: bool
  de_rel :: "string option"
  de_size :: "u64 option"

record 'k ArchiveStreamer =
  entries :: "ArchiveEntry list"
  idx :: nat
  header_pending :: bool
  cur :: bytes
  cur_remaining :: u64
  pad_remaining :: nat
  trailer_emitted :: bool
  raw :: bytes
  raw_pos :: nat
  input_done :: bool
  stream_finished :: bool
  stream_ok :: bool
  zcs :: 'k

fun archive_entry :: "string \<Rightarrow> DirEntry \<Rightarrow> ArchiveEntry list" where
  "archive_entry pre de =
     (if \<not> de_regular de then []
      else case de_rel de of
             None \<Rightarrow> []
           | Some rel \<Rightarrow>
               if rel = [] then []
               else case de_size de of
                      None \<Rightarrow> []
                    | Some sz \<Rightarrow> [\<lparr>en_path = de_path de, en_name = pre @ ''/'' @ rel, en_size = sz\<rparr>])"

definition archive_begin :: "DirEntry list option \<Rightarrow> string \<Rightarrow> 'k option \<Rightarrow> 'k ArchiveStreamer option" where
  "archive_begin listing pre cstream =
     (case listing of
        None \<Rightarrow> None
      | Some des \<Rightarrow>
          (case cstream of
             None \<Rightarrow> None
           | Some k \<Rightarrow>
               Some \<lparr>entries = sort_key en_name (concat (map (archive_entry pre) des)), idx = 0, header_pending = True,
                 cur = [], cur_remaining = 0, pad_remaining = 0, trailer_emitted = False, raw = [], raw_pos = 0,
                 input_done = False, stream_finished = False, stream_ok = True, zcs = k\<rparr>))"

text \<open>One round of the loop of \<open>refill_raw\<close>; \<open>files\<close> gives the content of a file that can be opened.\<close>

definition refill_step :: "(string \<rightharpoonup> bytes) \<Rightarrow> 'k ArchiveStreamer \<Rightarrow> 'k ArchiveStreamer" where
  "refill_step files a =
     (if length (entries a) \<le> idx a
      then (if trailer_emitted a then a else a\<lparr>raw := raw a @ replicate 1024 0, trailer_emitted := True\<rparr>)\<lparr>input_done := True\<rparr>
      else let entry = entries a ! idx a
           in if header_pending a
              then case files (en_path entry) of
                     None \<Rightarrow> a\<lparr>idx := idx a + 1, header_pending := True\<rparr>
                   | Some content \<Rightarrow>
                       a\<lparr>cur := content, raw := raw a @ emit_header (en_name entry) (en_size entry), cur_remaining := en_size entry,
                         pad_remaining := (512 - unat (en_size entry mod 512)) mod 512, header_pending := False\<rparr>
              else if 0 < cur_remaining a
              then let want = min (unat (cur_remaining a)) 65536;
                       got = take want (cur a);
                       a1 = a\<lparr>cur := drop want (cur a), raw := raw a @ got, cur_remaining := cur_remaining a - of_nat (length got)\<rparr>
                   in if length got < want
                      then a1\<lparr>raw := raw a1 @ replicate (unat (cur_remaining a1)) 0, cur_remaining := 0\<rparr>
                      else a1
              else if 0 < pad_remaining a
              then a\<lparr>raw := raw a @ replicate (pad_remaining a) 0, pad_remaining := 0\<rparr>
              else a\<lparr>idx := idx a + 1, header_pending := True\<rparr>)"

lemma data_step_shrinks:
  assumes "0 < (c :: u64)" and "n \<le> unat c" and "0 < n"
  shows "unat (c - of_nat n) < unat c"
  using assms unat_u64_minus [of n c] by simp

function refill_raw :: "(string \<rightharpoonup> bytes) \<Rightarrow> 'k ArchiveStreamer \<Rightarrow> 'k ArchiveStreamer" where
  "refill_raw files a =
     (if length (raw a) - raw_pos a < kRawTarget \<and> \<not> input_done a then refill_raw files (refill_step files a) else a)"
  by pat_completeness auto
termination
proof (relation "measures [\<lambda>(f, a). of_bool (\<not> input_done a), \<lambda>(f, a). length (entries a) - idx a,
    \<lambda>(f, a). of_bool (header_pending a), \<lambda>(f, a). unat (cur_remaining a), \<lambda>(f, a). pad_remaining a]", goal_cases)
  case 1
  then show ?case by simp
next
  case (2 files a)
  show ?case
  proof (cases "idx a < length (entries a) \<and> \<not> header_pending a \<and> 0 < cur_remaining a")
    case True
    define n where "n = min (unat (cur_remaining a)) 65536"
    have pos: "0 < unat (cur_remaining a)"
      using True by (simp add: unat_gt_0 word_neq_0_conv)
    have "unat (cur_remaining a - of_nat n) < unat (cur_remaining a)"
      using True pos by (intro data_step_shrinks) (simp_all add: n_def)
    then have "unat (cur_remaining (refill_step files a)) < unat (cur_remaining a)"
      using True pos by (cases "length (cur a) < n") (simp_all add: refill_step_def Let_def min_absorb2 flip: n_def)
    moreover have "idx (refill_step files a) = idx a" "entries (refill_step files a) = entries a"
      "header_pending (refill_step files a) = header_pending a" "input_done (refill_step files a) = input_done a"
      using True by (simp_all add: refill_step_def Let_def)
    ultimately show ?thesis
      by simp
  next
    case False
    then show ?thesis
      using 2 by (auto simp: refill_step_def Let_def split: option.splits)
  qed
qed

declare refill_raw.simps [simp del]

text \<open>The loop that feeds zstd, with the position in the input and the output so far; no position is an error of the call.\<close>

partial_function (option) archive_compress ::
    "'k codec \<Rightarrow> bool \<Rightarrow> 'k \<Rightarrow> bytes \<Rightarrow> nat \<Rightarrow> bytes \<Rightarrow> ('k \<times> bytes \<times> nat option) option" where
  "archive_compress cd ending k input pos out =
     (case zstd_compress cd k 65536 (drop pos input) (if ending then ZSTD_e_end else ZSTD_e_continue) of
        (k', None) \<Rightarrow> Some (k', out, None)
      | (k', Some (produced, consumed, rc)) \<Rightarrow>
          if (if ending then rc = 0 else pos + consumed = length input)
          then Some (k', out @ produced, Some (pos + consumed))
          else archive_compress cd ending k' input (pos + consumed) (out @ produced))"

definition archive_consume :: "'k \<Rightarrow> bool \<Rightarrow> nat \<Rightarrow> 'k ArchiveStreamer \<Rightarrow> 'k ArchiveStreamer" where
  "archive_consume k ending n a =
     (let a1 = a\<lparr>zcs := k, stream_finished := ending, raw_pos := raw_pos a + n\<rparr>
      in if raw_pos a1 = length (raw a1) then a1\<lparr>raw := [], raw_pos := 0\<rparr> else a1)"

partial_function (option) archive_next_loop ::
    "'k codec \<Rightarrow> (string \<rightharpoonup> bytes) \<Rightarrow> 'k ArchiveStreamer \<Rightarrow> bytes \<Rightarrow> (bool \<times> bytes \<times> 'k ArchiveStreamer) option" where
  "archive_next_loop cd files a out =
     (if out = [] \<and> \<not> stream_finished a
      then let a1 = refill_raw files a;
               input = drop (raw_pos a1) (raw a1);
               ending = (input_done a1 \<and> input = [])
           in case archive_compress cd ending (zcs a1) input 0 out of
                None \<Rightarrow> None
              | Some (k, out1, None) \<Rightarrow> Some (False, out1, a1\<lparr>zcs := k, stream_ok := False\<rparr>)
              | Some (k, out1, Some n) \<Rightarrow> archive_next_loop cd files (archive_consume k ending n a1) out1
      else Some (\<not> stream_finished a, out, a))"

definition archive_next :: "'k codec \<Rightarrow> (string \<rightharpoonup> bytes) \<Rightarrow> 'k ArchiveStreamer \<Rightarrow> (bool \<times> bytes \<times> 'k ArchiveStreamer) option" where
  "archive_next cd files a =
     (if \<not> stream_ok a \<or> stream_finished a then Some (False, [], a) else archive_next_loop cd files a [])"

text \<open>
  \<open>pump_download\<close> of \<open>server/connection.cxx\<close>, called again by \<open>on_write_download\<close> for every chunk that has been
  written: the chunks sent, and whether the archive ended without an error.
\<close>

partial_function (option) pump_download ::
    "'k codec \<Rightarrow> (string \<rightharpoonup> bytes) \<Rightarrow> 'k ArchiveStreamer \<Rightarrow> bytes list \<Rightarrow> (bool \<times> bytes list) option" where
  "pump_download cd files a chunks =
     (case archive_next cd files a of
        None \<Rightarrow> None
      | Some (again, chunk, a1) \<Rightarrow>
          if \<not> stream_ok a1 then Some (False, chunks)
          else if chunk = [] then Some (True, chunks)
          else if \<not> again then Some (True, chunks @ [chunk])
          else pump_download cd files a1 (chunks @ [chunk]))"

section \<open>The tar stream\<close>

definition tar_member :: "(string \<rightharpoonup> bytes) \<Rightarrow> ArchiveEntry \<Rightarrow> bytes" where
  "tar_member files e =
     (case files (en_path e) of
        None \<Rightarrow> []
      | Some content \<Rightarrow> emit_header (en_name e) (en_size e) @ zpad (unat (en_size e)) content @ replicate (tar_pad (unat (en_size e))) 0)"

definition archive_tar :: "(string \<rightharpoonup> bytes) \<Rightarrow> ArchiveEntry list \<Rightarrow> bytes" where
  "archive_tar files es = concat (map (tar_member files) es) @ replicate 1024 0"

text \<open>What \<open>refill_raw\<close> has still to produce.\<close>

definition tar_rest :: "(string \<rightharpoonup> bytes) \<Rightarrow> 'k ArchiveStreamer \<Rightarrow> bytes" where
  "tar_rest files a =
     (if input_done a then []
      else (if idx a < length (entries a) \<and> \<not> header_pending a
            then zpad (unat (cur_remaining a)) (cur a) @ replicate (pad_remaining a) 0 @
              concat (map (tar_member files) (drop (Suc (idx a)) (entries a)))
            else concat (map (tar_member files) (drop (idx a) (entries a)))) @ replicate 1024 0)"

lemma zpad_take:
  assumes "n \<le> c" and "n \<le> length s"
  shows "take n s @ zpad (c - n) (drop n s) = zpad c s"
proof -
  have "take c s = take n s @ take (c - n) (drop n s)"
    using assms(1) by (metis add_diff_inverse_nat not_less take_add)
  then show ?thesis
    using assms by (simp add: zpad_def)
qed

lemma zpad_0 [simp]: "zpad 0 s = []"
  by (simp add: zpad_def)

lemma unat_mod_512: "unat ((sz :: u64) mod 512) = unat sz mod 512"
proof -
  have "sz mod 512 = take_bit 9 sz"
    by (simp add: take_bit_eq_mod)
  then show ?thesis
    by (simp only: unsigned_take_bit_eq) (simp add: take_bit_eq_mod)
qed

lemma refill_data:
  fixes a :: "'k ArchiveStreamer"
  assumes "0 < cur_remaining a" and "idx a < length (entries a)" and "\<not> header_pending a" and "\<not> input_done a"
  shows "raw (refill_step files a) @ tar_rest files (refill_step files a) = raw a @ tar_rest files a"
proof -
  define n where "n = min (unat (cur_remaining a)) 65536"
  have n: "n \<le> unat (cur_remaining a)"
    by (simp add: n_def)
  show ?thesis
  proof (cases "length (cur a) < n")
    case True
    then have "unat (cur_remaining a - of_nat (length (cur a))) = unat (cur_remaining a) - length (cur a)"
      using n by (intro unat_u64_minus) simp
    then show ?thesis
      using True n assms by (simp add: refill_step_def Let_def tar_rest_def zpad_def flip: n_def)
  next
    case False
    then have "unat (cur_remaining a - of_nat n) = unat (cur_remaining a) - n"
      using n by (intro unat_u64_minus)
    moreover have "take n (cur a) @ zpad (unat (cur_remaining a) - n) (drop n (cur a)) @ rest = zpad (unat (cur_remaining a)) (cur a) @ rest" for rest
      using zpad_take [OF n, of "cur a"] False by (simp flip: append_assoc)
    ultimately show ?thesis
      using False n assms by (simp add: refill_step_def Let_def tar_rest_def min_absorb2 flip: n_def)
  qed
qed

lemma refill_step_stream:
  fixes a :: "'k ArchiveStreamer"
  assumes "\<not> input_done a" and "trailer_emitted a \<longrightarrow> input_done a"
  shows "raw (refill_step files a) @ tar_rest files (refill_step files a) = raw a @ tar_rest files a"
proof (cases "idx a < length (entries a)")
  case False
  then show ?thesis
    using assms by (simp add: refill_step_def tar_rest_def)
next
  case True
  note entry = Cons_nth_drop_Suc [OF True, symmetric]
  show ?thesis
  proof (cases "header_pending a")
    case header: True
    show ?thesis
    proof (cases "files (en_path (entries a ! idx a))")
      case None
      then show ?thesis
        using True header assms by (simp add: refill_step_def Let_def tar_rest_def entry tar_member_def)
    next
      case (Some content)
      then show ?thesis
        using True header assms
        by (simp add: refill_step_def Let_def tar_rest_def entry tar_member_def tar_pad_def unat_mod_512)
    qed
  next
    case False
    then show ?thesis
      using refill_data [of a files] True assms
      by (cases "0 < cur_remaining a") (auto simp: refill_step_def Let_def tar_rest_def word_gt_0)
  qed
qed

lemma refill_step_frame [simp]:
  "entries (refill_step files a) = entries a" "raw_pos (refill_step files a) = raw_pos a" "zcs (refill_step files a) = zcs a"
  "stream_finished (refill_step files a) = stream_finished a" "stream_ok (refill_step files a) = stream_ok a"
  "length (raw a) \<le> length (raw (refill_step files a))"
  by (auto simp: refill_step_def Let_def split: option.split)

lemma refill_step_trailer:
  "trailer_emitted a \<longrightarrow> input_done a \<Longrightarrow> trailer_emitted (refill_step files a) \<longrightarrow> input_done (refill_step files a)"
  by (auto simp: refill_step_def Let_def split: option.split)

text \<open>The bytes waiting in \<open>raw_\<close>, and those to come.\<close>

definition to_feed :: "(string \<rightharpoonup> bytes) \<Rightarrow> 'k ArchiveStreamer \<Rightarrow> bytes" where
  "to_feed files a = drop (raw_pos a) (raw a) @ tar_rest files a"

definition steady :: "'k ArchiveStreamer \<Rightarrow> bool" where
  "steady a \<longleftrightarrow> raw_pos a \<le> length (raw a) \<and> (trailer_emitted a \<longrightarrow> input_done a)"

lemma refill_raw_stream:
  fixes a :: "'k ArchiveStreamer"
  assumes "steady a"
  shows "to_feed files (refill_raw files a) = to_feed files a \<and> steady (refill_raw files a) \<and>
    zcs (refill_raw files a) = zcs a \<and> stream_finished (refill_raw files a) = stream_finished a \<and> stream_ok (refill_raw files a) = stream_ok a \<and>
    (input_done (refill_raw files a) \<or> drop (raw_pos (refill_raw files a)) (raw (refill_raw files a)) \<noteq> [])"
  using assms
proof (induction files a rule: refill_raw.induct)
  case (1 files a)
  let ?a = "refill_step files a"
  show ?case
  proof (cases "length (raw a) - raw_pos a < kRawTarget \<and> \<not> input_done a")
    case False
    then show ?thesis
      using 1(2) by (auto simp: refill_raw.simps [of files a] kRawTarget_def steady_def)
  next
    case True
    have st: "steady ?a"
      using 1(2) refill_step_trailer [of a files] le_trans [OF _ refill_step_frame(6) [of a files]] by (auto simp: steady_def)
    have "raw_pos a \<le> length (raw a)" "raw_pos a \<le> length (raw ?a)"
      using 1(2) st by (simp_all add: steady_def)
    then have "drop (raw_pos a) (raw ?a) @ tar_rest files ?a = drop (raw_pos a) (raw ?a @ tar_rest files ?a)"
      "drop (raw_pos a) (raw a @ tar_rest files a) = drop (raw_pos a) (raw a) @ tar_rest files a"
      by simp_all
    moreover have "raw ?a @ tar_rest files ?a = raw a @ tar_rest files a"
      using True 1(2) by (intro refill_step_stream) (auto simp: steady_def)
    ultimately have "to_feed files ?a = to_feed files a"
      unfolding to_feed_def refill_step_frame by (simp only:)
    with 1(1) [OF True st] True show ?thesis
      by (simp add: refill_raw.simps [of files a])
  qed
qed

section \<open>Compressing it\<close>

text \<open>
  What is relied on of zstd: as before, \<open>coding k sent taken\<close> says what a context has taken and given out; a call makes
  progress, that is, it takes input or has less held back than before; and once ending a
  frame gives 0, what was sent decodes to what was taken.
\<close>

definition zstd_stream_documented ::
    "'k codec \<Rightarrow> (bytes \<Rightarrow> bytes option) \<Rightarrow> ('k \<Rightarrow> bytes \<Rightarrow> bytes \<Rightarrow> bool) \<Rightarrow> ('k \<Rightarrow> nat) \<Rightarrow> bool" where
  "zstd_stream_documented cd decode coding held_back \<longleftrightarrow>
     (\<forall>k sent taken input dir. coding k sent taken \<longrightarrow> (dir = ZSTD_e_end \<longrightarrow> input = []) \<longrightarrow>
        (\<exists>k' out consumed rc. zstd_compress cd k 65536 input dir = (k', Some (out, consumed, rc)) \<and>
           consumed \<le> length input \<and> coding k' (sent @ out) (taken @ take consumed input) \<and>
           (dir = ZSTD_e_continue \<longrightarrow> consumed = length input \<or> 0 < consumed \<or> held_back k' < held_back k) \<and>
           (dir = ZSTD_e_end \<longrightarrow> (if rc = 0 then decode (sent @ out) = Some taken else held_back k' < held_back k))))"

lemma archive_compress_continue:
  assumes "zstd_stream_documented cd decode coding held_back"
  shows "coding k sent taken \<Longrightarrow> pos \<le> length input \<Longrightarrow>
    \<exists>k' out'. archive_compress cd False k input pos out = Some (k', out @ out', Some (length input)) \<and>
      coding k' (sent @ out') (taken @ drop pos input)"
proof (induction "(length input - pos, held_back k)" arbitrary: k sent taken pos out rule: wf_induct_rule [OF wf_lex_prod [OF wf_less_than wf_less_than]])
  case 1
  obtain k' o1 consumed rc where call:
      "zstd_compress cd k 65536 (drop pos input) ZSTD_e_continue = (k', Some (o1, consumed, rc))"
      "consumed \<le> length input - pos" "coding k' (sent @ o1) (taken @ take consumed (drop pos input))"
      "consumed = length input - pos \<or> 0 < consumed \<or> held_back k' < held_back k"
    using assms [unfolded zstd_stream_documented_def, rule_format, OF 1(2), of ZSTD_e_continue "drop pos input"] by auto
  show ?case
  proof (cases "consumed = length input - pos")
    case True
    then show ?thesis
      using call 1(3) by (subst archive_compress.simps) simp
  next
    case False
    have le: "pos + consumed \<le> length input"
      using call(2) 1(3) by simp
    have smaller: "((length input - (pos + consumed), held_back k'), length input - pos, held_back k) \<in> less_than <*lex*> less_than"
      using call(2,4) False 1(3) by auto
    from 1(1) [OF smaller call(3) le, of "out @ o1"]
    obtain k2 out2 where "archive_compress cd False k' input (pos + consumed) (out @ o1) = Some (k2, (out @ o1) @ out2, Some (length input))"
      "coding k2 ((sent @ o1) @ out2) ((taken @ take consumed (drop pos input)) @ drop (pos + consumed) input)"
      by blast
    moreover have "take consumed (drop pos input) @ drop (pos + consumed) input = drop pos input"
      by (metis add.commute append_take_drop_id drop_drop)
    moreover have "pos + consumed \<noteq> length input"
      using False by simp
    ultimately show ?thesis
      using call(1) by (subst archive_compress.simps) simp
  qed
qed

lemma archive_compress_end:
  assumes "zstd_stream_documented cd decode coding held_back"
  shows "coding k sent taken \<Longrightarrow>
    \<exists>k' out'. archive_compress cd True k [] 0 out = Some (k', out @ out', Some 0) \<and> decode (sent @ out') = Some taken"
proof (induction "held_back k" arbitrary: k sent out rule: less_induct)
  case less
  obtain k' o1 rc where call: "zstd_compress cd k 65536 [] ZSTD_e_end = (k', Some (o1, 0, rc))" "coding k' (sent @ o1) taken"
      "if rc = 0 then decode (sent @ o1) = Some taken else held_back k' < held_back k"
    using assms [unfolded zstd_stream_documented_def, rule_format, OF less(2), of ZSTD_e_end "[]"] by auto
  show ?case
  proof (cases "rc = 0")
    case True
    then show ?thesis
      using call by (subst archive_compress.simps) simp
  next
    case False
    with less(1) [of k' "sent @ o1" "out @ o1"] call show ?thesis
      by (subst archive_compress.simps) auto
  qed
qed

lemma consume_all:
  assumes "n = length (drop (raw_pos a) (raw a))" and "steady a"
  shows "to_feed files (archive_consume k e n a) = tar_rest files a" "steady (archive_consume k e n a)"
    "zcs (archive_consume k e n a) = k" "stream_finished (archive_consume k e n a) = e" "stream_ok (archive_consume k e n a) = stream_ok a"
  using assms by (auto simp: archive_consume_def Let_def to_feed_def tar_rest_def steady_def)

text \<open>
  What a call of \<open>next\<close> comes to, for a stream whose bytes are \<open>fed\<close> altogether and of which \<open>n\<close> are still to be compressed.
\<close>

definition next_codes ::
    "(bytes \<Rightarrow> bytes option) \<Rightarrow> ('k \<Rightarrow> bytes \<Rightarrow> bytes \<Rightarrow> bool) \<Rightarrow> (string \<rightharpoonup> bytes) \<Rightarrow> bytes \<Rightarrow> bytes \<Rightarrow> nat \<Rightarrow>
     bool \<times> bytes \<times> 'k ArchiveStreamer \<Rightarrow> bool" where
  "next_codes decode coding files sent fed n = (\<lambda>(again, out, a). stream_ok a \<and>
     (if again then out \<noteq> [] \<and> \<not> stream_finished a \<and> steady a \<and> length (to_feed files a) < n \<and>
         (\<exists>taken. coding (zcs a) (sent @ out) taken \<and> taken @ to_feed files a = fed)
      else decode (sent @ out) = Some fed))"

lemma archive_next_loop_codes:
  assumes doc: "zstd_stream_documented cd decode coding held_back"
  shows "steady a \<Longrightarrow> stream_ok a \<Longrightarrow> \<not> stream_finished a \<Longrightarrow> coding (zcs a) sent taken \<Longrightarrow>
    \<exists>res. archive_next_loop cd files a [] = Some res \<and>
      next_codes decode coding files sent (taken @ to_feed files a) (length (to_feed files a)) res"
proof (induction "length (to_feed files a)" arbitrary: a sent taken rule: less_induct)
  case less
  define a1 where "a1 = refill_raw files a"
  define input where "input = drop (raw_pos a1) (raw a1)"
  have a1: "to_feed files a1 = to_feed files a" "steady a1" "zcs a1 = zcs a" "\<not> stream_finished a1" "stream_ok a1" "input_done a1 \<or> input \<noteq> []"
    using refill_raw_stream [OF less(2), of files] less(3,4) by (auto simp: a1_def input_def)
  have fed: "to_feed files a = input @ tar_rest files a1"
    using a1(1) by (simp add: to_feed_def input_def)
  have step: "archive_next_loop cd files a [] =
      (case archive_compress cd (input_done a1 \<and> input = []) (zcs a1) input 0 [] of
         None \<Rightarrow> None
       | Some (k, out1, None) \<Rightarrow> Some (False, out1, a1\<lparr>zcs := k, stream_ok := False\<rparr>)
       | Some (k, out1, Some n) \<Rightarrow> archive_next_loop cd files (archive_consume k (input_done a1 \<and> input = []) n a1) out1)"
    unfolding a1_def input_def using less(4) by (subst archive_next_loop.simps) (simp add: Let_def)
  show ?case
  proof (cases "input = []")
    case True
    then have d: "input_done a1" "to_feed files a = []"
      using a1(6) fed by (simp_all add: tar_rest_def)
    obtain k out where call: "archive_compress cd True (zcs a1) [] 0 [] = Some (k, out, Some 0)" "decode (sent @ out) = Some taken"
      using archive_compress_end [OF doc, of "zcs a1" sent taken "[]"] less(5) a1(3) by auto
    have raw: "0 = length (drop (raw_pos a1) (raw a1))"
      using True by (simp add: input_def)
    note c = consume_all [OF raw a1(2)]
    have "archive_next_loop cd files (archive_consume k True 0 a1) out = Some (False, out, archive_consume k True 0 a1)"
      by (subst archive_next_loop.simps) (simp add: c)
    then show ?thesis
      using True d call a1(5) c by (simp add: step next_codes_def)
  next
    case False
    obtain k out where call: "archive_compress cd False (zcs a1) input 0 [] = Some (k, out, Some (length input))" "coding k (sent @ out) (taken @ input)"
      using archive_compress_continue [OF doc, of "zcs a1" sent taken 0 input "[]"] less(5) a1(3) by auto
    let ?a2 = "archive_consume k False (length input) a1"
    have raw: "length input = length (drop (raw_pos a1) (raw a1))"
      by (simp add: input_def)
    note c = consume_all [OF raw a1(2)]
    have shorter: "length (to_feed files ?a2) < length (to_feed files a)"
      using False by (simp add: c fed)
    have run: "archive_next_loop cd files a [] = archive_next_loop cd files ?a2 out"
      using False call(1) by (simp add: step)
    show ?thesis
    proof (cases "out = []")
      case False
      then have "archive_next_loop cd files ?a2 out = Some (True, out, ?a2)"
        by (subst archive_next_loop.simps) (simp add: c)
      then show ?thesis
        using False run call(2) c a1(5) shorter fed by (auto simp: next_codes_def intro!: exI [of _ "taken @ input"])
    next
      case True
      have "\<exists>res. archive_next_loop cd files ?a2 [] = Some res \<and>
          next_codes decode coding files sent ((taken @ input) @ to_feed files ?a2) (length (to_feed files ?a2)) res"
        using call(2) True c a1(5) by (intro less(1) shorter) simp_all
      then obtain res where res: "archive_next_loop cd files ?a2 [] = Some res"
          "next_codes decode coding files sent (taken @ to_feed files a) (length (to_feed files ?a2)) res"
        using c(1) fed by auto
      have "next_codes decode coding files sent (taken @ to_feed files a) (length (to_feed files a)) res"
        using res(2) shorter by (cases res) (auto simp: next_codes_def split: if_splits)
      with res(1) run True show ?thesis by simp
    qed
  qed
qed

lemma pump_download_codes:
  assumes doc: "zstd_stream_documented cd decode coding held_back"
  shows "steady a \<Longrightarrow> stream_ok a \<Longrightarrow> \<not> stream_finished a \<Longrightarrow> coding (zcs a) sent taken \<Longrightarrow>
    \<exists>cs. pump_download cd files a chunks = Some (True, chunks @ cs) \<and> [] \<notin> set cs \<and>
      decode (sent @ concat cs) = Some (taken @ to_feed files a)"
proof (induction "length (to_feed files a)" arbitrary: a sent taken chunks rule: less_induct)
  case less
  obtain again out a1 where res: "archive_next_loop cd files a [] = Some (again, out, a1)"
      "next_codes decode coding files sent (taken @ to_feed files a) (length (to_feed files a)) (again, out, a1)"
    using archive_next_loop_codes [OF doc less(2-5), of files] by auto
  have run: "pump_download cd files a chunks =
      (if out = [] then Some (True, chunks) else if \<not> again then Some (True, chunks @ [out]) else pump_download cd files a1 (chunks @ [out]))"
    using res less(3,4) by (subst pump_download.simps) (simp add: archive_next_def next_codes_def)
  show ?case
  proof (cases again)
    case False
    then show ?thesis
      using run res(2) by (cases "out = []") (auto simp: next_codes_def)
  next
    case True
    then obtain taken1 where t: "coding (zcs a1) (sent @ out) taken1" "taken1 @ to_feed files a1 = taken @ to_feed files a"
        "out \<noteq> []" "\<not> stream_finished a1" "steady a1" "stream_ok a1" "length (to_feed files a1) < length (to_feed files a)"
      using res(2) by (auto simp: next_codes_def)
    obtain cs where "pump_download cd files a1 (chunks @ [out]) = Some (True, (chunks @ [out]) @ cs)" "[] \<notin> set cs"
        "decode ((sent @ out) @ concat cs) = Some (taken1 @ to_feed files a1)"
      using less(1) [OF t(7,5,6,4,1), of "chunks @ [out]"] by blast
    then show ?thesis
      using True t(2,3) run by (intro exI [of _ "out # cs"]) auto
  qed
qed

section \<open>Reading it back\<close>

lemma untar_member:
  assumes "tar_representable (en_name e)" and "unat (en_size e) < 8 ^ 11" and "files (en_path e) = Some content"
  shows "untar (tar_member files e @ rest) = map_option (\<lambda>ms. (en_name e, zpad (unat (en_size e)) content) # ms) (untar rest)"
proof -
  let ?h = "emit_header (en_name e) (en_size e)"
  note h = header_reads [OF assms(1,2)]
  have "take 512 (?h @ t) = ?h" "drop 512 (?h @ t) = t" "\<not> length (?h @ t) < 512" for t
    using h(1) by simp_all
  note parts = this
  show ?thesis
    unfolding tar_member_def assms(3) option.case append_assoc
    by (subst untar.simps) (simp add: parts h Let_def del: append_assoc length_append, simp add: Let_def h)
qed

lemma untar_archive:
  assumes "\<forall>e\<in>set es. tar_representable (en_name e) \<and> unat (en_size e) < 8 ^ 11"
  shows "untar (archive_tar files es) =
    Some (concat (map (\<lambda>e. case files (en_path e) of None \<Rightarrow> [] | Some c \<Rightarrow> [(en_name e, zpad (unat (en_size e)) c)]) es))"
  using assms
proof (induction es)
  case Nil
  have "take 512 (replicate 1024 (0 :: byte)) = replicate 512 0"
    by simp
  then show ?case
    by (subst untar.simps) (simp add: archive_tar_def Let_def)
next
  case (Cons e es)
  show ?case
  proof (cases "files (en_path e)")
    case None
    with Cons show ?thesis
      by (simp add: archive_tar_def tar_member_def)
  next
    case (Some c)
    with Cons show ?thesis
      using untar_member [of e files c "concat (map (tar_member files) es) @ replicate 1024 0"] by (simp add: archive_tar_def)
  qed
qed

lemma archive_begin_feeds:
  assumes "archive_begin (Some des) pre (Some k) = Some a"
  shows "to_feed files a = archive_tar files (entries a)" "steady a" "stream_ok a" "\<not> stream_finished a" "zcs a = k"
  using assms by (auto simp: archive_begin_def to_feed_def tar_rest_def archive_tar_def steady_def)

section \<open>What the format cannot hold\<close>

text \<open>Eight gibibytes are written as no bytes at all.\<close>

lemma huge_size_wraps: "emit_header name 0x200000000 = emit_header name 0"
proof -
  have "set_octal 12 0x200000000 = set_octal 12 0"
    by code_simp
  then show ?thesis
    by (simp only: emit_header_def)
qed

text \<open>Two long names without a slash in the right place are written alike.\<close>

lemma long_names_collide:
  "emit_header (CHR ''x'' # replicate 100 (CHR ''a'')) sz = emit_header (CHR ''y'' # replicate 100 (CHR ''a'')) sz"
proof -
  have "header_names (CHR ''x'' # replicate 100 (CHR ''a'')) = header_names (CHR ''y'' # replicate 100 (CHR ''a''))"
    by code_simp
  then show ?thesis
    by (simp only: emit_header_def)
qed

section \<open>Property\<close>


definition sample_dir :: "DirEntry list" where
  "sample_dir = [\<lparr>de_path = ''/s/b'', de_regular = True, de_rel = Some ''b'', de_size = Some 2\<rparr>,
     \<lparr>de_path = ''/s'', de_regular = False, de_rel = None, de_size = None\<rparr>,
     \<lparr>de_path = ''/s/a'', de_regular = True, de_rel = Some ''a'', de_size = Some 5\<rparr>]"

definition sample_archive :: "unit ArchiveStreamer" where
  "sample_archive = the (archive_begin (Some sample_dir) ''s'' (Some ()))"

lemma copy_codec_streams: "zstd_stream_documented copy_codec Some (\<lambda>k sent taken. sent = taken) (\<lambda>k. 0)"
  by (auto simp: zstd_stream_documented_def copy_codec_def min_def)


end
