(* ===== verification/Json_Lexer.thy ===== *)
theory Json_Lexer
  imports Dicker_Prelude
begin

text \<open>
  The lexer of the JSON library in \<open>cxx_modules/json.hpp\<close> (\<open>class lexer\<close>), which reads the token
  store and the rows of the session log.

  The input adapter of a string is the list of the bytes still to be read; \<open>get()\<close> takes the
  next one, \<open>unget()\<close> leaves it on the list.  A token carries the value that the getters of the
  class return for it.  What only feeds error messages (\<open>token_string\<close>, \<open>error_message\<close>, line
  counts) is left out: both callers parse without exceptions and see only that there was an
  error.  \<open>ignore_comments\<close> is its default, false, and the decimal point that of the "C"
  locale, which the programs never change.  Conversion of floating-point literals is
  \<open>strtod\<close>'s and a parameter (\<open>float_ops\<close>).
\<close>

section \<open>Tokens\<close>

record 'f float_ops =
  strtod :: "bytes \<Rightarrow> 'f"
  isfinite :: "'f \<Rightarrow> bool"
  float_chars :: "'f \<Rightarrow> bytes"

datatype 'f token_type =
    literal_true | literal_false | literal_null
  | value_string bytes | value_unsigned u64 | value_integer int | value_float 'f
  | begin_array | begin_object | end_array | end_object
  | name_separator | value_separator | parse_error | end_of_input

section \<open>Strings\<close>

definition hex_digit :: "byte \<Rightarrow> nat option" where
  "hex_digit c =
     (if 0x30 \<le> c \<and> c \<le> 0x39 then Some (unat c - 0x30)
      else if 0x41 \<le> c \<and> c \<le> 0x46 then Some (unat c - 0x37)
      else if 0x61 \<le> c \<and> c \<le> 0x66 then Some (unat c - 0x57)
      else None)"

fun codepoint_digits :: "nat list \<Rightarrow> nat \<Rightarrow> bytes \<Rightarrow> (nat \<times> bytes) option" where
  "codepoint_digits [] codepoint inp = Some (codepoint, inp)"
| "codepoint_digits (factor # factors) codepoint [] = None"
| "codepoint_digits (factor # factors) codepoint (c # cs) =
     (case hex_digit c of
        None \<Rightarrow> None
      | Some d \<Rightarrow> codepoint_digits factors (codepoint + push_bit factor d) cs)"

definition get_codepoint :: "bytes \<Rightarrow> (nat \<times> bytes) option" where
  "get_codepoint inp = codepoint_digits [12, 8, 4, 0] 0 inp"

fun next_byte_in_range :: "(byte \<times> byte) list \<Rightarrow> bytes \<Rightarrow> (bytes \<times> bytes) option" where
  "next_byte_in_range [] inp = Some ([], inp)"
| "next_byte_in_range (r # ranges) [] = None"
| "next_byte_in_range (r # ranges) (c # cs) =
     (if fst r \<le> c \<and> c \<le> snd r
      then map_option (map_prod (Cons c) id) (next_byte_in_range ranges cs)
      else None)"

definition utf8_encode :: "nat \<Rightarrow> bytes" where
  "utf8_encode codepoint =
     (if codepoint < 0x80 then [of_nat codepoint]
      else if codepoint \<le> 0x7FF then
        [of_nat (0xC0 OR drop_bit 6 codepoint), of_nat (0x80 OR (codepoint AND 0x3F))]
      else if codepoint \<le> 0xFFFF then
        [of_nat (0xE0 OR drop_bit 12 codepoint), of_nat (0x80 OR (drop_bit 6 codepoint AND 0x3F)),
         of_nat (0x80 OR (codepoint AND 0x3F))]
      else
        [of_nat (0xF0 OR drop_bit 18 codepoint), of_nat (0x80 OR (drop_bit 12 codepoint AND 0x3F)),
         of_nat (0x80 OR (drop_bit 6 codepoint AND 0x3F)), of_nat (0x80 OR (codepoint AND 0x3F))])"

definition scan_unicode :: "bytes \<Rightarrow> (bytes \<times> bytes) option" where
  "scan_unicode inp =
     (case get_codepoint inp of
        None \<Rightarrow> None
      | Some (codepoint1, inp1) \<Rightarrow>
          if 0xD800 \<le> codepoint1 \<and> codepoint1 \<le> 0xDBFF then
            (case inp1 of
               a # b # inp2 \<Rightarrow>
                 if a = 0x5C \<and> b = 0x75
                 then (case get_codepoint inp2 of
                         None \<Rightarrow> None
                       | Some (codepoint2, inp3) \<Rightarrow>
                           if 0xDC00 \<le> codepoint2 \<and> codepoint2 \<le> 0xDFFF
                           then Some (utf8_encode (push_bit 10 codepoint1 + codepoint2 - 0x35FDC00), inp3)
                           else None)
                 else None
             | _ \<Rightarrow> None)
          else if 0xDC00 \<le> codepoint1 \<and> codepoint1 \<le> 0xDFFF then None
          else Some (utf8_encode codepoint1, inp1))"

definition scan_escape :: "bytes \<Rightarrow> (bytes \<times> bytes) option" where
  "scan_escape inp =
     (case inp of
        [] \<Rightarrow> None
      | c # cs \<Rightarrow>
          if c = 0x22 then Some ([0x22], cs)
          else if c = 0x5C then Some ([0x5C], cs)
          else if c = 0x2F then Some ([0x2F], cs)
          else if c = 0x62 then Some ([0x08], cs)
          else if c = 0x66 then Some ([0x0C], cs)
          else if c = 0x6E then Some ([0x0A], cs)
          else if c = 0x72 then Some ([0x0D], cs)
          else if c = 0x74 then Some ([0x09], cs)
          else if c = 0x75 then scan_unicode cs
          else None)"

definition control_character :: "byte \<Rightarrow> bool" where
  "control_character c \<longleftrightarrow> c \<le> 0x1F"

definition plain_character :: "byte \<Rightarrow> bool" where
  "plain_character c \<longleftrightarrow> 0x20 \<le> c \<and> c \<le> 0x7F \<and> c \<noteq> 0x22 \<and> c \<noteq> 0x5C"

text \<open>The ranges of the bytes that must follow the first byte of a multi-byte character.\<close>

definition utf8_ranges :: "byte \<Rightarrow> (byte \<times> byte) list option" where
  "utf8_ranges c =
     (if 0xC2 \<le> c \<and> c \<le> 0xDF then Some [(0x80, 0xBF)]
      else if c = 0xE0 then Some [(0xA0, 0xBF), (0x80, 0xBF)]
      else if 0xE1 \<le> c \<and> c \<le> 0xEF \<and> c \<noteq> 0xED then Some [(0x80, 0xBF), (0x80, 0xBF)]
      else if c = 0xED then Some [(0x80, 0x9F), (0x80, 0xBF)]
      else if c = 0xF0 then Some [(0x90, 0xBF), (0x80, 0xBF), (0x80, 0xBF)]
      else if 0xF1 \<le> c \<and> c \<le> 0xF3 then Some [(0x80, 0xBF), (0x80, 0xBF), (0x80, 0xBF)]
      else if c = 0xF4 then Some [(0x80, 0x8F), (0x80, 0xBF), (0x80, 0xBF)]
      else None)"

lemma codepoint_digits_length:
  "codepoint_digits fs cp inp = Some (r, rest) \<Longrightarrow> length rest + length fs = length inp"
  by (induction fs cp inp rule: codepoint_digits.induct) (auto split: option.splits)

lemma get_codepoint_length: "get_codepoint inp = Some (r, rest) \<Longrightarrow> length rest + 4 = length inp"
  using codepoint_digits_length [of "[12, 8, 4, 0]"] by (fastforce simp: get_codepoint_def)

lemma next_byte_in_range_length:
  "next_byte_in_range ranges inp = Some (bs, rest) \<Longrightarrow> length rest + length ranges = length inp"
  by (induction ranges inp arbitrary: bs rule: next_byte_in_range.induct) (auto split: if_splits)

lemma scan_unicode_length: "scan_unicode inp = Some (bs, rest) \<Longrightarrow> length rest < length inp"
  unfolding scan_unicode_def
  by (fastforce dest: get_codepoint_length split: option.splits list.splits if_splits)

lemma scan_escape_length: "scan_escape inp = Some (bs, rest) \<Longrightarrow> length rest < length inp"
  unfolding scan_escape_def
  by (auto dest: scan_unicode_length split: option.splits list.splits if_splits)

text \<open>From behind the opening quote to behind the closing one; \<^const>\<open>None\<close> is a parse error.\<close>

function scan_string :: "bytes \<Rightarrow> bytes \<Rightarrow> (bytes \<times> bytes) option" where
  "scan_string token_buffer inp =
     (case inp of
        [] \<Rightarrow> None
      | c # cs \<Rightarrow>
          if c = 0x22 then Some (token_buffer, cs)
          else if c = 0x5C then
            (case scan_escape cs of
               None \<Rightarrow> None
             | Some (bs, rest) \<Rightarrow> scan_string (token_buffer @ bs) rest)
          else if control_character c then None
          else if plain_character c then scan_string (token_buffer @ [c]) cs
          else case utf8_ranges c of
                 None \<Rightarrow> None
               | Some ranges \<Rightarrow>
                   (case next_byte_in_range ranges cs of
                      None \<Rightarrow> None
                    | Some (bs, rest) \<Rightarrow> scan_string (token_buffer @ c # bs) rest))"
  by pat_completeness auto
termination
  by (relation "measure (\<lambda>(buf, inp). length inp)")
    (auto dest: scan_escape_length next_byte_in_range_length)

declare scan_string.simps [simp del]

section \<open>Numbers\<close>

text \<open>One constructor per label of the state machine.\<close>

datatype num_state = Minus | Zero | Any1 | Decimal1 | Decimal2 | Exponent | Sign | Any2
datatype num_move = Goto num_state | Number_Done | Number_Error
datatype num_kind = Unsigned | Integer | Float

definition is_digit :: "byte \<Rightarrow> bool" where
  "is_digit c \<longleftrightarrow> 0x30 \<le> c \<and> c \<le> 0x39"

definition is_exponent :: "byte \<Rightarrow> bool" where
  "is_exponent c \<longleftrightarrow> c = 0x65 \<or> c = 0x45"

fun number_move :: "num_state \<Rightarrow> byte \<Rightarrow> num_move" where
  "number_move Minus c =
     (if c = 0x30 then Goto Zero else if is_digit c then Goto Any1 else Number_Error)"
| "number_move Zero c =
     (if c = 0x2E then Goto Decimal1 else if is_exponent c then Goto Exponent else Number_Done)"
| "number_move Any1 c =
     (if is_digit c then Goto Any1 else if c = 0x2E then Goto Decimal1
      else if is_exponent c then Goto Exponent else Number_Done)"
| "number_move Decimal1 c = (if is_digit c then Goto Decimal2 else Number_Error)"
| "number_move Decimal2 c =
     (if is_digit c then Goto Decimal2 else if is_exponent c then Goto Exponent else Number_Done)"
| "number_move Exponent c =
     (if c = 0x2B \<or> c = 0x2D then Goto Sign else if is_digit c then Goto Any2 else Number_Error)"
| "number_move Sign c = (if is_digit c then Goto Any2 else Number_Error)"
| "number_move Any2 c = (if is_digit c then Goto Any2 else Number_Done)"

text \<open>At the end of the input every state takes its default branch.\<close>

definition accepting :: "num_state \<Rightarrow> bool" where
  "accepting s \<longleftrightarrow> s \<in> {Zero, Any1, Decimal2, Any2}"

definition state_kind :: "num_state \<Rightarrow> num_kind \<Rightarrow> num_kind" where
  "state_kind s k =
     (if s = Minus then Integer else if s = Decimal1 \<or> s = Exponent then Float else k)"

fun scan_digits :: "num_state \<Rightarrow> num_kind \<Rightarrow> bytes \<Rightarrow> bytes \<Rightarrow> (num_kind \<times> bytes \<times> bytes) option" where
  "scan_digits s number_type token_buffer [] =
     (if accepting s then Some (state_kind s number_type, token_buffer, []) else None)"
| "scan_digits s number_type token_buffer (c # cs) =
     (case number_move s c of
        Goto s' \<Rightarrow> scan_digits s' (state_kind s number_type) (token_buffer @ [c]) cs
      | Number_Done \<Rightarrow> Some (state_kind s number_type, token_buffer, c # cs)
      | Number_Error \<Rightarrow> None)"

definition digits_value :: "bytes \<Rightarrow> nat" where
  "digits_value ds = foldl (\<lambda>v d. 10 * v + (unat d - 0x30)) 0 ds"

text \<open>\<open>strtoull\<close> and \<open>strtoll\<close> on the scanned literal, \<^const>\<open>None\<close> for \<open>ERANGE\<close>.\<close>

definition strtoull :: "bytes \<Rightarrow> u64 option" where
  "strtoull ds = (let v = digits_value ds in if v < 2 ^ 64 then Some (of_nat v) else None)"

definition strtoll :: "bytes \<Rightarrow> int option" where
  "strtoll ds =
     (case ds of
        c # cs \<Rightarrow> if c = 0x2D
          then let v = digits_value cs in if v \<le> 2 ^ 63 then Some (- int v) else None
          else let v = digits_value ds in if v < 2 ^ 63 then Some (int v) else None
      | [] \<Rightarrow> Some 0)"

definition number_token :: "'f float_ops \<Rightarrow> num_kind \<Rightarrow> bytes \<Rightarrow> 'f token_type" where
  "number_token fl number_type token_buffer =
     (case number_type of
        Unsigned \<Rightarrow> (case strtoull token_buffer of Some x \<Rightarrow> value_unsigned x
                     | None \<Rightarrow> value_float (strtod fl token_buffer))
      | Integer \<Rightarrow> (case strtoll token_buffer of Some x \<Rightarrow> value_integer x
                    | None \<Rightarrow> value_float (strtod fl token_buffer))
      | Float \<Rightarrow> value_float (strtod fl token_buffer))"

text \<open>\<open>current\<close> is the minus or the digit that made \<open>scan\<close> call it.\<close>

definition scan_number :: "'f float_ops \<Rightarrow> byte \<Rightarrow> bytes \<Rightarrow> 'f token_type \<times> bytes" where
  "scan_number fl c cs =
     (let s = (if c = 0x2D then Minus else if c = 0x30 then Zero else Any1)
      in case scan_digits s Unsigned [c] cs of
           None \<Rightarrow> (parse_error, [])
         | Some (number_type, token_buffer, rest) \<Rightarrow> (number_token fl number_type token_buffer, rest))"

section \<open>The scanner\<close>

definition scan_literal :: "bytes \<Rightarrow> 'f token_type \<Rightarrow> bytes \<Rightarrow> 'f token_type \<times> bytes" where
  "scan_literal text result inp =
     (if str_prefix text inp then (result, drop (length text) inp) else (parse_error, []))"

definition skip_bom :: "bytes \<Rightarrow> bytes option" where
  "skip_bom inp =
     (case inp of
        [] \<Rightarrow> Some []
      | c # cs \<Rightarrow> if c = 0xEF
          then (case cs of a # b # rest \<Rightarrow> if a = 0xBB \<and> b = 0xBF then Some rest else None | _ \<Rightarrow> None)
          else Some inp)"

definition is_space :: "byte \<Rightarrow> bool" where
  "is_space c \<longleftrightarrow> c = 0x20 \<or> c = 0x09 \<or> c = 0x0A \<or> c = 0x0D"

definition skip_whitespace :: "bytes \<Rightarrow> bytes" where
  "skip_whitespace inp = dropWhile is_space inp"

definition scan_token :: "'f float_ops \<Rightarrow> bytes \<Rightarrow> 'f token_type \<times> bytes" where
  "scan_token fl inp =
     (case skip_whitespace inp of
        [] \<Rightarrow> (end_of_input, [])
      | c # cs \<Rightarrow>
          if c = 0x5B then (begin_array, cs)
          else if c = 0x5D then (end_array, cs)
          else if c = 0x7B then (begin_object, cs)
          else if c = 0x7D then (end_object, cs)
          else if c = 0x3A then (name_separator, cs)
          else if c = 0x2C then (value_separator, cs)
          else if c = 0x74 then scan_literal (bytes_of ''rue'') literal_true cs
          else if c = 0x66 then scan_literal (bytes_of ''alse'') literal_false cs
          else if c = 0x6E then scan_literal (bytes_of ''ull'') literal_null cs
          else if c = 0x22 then
            (case scan_string [] cs of
               None \<Rightarrow> (parse_error, [])
             | Some (s, rest) \<Rightarrow> (value_string s, rest))
          else if c = 0x2D \<or> is_digit c then scan_number fl c cs
          else if c = 0 then (end_of_input, cs)
          else (parse_error, cs))"

text \<open>
  The byte order mark is looked for when no character has been read, which is the case in
  the first call only: every call reads a character that it does not give back.
\<close>

definition scan :: "'f float_ops \<Rightarrow> bool \<Rightarrow> bytes \<Rightarrow> 'f token_type \<times> bytes" where
  "scan fl first inp =
     (case (if first then skip_bom inp else Some inp) of
        None \<Rightarrow> (parse_error, [])
      | Some inp' \<Rightarrow> scan_token fl inp')"

section \<open>Every token shortens the input\<close>

lemma scan_string_length: "scan_string buf inp = Some (s, rest) \<Longrightarrow> length rest < length inp"
proof (induction buf inp rule: scan_string.induct)
  case (1 buf inp)
  show ?case
  proof (cases inp)
    case Nil
    with "1.prems" show ?thesis by (simp add: scan_string.simps)
  next
    case (Cons c cs)
    with "1.prems" "1.IH" [OF Cons] show ?thesis
      unfolding scan_string.simps [of buf inp]
      by (force dest: scan_escape_length next_byte_in_range_length split: if_splits option.splits)
  qed
qed

lemma scan_digits_length:
  "scan_digits s k buf inp = Some (k', buf', rest) \<Longrightarrow> length rest \<le> length inp"
  by (induction s k buf inp rule: scan_digits.induct) (auto split: if_splits num_move.splits)

lemma scan_number_length: "scan_number fl c cs = (t, rest) \<Longrightarrow> length rest \<le> length cs"
  by (auto simp: scan_number_def Let_def dest: scan_digits_length split: option.splits)

lemma scan_literal_length: "scan_literal text r cs = (t, rest) \<Longrightarrow> length rest \<le> length cs"
  by (auto simp: scan_literal_def split: if_splits)

lemma number_token_not_end [simp]: "number_token fl k buf \<noteq> end_of_input"
  by (auto simp: number_token_def split: num_kind.splits option.splits)

lemma scan_number_not_end [simp]: "scan_number fl c cs = (t, rest) \<Longrightarrow> t \<noteq> end_of_input"
  by (auto simp: scan_number_def Let_def split: option.splits)

theorem scan_token_progress:
  assumes "scan_token fl inp = (t, rest)"
  shows "length rest \<le> length inp" and "t \<noteq> end_of_input \<Longrightarrow> length rest < length inp"
proof -
  have drop: "length (dropWhile is_space inp) \<le> length inp"
    by (rule length_dropWhile_le)
  show "length rest \<le> length inp" and "t \<noteq> end_of_input \<Longrightarrow> length rest < length inp"
    using assms drop
    by (auto simp: scan_token_def skip_whitespace_def split: list.splits option.splits if_splits
        dest: scan_string_length scan_number_length scan_literal_length)
qed

end
