(* ===== verification/Json_Dump.thy ===== *)
theory Json_Dump
  imports Json_Lexer "HOL-Library.Monad_Syntax"
begin

text \<open>
  JSON values and their serialisation, \<open>class serializer\<close> of \<open>cxx_modules/json.hpp\<close>, as
  \<open>basic_json::dump()\<close> calls it without arguments: no pretty-printing, and the strict error handler,
  which throws on a string that is not UTF-8 (\<^const>\<open>None\<close>).  Binary values, which
  only the binary formats create, are left out.

  A string is escaped through a buffer of 512 bytes and an integer is printed backwards
  into one of 64 bytes; both are modelled as the arrays they are, and shown never to
  overflow and to hold the escaped string and the decimal digits.
\<close>

section \<open>Values\<close>

text \<open>The members of an object are in the order in which its map iterates over them.\<close>

datatype 'f json =
    json_null | json_boolean bool | json_integer int | json_unsigned u64 | json_float 'f
  | json_string bytes | json_array "'f json list" | json_object "(bytes \<times> 'f json) list"

section \<open>The UTF-8 automaton\<close>

definition utf8d_type :: "byte \<Rightarrow> nat" where
  "utf8d_type b =
     (if b \<le> 0x7F then 0 else if b \<le> 0x8F then 1 else if b \<le> 0x9F then 9
      else if b \<le> 0xBF then 7 else if b \<le> 0xC1 then 8 else if b \<le> 0xDF then 2
      else if b = 0xE0 then 10 else if b = 0xED then 4 else if b \<le> 0xEF then 3
      else if b = 0xF0 then 11 else if b \<le> 0xF3 then 6 else if b = 0xF4 then 5 else 8)"

definition utf8d_states :: "nat list list" where
  "utf8d_states =
    [[0, 1, 2, 3, 5, 8, 7, 1, 1, 1, 4, 6, 1, 1, 1, 1],
     [1, 1, 1, 1, 1, 1, 1, 1, 1, 1, 1, 1, 1, 1, 1, 1],
     [1, 0, 1, 1, 1, 1, 1, 0, 1, 0, 1, 1, 1, 1, 1, 1],
     [1, 2, 1, 1, 1, 1, 1, 2, 1, 2, 1, 1, 1, 1, 1, 1],
     [1, 1, 1, 1, 1, 1, 1, 2, 1, 1, 1, 1, 1, 1, 1, 1],
     [1, 2, 1, 1, 1, 1, 1, 1, 1, 2, 1, 1, 1, 1, 1, 1],
     [1, 1, 1, 1, 1, 1, 1, 3, 1, 3, 1, 1, 1, 1, 1, 1],
     [1, 3, 1, 1, 1, 1, 1, 3, 1, 3, 1, 1, 1, 1, 1, 1],
     [1, 3, 1, 1, 1, 1, 1, 1, 1, 1, 1, 1, 1, 1, 1, 1]]"

definition utf8_decode :: "nat \<Rightarrow> u32 \<Rightarrow> byte \<Rightarrow> nat \<times> u32" where
  "utf8_decode state codep b =
     (let type = utf8d_type b
      in (utf8d_states ! state ! type,
          if state \<noteq> 0 then (ucast b AND 0x3F) OR push_bit 6 codep
          else drop_bit type 0xFF AND ucast b))"

section \<open>Strings\<close>

definition hex_nibble :: "u32 \<Rightarrow> byte" where
  "hex_nibble v = (if v < 10 then 0x30 + ucast v else 0x57 + ucast v)"

definition unicode_escape :: "u32 \<Rightarrow> bytes" where
  "unicode_escape v =
     [0x5C, 0x75, hex_nibble (drop_bit 12 v AND 0xF), hex_nibble (drop_bit 8 v AND 0xF),
      hex_nibble (drop_bit 4 v AND 0xF), hex_nibble (v AND 0xF)]"

text \<open>What is written for a code point whose last byte is \<open>b\<close>.\<close>

definition escape_codepoint :: "bool \<Rightarrow> u32 \<Rightarrow> byte \<Rightarrow> bytes" where
  "escape_codepoint ensure_ascii codepoint b =
     (if codepoint = 0x08 then [0x5C, 0x62]
      else if codepoint = 0x09 then [0x5C, 0x74]
      else if codepoint = 0x0A then [0x5C, 0x6E]
      else if codepoint = 0x0C then [0x5C, 0x66]
      else if codepoint = 0x0D then [0x5C, 0x72]
      else if codepoint = 0x22 then [0x5C, 0x22]
      else if codepoint = 0x5C then [0x5C, 0x5C]
      else if codepoint \<le> 0x1F \<or> (ensure_ascii \<and> 0x7F \<le> codepoint)
      then if codepoint \<le> 0xFFFF then unicode_escape codepoint
           else unicode_escape (0xD7C0 + drop_bit 10 codepoint)
             @ unicode_escape (0xDC00 + (codepoint AND 0x3FF))
      else [b])"

record escaper =
  esc_state :: nat
  esc_codepoint :: u32
  string_buffer :: bytes
  written :: bytes

definition string_buffer_size :: nat where
  "string_buffer_size = 512"

definition escape_byte :: "bool \<Rightarrow> escaper \<Rightarrow> byte \<Rightarrow> escaper option" where
  "escape_byte ensure_ascii e b =
     (case utf8_decode (esc_state e) (esc_codepoint e) b of
        (state, codepoint) \<Rightarrow>
          let e1 = e\<lparr>esc_state := state, esc_codepoint := codepoint\<rparr>
          in if state = 0 then
               let buf = string_buffer e @ escape_codepoint ensure_ascii codepoint b
               in Some (if string_buffer_size - length buf < 13
                        then e1\<lparr>string_buffer := [], written := written e @ buf\<rparr>
                        else e1\<lparr>string_buffer := buf\<rparr>)
             else if state = 1 then None
             else Some (if ensure_ascii then e1
                        else e1\<lparr>string_buffer := string_buffer e @ [b]\<rparr>))"

fun escape_bytes :: "bool \<Rightarrow> escaper \<Rightarrow> bytes \<Rightarrow> escaper option" where
  "escape_bytes ensure_ascii e [] = Some e"
| "escape_bytes ensure_ascii e (b # bs) =
     do { e' \<leftarrow> escape_byte ensure_ascii e b; escape_bytes ensure_ascii e' bs }"

definition dump_escaped :: "bool \<Rightarrow> bytes \<Rightarrow> bytes option" where
  "dump_escaped ensure_ascii s =
     do { e \<leftarrow> escape_bytes ensure_ascii \<lparr>esc_state = 0, esc_codepoint = 0, string_buffer = [], written = []\<rparr> s;
          if esc_state e = 0 then Some (written e @ string_buffer e) else None }"

section \<open>Integers\<close>

function count_digits :: "nat \<Rightarrow> nat \<Rightarrow> nat" where
  "count_digits n_digits x =
     (if x < 10 then n_digits
      else if x < 100 then n_digits + 1
      else if x < 1000 then n_digits + 2
      else if x < 10000 then n_digits + 3
      else count_digits (n_digits + 4) (x div 10000))"
  by pat_completeness auto
termination
  by (relation "measure snd") auto

declare count_digits.simps [simp del]

definition digit_char :: "nat \<Rightarrow> byte" where
  "digit_char d = of_nat (0x30 + d)"

text \<open>\<open>digits_to_99[i]\<close> is the pair of the digits of \<open>i\<close>.\<close>

function fill_digits :: "nat \<Rightarrow> nat \<Rightarrow> bytes \<Rightarrow> bytes" where
  "fill_digits abs_value ptr buf =
     (if 100 \<le> abs_value
      then let i = abs_value mod 100
           in fill_digits (abs_value div 100) (ptr - 2)
                (buf[ptr - 1 := digit_char (i mod 10), ptr - 2 := digit_char (i div 10)])
      else if 10 \<le> abs_value
      then buf[ptr - 1 := digit_char (abs_value mod 10), ptr - 2 := digit_char (abs_value div 10)]
      else buf[ptr - 1 := digit_char abs_value])"
  by pat_completeness auto
termination
  by (relation "measure fst") auto

declare fill_digits.simps [simp del]

definition number_buffer :: bytes where
  "number_buffer = replicate 64 0"

definition dump_integer :: "int \<Rightarrow> bytes" where
  "dump_integer x =
     (if x = 0 then [0x30]
      else if x < 0
      then let abs_value = nat (- (x + 1)) + 1; n_chars = 1 + count_digits 1 abs_value
           in take n_chars (fill_digits abs_value n_chars (number_buffer[0 := 0x2D]))
      else let abs_value = nat x; n_chars = count_digits 1 abs_value
           in take n_chars (fill_digits abs_value n_chars number_buffer))"

section \<open>Values\<close>

fun dump :: "'f float_ops \<Rightarrow> bool \<Rightarrow> 'f json \<Rightarrow> bytes option"
  and dump_array :: "'f float_ops \<Rightarrow> bool \<Rightarrow> 'f json list \<Rightarrow> bytes option"
  and dump_object :: "'f float_ops \<Rightarrow> bool \<Rightarrow> (bytes \<times> 'f json) list \<Rightarrow> bytes option" where
  "dump fl ascii (json_object ms) =
     (if ms = [] then Some (bytes_of ''{}'')
      else do { body \<leftarrow> dump_object fl ascii ms; Some (0x7B # body @ [0x7D]) })"
| "dump fl ascii (json_array vs) =
     (if vs = [] then Some (bytes_of ''[]'')
      else do { body \<leftarrow> dump_array fl ascii vs; Some (0x5B # body @ [0x5D]) })"
| "dump fl ascii (json_string s) = do { t \<leftarrow> dump_escaped ascii s; Some (0x22 # t @ [0x22]) }"
| "dump fl ascii (json_boolean b) = Some (if b then bytes_of ''true'' else bytes_of ''false'')"
| "dump fl ascii (json_integer x) = Some (dump_integer x)"
| "dump fl ascii (json_unsigned x) = Some (dump_integer (uint x))"
| "dump fl ascii (json_float x) =
     Some (if isfinite fl x then float_chars fl x else bytes_of ''null'')"
| "dump fl ascii json_null = Some (bytes_of ''null'')"
| "dump_array fl ascii [] = Some []"
| "dump_array fl ascii (v # vs) =
     (if vs = [] then dump fl ascii v
      else do { t \<leftarrow> dump fl ascii v; ts \<leftarrow> dump_array fl ascii vs; Some (t @ 0x2C # ts) })"
| "dump_object fl ascii [] = Some []"
| "dump_object fl ascii (m # ms) =
     do { k \<leftarrow> dump_escaped ascii (fst m); t \<leftarrow> dump fl ascii (snd m);
          if ms = [] then Some (0x22 # k @ 0x22 # 0x3A # t)
          else do { ts \<leftarrow> dump_object fl ascii ms; Some (0x22 # k @ 0x22 # 0x3A # t @ 0x2C # ts) } }"

section \<open>What the automaton accepts\<close>

text \<open>The ranges of the bytes a state of the automaton waits for.\<close>

definition pending :: "nat \<Rightarrow> (byte \<times> byte) list" where
  "pending state =
     [[], [], [(0x80, 0xBF)], [(0x80, 0xBF), (0x80, 0xBF)], [(0xA0, 0xBF), (0x80, 0xBF)],
      [(0x80, 0x9F), (0x80, 0xBF)], [(0x90, 0xBF), (0x80, 0xBF), (0x80, 0xBF)],
      [(0x80, 0xBF), (0x80, 0xBF), (0x80, 0xBF)], [(0x80, 0x8F), (0x80, 0xBF), (0x80, 0xBF)]] ! state"

lemmas byte_order = word_le_nat_alt word_unat_eq_iff

lemma utf8d_type_unat: "utf8d_type b = (let n = unat b in
     if n \<le> 0x7F then 0 else if n \<le> 0x8F then 1 else if n \<le> 0x9F then 9
      else if n \<le> 0xBF then 7 else if n \<le> 0xC1 then 8 else if n \<le> 0xDF then 2
      else if n = 0xE0 then 10 else if n = 0xED then 4 else if n \<le> 0xEF then 3
      else if n = 0xF0 then 11 else if n \<le> 0xF3 then 6 else if n = 0xF4 then 5 else 8)"
  unfolding utf8d_type_def byte_order Let_def by (simp cong: if_cong split del: if_split)

lemma utf8d_type_cases:
  obtains "utf8d_type b = 0" "unat b \<le> 0x7F"
  | "utf8d_type b = 1" "0x80 \<le> unat b" "unat b \<le> 0x8F"
  | "utf8d_type b = 9" "0x90 \<le> unat b" "unat b \<le> 0x9F"
  | "utf8d_type b = 7" "0xA0 \<le> unat b" "unat b \<le> 0xBF"
  | "utf8d_type b = 8" "0xC0 \<le> unat b" "unat b \<le> 0xC1"
  | "utf8d_type b = 2" "0xC2 \<le> unat b" "unat b \<le> 0xDF"
  | "utf8d_type b = 10" "unat b = 0xE0"
  | "utf8d_type b = 3" "0xE1 \<le> unat b" "unat b \<le> 0xEF" "unat b \<noteq> 0xED"
  | "utf8d_type b = 4" "unat b = 0xED"
  | "utf8d_type b = 11" "unat b = 0xF0"
  | "utf8d_type b = 6" "0xF1 \<le> unat b" "unat b \<le> 0xF3"
  | "utf8d_type b = 5" "unat b = 0xF4"
  | "utf8d_type b = 8" "0xF5 \<le> unat b"
proof -
  define n where "n = unat b"
  have type: "utf8d_type b = (if n \<le> 0x7F then 0 else if n \<le> 0x8F then 1 else if n \<le> 0x9F then 9
      else if n \<le> 0xBF then 7 else if n \<le> 0xC1 then 8 else if n \<le> 0xDF then 2
      else if n = 0xE0 then 10 else if n = 0xED then 4 else if n \<le> 0xEF then 3
      else if n = 0xF0 then 11 else if n \<le> 0xF3 then 6 else if n = 0xF4 then 5 else 8)"
    by (simp only: utf8d_type_unat Let_def n_def)
  consider "n \<le> 0x7F" | "0x80 \<le> n \<and> n \<le> 0x8F" | "0x90 \<le> n \<and> n \<le> 0x9F" | "0xA0 \<le> n \<and> n \<le> 0xBF"
    | "0xC0 \<le> n \<and> n \<le> 0xC1" | "0xC2 \<le> n \<and> n \<le> 0xDF" | "n = 0xE0"
    | "0xE1 \<le> n \<and> n \<le> 0xEF \<and> n \<noteq> 0xED" | "n = 0xED" | "n = 0xF0" | "0xF1 \<le> n \<and> n \<le> 0xF3"
    | "n = 0xF4" | "0xF5 \<le> n"
    by linarith
  then show ?thesis
    by cases (use that type in \<open>simp_all add: n_def\<close>)
qed


lemma mod_offset:
  fixes n :: nat
  assumes "d * k \<le> n" and "n < d * k + d"
  shows "n mod d = n - d * k"
proof -
  obtain r where "n = d * k + r"
    using assms(1) le_Suc_ex by blast
  with assms(2) show ?thesis
    by simp
qed

lemma unat_byte_mod: "unat (b :: byte) mod 4294967296 = unat b"
  by (rule mod_less) (rule less_trans [OF unat_byte_less], simp)

lemma continuation_value:
  assumes "unat (cp :: u32) < 2 ^ 26"
  shows "unat ((ucast (b :: byte) AND 0x3F) OR push_bit 6 cp) = unat b mod 64 + 64 * unat cp"
proof -
  have "(ucast b AND 0x3F :: u32) = take_bit 6 (ucast b)"
    by (simp add: take_bit_eq_mask mask_eq_exp_minus_1)
  then have "(ucast b AND 0x3F) OR push_bit 6 cp = take_bit 6 (ucast b) + push_bit 6 cp"
    by (simp only:) (rule disjunctive_add [symmetric], auto simp: bit_simps)
  moreover have "unat (take_bit 6 (ucast b :: u32)) = unat b mod 64"
    by (simp only: unsigned_take_bit_eq) (simp add: take_bit_eq_mod unsigned_ucast_eq unat_byte_mod)
  moreover have "unat (push_bit 6 cp) = 64 * unat cp"
    using assms by (simp only: unsigned_push_bit_eq) (simp add: push_bit_eq_mult take_bit_eq_mod)
  moreover have "unat b mod 64 + 64 * unat cp < 2 ^ 32"
    using assms pos_mod_bound [of 64 "int (unat b)"] by simp
  ultimately show ?thesis
    using assms by (simp add: unat_plus_if_size word_size)
qed


definition codepoint_ok :: "nat \<Rightarrow> u32 \<Rightarrow> bool" where
  "codepoint_ok s cp = (let n = unat cp in
     [True, True, 2 \<le> n \<and> n < 2 ^ 18, 1 \<le> n \<and> n < 2 ^ 12, n < 64, 1 \<le> n \<and> n < 64, n < 64,
      1 \<le> n \<and> n < 64, 1 \<le> n \<and> n < 64] ! s)"

lemma decode_continues:
  assumes "2 \<le> s" and "s \<le> 8" and "codepoint_ok s cp" and "utf8_decode s cp b = (s', cp')"
  shows "(fst (hd (pending s)) \<le> b \<and> b \<le> snd (hd (pending s)) \<longrightarrow>
      s' \<le> 8 \<and> s' \<noteq> 1 \<and> pending s' = tl (pending s) \<and>
      (if s' = 0 then 0x80 \<le> unat cp' else codepoint_ok s' cp')) \<and>
    (\<not> (fst (hd (pending s)) \<le> b \<and> b \<le> snd (hd (pending s))) \<longrightarrow> s' = 1)"
proof -
  have s: "s = 2 \<or> s = 3 \<or> s = 4 \<or> s = 5 \<or> s = 6 \<or> s = 7 \<or> s = 8"
    using assms(1,2) by arith
  then have small: "unat cp < 2 ^ 26"
    using assms(3) by (elim disjE) (simp_all add: codepoint_ok_def Let_def)
  define m where "m = unat b mod 64"
  have cp': "unat cp' = m + 64 * unat cp" and s': "s' = utf8d_states ! s ! utf8d_type b"
    using assms(1,4) continuation_value [OF small, of b] by (auto simp: utf8_decode_def Let_def m_def)
  have m: "m < 64" "128 \<le> unat b \<Longrightarrow> unat b \<le> 191 \<Longrightarrow> m + 128 = unat b"
    using mod_offset [of 64 2 "unat b"] by (simp_all add: m_def)
  show ?thesis
    using s assms(3) s' cp' m
    by - (elim disjE; rule utf8d_type_cases [of b];
      simp add: utf8d_states_def pending_def byte_order codepoint_ok_def Let_def)
qed

lemma start_value:
  "type \<le> 8 \<Longrightarrow> unat (drop_bit type 0xFF AND ucast (b :: byte) :: u32) = unat b mod 2 ^ (8 - type)"
  "8 \<le> type \<Longrightarrow> (drop_bit type 0xFF AND ucast (b :: byte) :: u32) = 0"
proof -
  have mask: "(0xFF :: u32) = mask 8"
    by (simp add: mask_eq_exp_minus_1)
  show "type \<le> 8 \<Longrightarrow> unat (drop_bit type 0xFF AND ucast (b :: byte) :: u32) = unat b mod 2 ^ (8 - type)"
    unfolding mask
  proof -
    assume "type \<le> 8"
    then have "drop_bit type (mask 8) AND (ucast b :: u32) = take_bit (8 - type) (ucast b)"
      by (auto intro!: bit_word_eqI simp: bit_simps)
    then show "unat (drop_bit type (mask 8) AND (ucast b :: u32)) = unat b mod 2 ^ (8 - type)"
      by (simp only: unsigned_take_bit_eq)
        (simp add: take_bit_eq_mod unsigned_ucast_eq unat_byte_mod)
  qed
  show "8 \<le> type \<Longrightarrow> (drop_bit type 0xFF AND ucast b :: u32) = 0"
    unfolding mask by (auto intro!: bit_word_eqI simp: bit_simps)
qed

lemma decode_starts:
  assumes "utf8_decode 0 cp b = (s', cp')"
  shows "if b \<le> 0x7F then s' = 0 \<and> cp' = ucast b
    else case utf8_ranges b of None \<Rightarrow> s' = 1
      | Some rs \<Rightarrow> 2 \<le> s' \<and> s' \<le> 8 \<and> pending s' = rs \<and> codepoint_ok s' cp'"
proof -
  have s': "s' = utf8d_states ! 0 ! utf8d_type b"
    and cp': "cp' = drop_bit (utf8d_type b) 0xFF AND ucast b"
    using assms by (auto simp: utf8_decode_def Let_def)
  have same: "unat cp' = unat b \<Longrightarrow> cp' = ucast b"
    by (simp add: word_unat_eq_iff unsigned_ucast_eq take_bit_eq_mod unat_byte_mod)
  note mods = mod_offset [of 64 3] mod_offset [of 32 7] mod_offset [of 4 60]
  show ?thesis
    by (rule utf8d_type_cases [of b]; use s' cp' same start_value [of "utf8d_type b" b] in
      \<open>simp add: utf8d_states_def pending_def byte_order codepoint_ok_def Let_def utf8_ranges_def mods; arith\<close>)
qed


text \<open>
  What the lexer accepts, byte by byte: the string is UTF-8 from a place where bytes in the given ranges
  must come first.
\<close>

fun utf8_step :: "(byte \<times> byte) list \<Rightarrow> byte \<Rightarrow> (byte \<times> byte) list option" where
  "utf8_step [] c = (if c \<le> 0x7F then Some [] else utf8_ranges c)"
| "utf8_step (r # rs) c = (if fst r \<le> c \<and> c \<le> snd r then Some rs else None)"

fun utf8_from :: "(byte \<times> byte) list \<Rightarrow> bytes \<Rightarrow> bool" where
  "utf8_from rs [] \<longleftrightarrow> rs = []"
| "utf8_from rs (c # cs) \<longleftrightarrow> (case utf8_step rs c of None \<Rightarrow> False | Some rs' \<Rightarrow> utf8_from rs' cs)"

definition utf8 :: "bytes \<Rightarrow> bool" where
  "utf8 s \<longleftrightarrow> utf8_from [] s"

text \<open>What stands for a byte in the escaped string.\<close>

definition escaped :: "byte \<Rightarrow> bytes" where
  "escaped b = (if b \<le> 0x7F then escape_codepoint False (ucast b) b else [b])"

definition esc_ok :: "escaper \<Rightarrow> bool" where
  "esc_ok e \<longleftrightarrow> esc_state e = 0 \<or> (2 \<le> esc_state e \<and> esc_state e \<le> 8 \<and>
     codepoint_ok (esc_state e) (esc_codepoint e))"

lemma escape_multibyte: "0x80 \<le> unat cp \<Longrightarrow> escape_codepoint False cp b = [b]"
  by (auto simp: escape_codepoint_def word_le_nat_alt)

lemma pending_0: "pending 0 = []"
  by (simp add: pending_def)

lemma pending_ge: "2 \<le> s \<Longrightarrow> s \<le> 8 \<Longrightarrow> pending s = hd (pending s) # tl (pending s) \<and>
    0x80 \<le> fst (hd (pending s)) \<and> length (pending s) \<le> 3"
proof -
  assume "2 \<le> s" "s \<le> 8"
  then have "s = 2 \<or> s = 3 \<or> s = 4 \<or> s = 5 \<or> s = 6 \<or> s = 7 \<or> s = 8"
    by arith
  then show ?thesis
    by (elim disjE) (simp_all add: pending_def)
qed

lemma utf8_step_pending:
  assumes "esc_ok e" and "utf8_decode (esc_state e) (esc_codepoint e) b = (s', cp')"
  shows "case utf8_step (pending (esc_state e)) b of
      None \<Rightarrow> s' = 1
    | Some rs \<Rightarrow> s' \<noteq> 1 \<and> s' \<le> 8 \<and> pending s' = rs \<and> (s' \<noteq> 0 \<longrightarrow> 2 \<le> s' \<and> 0x80 \<le> b \<and> codepoint_ok s' cp') \<and>
        (s' = 0 \<longrightarrow> escape_codepoint False cp' b = escaped b)"
proof (cases "esc_state e = 0")
  case True
  with decode_starts [of "esc_codepoint e" b s' cp'] assms(2) show ?thesis
    by (auto simp: pending_0 escaped_def byte_order split: if_splits option.splits)
next
  case False
  with assms(1) have s: "2 \<le> esc_state e" "esc_state e \<le> 8" "codepoint_ok (esc_state e) (esc_codepoint e)"
    by (auto simp: esc_ok_def)
  obtain r rs where p: "pending (esc_state e) = r # rs" "0x80 \<le> fst r"
    using pending_ge [OF s(1,2)] by (metis list.sel(1))
  from decode_continues [OF s assms(2)] p show ?thesis
    by (auto simp: escaped_def escape_multibyte byte_order split: if_splits)
qed


lemma escape_byte_step:
  assumes "esc_ok e"
  shows "case utf8_step (pending (esc_state e)) b of
      None \<Rightarrow> escape_byte False e b = None
    | Some rs \<Rightarrow> (\<exists>e'. escape_byte False e b = Some e' \<and> esc_ok e' \<and> pending (esc_state e') = rs \<and>
        written e' @ string_buffer e' = written e @ string_buffer e @ escaped b)"
proof -
  obtain s' cp' where d: "utf8_decode (esc_state e) (esc_codepoint e) b = (s', cp')"
    by (cases "utf8_decode (esc_state e) (esc_codepoint e) b")
  show ?thesis
  proof (cases "utf8_step (pending (esc_state e)) b")
    case None
    with utf8_step_pending [OF assms d] d show ?thesis
      by (simp add: escape_byte_def)
  next
    case (Some rs)
    with utf8_step_pending [OF assms d] have s': "s' \<noteq> 1" "s' \<le> 8" "pending s' = rs"
      "s' \<noteq> 0 \<longrightarrow> 2 \<le> s' \<and> 0x80 \<le> b \<and> codepoint_ok s' cp'" "s' = 0 \<longrightarrow> escape_codepoint False cp' b = escaped b"
      by simp_all
    then have "s' \<noteq> 0 \<longrightarrow> escaped b = [b]"
      by (auto simp: escaped_def byte_order)
    with s' d Some show ?thesis
      by (auto simp: escape_byte_def esc_ok_def Let_def)
  qed
qed

lemma escape_bytes_utf8:
  assumes "esc_ok e"
  shows "if utf8_from (pending (esc_state e)) s
    then \<exists>e'. escape_bytes False e s = Some e' \<and> esc_state e' = 0 \<and>
      written e' @ string_buffer e' = written e @ string_buffer e @ concat (map escaped s)
    else case escape_bytes False e s of None \<Rightarrow> True | Some e' \<Rightarrow> esc_state e' \<noteq> 0"
  using assms
proof (induction s arbitrary: e)
  case Nil
  then show ?case
    using pending_ge [of "esc_state e"] by (auto simp: esc_ok_def pending_0)
next
  case (Cons b s)
  show ?case
  proof (cases "utf8_step (pending (esc_state e)) b")
    case None
    with escape_byte_step [OF Cons.prems, of b] show ?thesis by simp
  next
    case (Some rs)
    with escape_byte_step [OF Cons.prems, of b] obtain e' where e': "escape_byte False e b = Some e'"
      "esc_ok e'" "pending (esc_state e') = rs"
      "written e' @ string_buffer e' = written e @ string_buffer e @ escaped b"
      by auto
    have eq: "written e @ string_buffer e @ escaped b @ t = written e' @ string_buffer e' @ t" for t
      using e'(4) by (metis append_assoc)
    from Cons.IH [OF e'(2)] show ?thesis
      unfolding e'(3) by (simp add: Some e'(1) eq split: if_splits)
  qed
qed

lemma dump_escaped_eq:
  "dump_escaped False s = (if utf8 s then Some (concat (map escaped s)) else None)"
proof -
  let ?e = "\<lparr>esc_state = 0, esc_codepoint = 0, string_buffer = [], written = []\<rparr> :: escaper"
  have "esc_ok ?e"
    by (simp add: esc_ok_def)
  from escape_bytes_utf8 [OF this, of s] show ?thesis
    by (auto simp: dump_escaped_def pending_0 utf8_def split: if_splits option.splits)
qed

lemma escape_codepoint_length: "length (escape_codepoint ascii cp b) \<le> 12"
  by (simp add: escape_codepoint_def unicode_escape_def)

definition esc_fits :: "bool \<Rightarrow> escaper \<Rightarrow> bool" where
  "esc_fits ascii e \<longleftrightarrow> esc_ok e \<and> length (string_buffer e) +
     (if ascii \<or> esc_state e = 0 then 0 else length (pending (esc_state e))) \<le>
     (if ascii \<or> esc_state e = 0 then 499 else 503)"

lemma escape_byte_room:
  assumes "esc_fits ascii e" and "utf8_decode (esc_state e) (esc_codepoint e) b = (0, cp')"
  shows "length (string_buffer e @ escape_codepoint ascii cp' b) < string_buffer_size"
proof (cases "ascii \<or> esc_state e = 0")
  case True
  with assms(1) show ?thesis
    using escape_codepoint_length [of ascii cp' b] by (auto simp: esc_fits_def string_buffer_size_def)
next
  case False
  with assms(1) have ok: "esc_ok e" and s: "2 \<le> esc_state e" "esc_state e \<le> 8" "codepoint_ok (esc_state e) (esc_codepoint e)"
    and len: "length (string_buffer e) \<le> 503"
    by (auto simp: esc_fits_def esc_ok_def)
  have "0x80 \<le> unat cp'"
    using decode_continues [OF s assms(2)] by (auto split: if_splits)
  then show ?thesis
    using False len by (simp add: escape_multibyte string_buffer_size_def)
qed

lemma escape_byte_fits:
  assumes "esc_fits ascii e" and "escape_byte ascii e b = Some e'"
  shows "esc_fits ascii e'"
proof -
  obtain s' cp' where d: "utf8_decode (esc_state e) (esc_codepoint e) b = (s', cp')"
    by (cases "utf8_decode (esc_state e) (esc_codepoint e) b")
  have ok: "esc_ok e"
    using assms(1) by (simp add: esc_fits_def)
  from utf8_step_pending [OF ok d] assms(2) d obtain rs where rs: "utf8_step (pending (esc_state e)) b = Some rs"
    and s': "s' \<noteq> 1" "s' \<le> 8" "pending s' = rs" "s' \<noteq> 0 \<longrightarrow> 2 \<le> s' \<and> codepoint_ok s' cp'"
    by (auto simp: escape_byte_def Let_def split: option.splits if_splits)
  have ok': "esc_ok e'"
    using assms(2) d s' by (auto simp: escape_byte_def esc_ok_def Let_def split: if_splits)
  show ?thesis
  proof (cases "s' = 0")
    case True
    with assms(2) d ok' show ?thesis
      by (auto simp: escape_byte_def esc_fits_def string_buffer_size_def Let_def split: if_splits)
  next
    case False
    have "length rs \<le> 3"
      using pending_ge [of s'] s' False by auto
    moreover have "esc_state e \<noteq> 0 \<Longrightarrow> length (pending (esc_state e)) = Suc (length rs)"
      using pending_ge [of "esc_state e"] ok rs by (cases "pending (esc_state e)") (auto simp: esc_ok_def split: if_splits)
    ultimately show ?thesis
      using assms d s' ok' False
      by (auto simp: escape_byte_def esc_fits_def Let_def pending_0 split: if_splits)
  qed
qed


lemma escape_bytes_fits:
  "escape_bytes ascii e s = Some e' \<Longrightarrow> esc_fits ascii e \<Longrightarrow> esc_fits ascii e'"
  by (induction ascii e s rule: escape_bytes.induct)
    (auto dest: escape_byte_fits split: Option.bind_splits)

section \<open>The escaped string scans back\<close>

lemma unat_ucast_byte: "unat (ucast (b :: byte) :: u32) = unat b"
  by (simp add: unsigned_ucast_eq take_bit_eq_mod unat_byte_mod)

lemma hex_digit_nibble: "unat v < 16 \<Longrightarrow> hex_digit (hex_nibble v) = Some (unat v)"
proof -
  assume v: "unat v < 16"
  have "unat (ucast v :: byte) = unat v"
    using v by (simp add: unsigned_ucast_eq take_bit_eq_mod)
  then have "unat (hex_nibble v) = (if unat v < 10 then 0x30 + unat v else 0x57 + unat v)"
    using v by (simp add: hex_nibble_def word_less_nat_alt unat_plus_if_size word_size)
  then show ?thesis
    using v by (simp add: hex_digit_def byte_order)
qed


lemma unat_nibble: "unat (drop_bit k v AND 0xF :: u32) = unat v div 2 ^ k mod 16"
proof -
  have "drop_bit k v AND 0xF = take_bit 4 (drop_bit k v)"
    by (simp add: take_bit_eq_mask mask_eq_exp_minus_1)
  moreover have "unat v < 4294967296"
    using unsigned_less [of v] by simp
  ultimately show ?thesis
    by (simp only: unsigned_take_bit_eq unsigned_drop_bit_eq) (simp add: take_bit_eq_mod drop_bit_eq_div)
qed

lemma scan_unicode_control:
  assumes "unat (b :: byte) \<le> 0x1F"
  shows "scan_unicode (drop 2 (unicode_escape (ucast b)) @ rest) = Some ([b], rest)"
proof -
  let ?v = "ucast b :: u32"
  have "get_codepoint (drop 2 (unicode_escape ?v) @ rest) = Some (unat b, rest)"
    using assms unat_nibble [of 0 ?v]
    by (simp add: get_codepoint_def unicode_escape_def hex_digit_nibble unat_nibble unat_ucast_byte
      div_less push_bit_eq_mult)
  then show ?thesis
    using assms by (simp add: scan_unicode_def utf8_encode_def)
qed

lemma scan_escaped_ascii:
  assumes "b \<le> 0x7F"
  shows "scan_string buf (escaped b @ rest) = scan_string (buf @ [b]) rest"
proof -
  have eq: "(ucast b :: u32) = 0x08 \<longleftrightarrow> b = 0x08" "(ucast b :: u32) = 0x09 \<longleftrightarrow> b = 0x09"
    "(ucast b :: u32) = 0x0A \<longleftrightarrow> b = 0x0A" "(ucast b :: u32) = 0x0C \<longleftrightarrow> b = 0x0C"
    "(ucast b :: u32) = 0x0D \<longleftrightarrow> b = 0x0D" "(ucast b :: u32) = 0x22 \<longleftrightarrow> b = 0x22"
    "(ucast b :: u32) = 0x5C \<longleftrightarrow> b = 0x5C"
    by (simp_all add: word_unat_eq_iff unat_ucast_byte)
  have le: "(ucast b :: u32) \<le> 0x1F \<longleftrightarrow> b \<le> 0x1F"
    by (simp add: byte_order unat_ucast_byte)
  consider (short) "b \<in> {0x08, 0x09, 0x0A, 0x0C, 0x0D, 0x22, 0x5C}"
    | (control) "b \<notin> {0x08, 0x09, 0x0A, 0x0C, 0x0D, 0x22, 0x5C}" "b \<le> 0x1F"
    | (plain) "b \<notin> {0x08, 0x09, 0x0A, 0x0C, 0x0D, 0x22, 0x5C}" "\<not> b \<le> 0x1F"
    by blast
  then show ?thesis
  proof cases
    case short
    then show ?thesis
      by (elim insertE) (simp_all add: escaped_def escape_codepoint_def scan_string.simps [of buf] scan_escape_def)
  next
    case control
    then have "escaped b = 0x5C # 0x75 # drop 2 (unicode_escape (ucast b))"
      using assms by (simp add: escaped_def escape_codepoint_def eq le unicode_escape_def byte_order unat_ucast_byte)
    moreover have "scan_unicode (drop 2 (unicode_escape (ucast b)) @ rest) = Some ([b], rest)"
      using control by (intro scan_unicode_control) (simp add: byte_order)
    ultimately show ?thesis
      by (simp add: scan_string.simps [of buf] scan_escape_def)
  next
    case plain
    then have "escaped b = [b]"
      using assms by (simp add: escaped_def escape_codepoint_def eq le)
    then show ?thesis
      using plain assms
      by (simp add: scan_string.simps [of buf] control_character_def plain_character_def byte_order)
  qed
qed


lemma if_in: "x \<in> S \<Longrightarrow> y \<in> S \<Longrightarrow> (if b then x else y) \<in> S"
  by simp

lemma utf8_ranges_values:
  "utf8_ranges c \<in> {None, Some [(0x80, 0xBF)], Some [(0xA0, 0xBF), (0x80, 0xBF)],
     Some [(0x80, 0xBF), (0x80, 0xBF)], Some [(0x80, 0x9F), (0x80, 0xBF)],
     Some [(0x90, 0xBF), (0x80, 0xBF), (0x80, 0xBF)], Some [(0x80, 0xBF), (0x80, 0xBF), (0x80, 0xBF)],
     Some [(0x80, 0x8F), (0x80, 0xBF), (0x80, 0xBF)]}"
  unfolding utf8_ranges_def by (intro if_in; simp)

lemma utf8_ranges_high: "utf8_ranges c = Some rs \<Longrightarrow> list_all (\<lambda>r. 0x80 \<le> fst r) rs"
  using utf8_ranges_values [of c] by (elim insertE; force)

lemma escaped_high: "0x80 \<le> b \<Longrightarrow> escaped b = [b]"
  by (simp add: escaped_def byte_order)

lemma next_byte_escaped:
  assumes "utf8_from rs s" and "list_all (\<lambda>r. 0x80 \<le> fst r) rs"
  shows "next_byte_in_range rs (concat (map escaped s) @ t) =
      Some (take (length rs) s, concat (map escaped (drop (length rs) s)) @ t) \<and>
    utf8_from [] (drop (length rs) s)"
  using assms
proof (induction rs arbitrary: s)
  case Nil
  then show ?case by simp
next
  case (Cons r rs)
  then obtain c cs where s: "s = c # cs" "fst r \<le> c" "c \<le> snd r" "utf8_from rs cs"
    by (cases s) (auto split: if_splits)
  with Cons.prems have "escaped c = [c]"
    by (intro escaped_high) (auto intro: order_trans)
  with s Cons.IH [OF s(4)] Cons.prems show ?case
    by simp
qed

lemma scan_string_escaped:
  "utf8_from [] s \<Longrightarrow> scan_string buf (concat (map escaped s) @ 0x22 # rest) = Some (buf @ s, rest)"
proof (induction "length s" arbitrary: s buf rule: less_induct)
  case less
  show ?case
  proof (cases s)
    case Nil
    then show ?thesis by (simp add: scan_string.simps [of buf])
  next
    case (Cons c cs)
    show ?thesis
    proof (cases "c \<le> 0x7F")
      case True
      then show ?thesis
        using less.hyps [of cs "buf @ [c]"] less.prems Cons by (simp add: scan_escaped_ascii)
    next
      case False
      with less.prems Cons obtain rs where rs: "utf8_ranges c = Some rs" "utf8_from rs cs"
        by (auto split: option.splits)
      note next_byte = next_byte_escaped [OF rs(2) utf8_ranges_high [OF rs(1)], of "0x22 # rest"]
      have "escaped c = [c]" "c \<noteq> 0x22" "c \<noteq> 0x5C" "\<not> control_character c" "\<not> plain_character c"
        using False by (auto simp: escaped_def control_character_def plain_character_def byte_order)
      then have "scan_string buf (concat (map escaped s) @ 0x22 # rest) =
          scan_string (buf @ c # take (length rs) cs) (concat (map escaped (drop (length rs) cs)) @ 0x22 # rest)"
        using next_byte rs(1) by (simp add: Cons scan_string.simps [of buf])
      also have "\<dots> = Some (buf @ s, rest)"
        using less.hyps [of "drop (length rs) cs" "buf @ c # take (length rs) cs"] next_byte
        by (simp add: Cons)
      finally show ?thesis .
    qed
  qed
qed

section \<open>Integers\<close>

function dec_digits :: "nat \<Rightarrow> bytes" where
  "dec_digits v = (if v < 10 then [digit_char v] else dec_digits (v div 10) @ [digit_char (v mod 10)])"
  by pat_completeness auto
termination
  by (relation "measure id") auto

declare dec_digits.simps [simp del]

lemma dec_digits_pair:
  "100 \<le> v \<Longrightarrow> dec_digits v = dec_digits (v div 100) @ [digit_char (v mod 100 div 10), digit_char (v mod 100 mod 10)]"
  by (subst dec_digits.simps, subst dec_digits.simps)
    (simp add: div_mult2_eq [symmetric, of v 10 10, simplified] mod_mult2_eq [of v 10 10, simplified] div_less_iff_less_mult)

lemma dec_digits_ne [simp]: "dec_digits v \<noteq> []"
  by (subst dec_digits.simps) simp

lemma length_dec_digits: "length (dec_digits v) = (if v < 10 then 1 else Suc (length (dec_digits (v div 10))))"
  by (subst dec_digits.simps) simp

lemma count_digits_eq: "count_digits n v + 1 = n + length (dec_digits v)"
proof (induction n v rule: count_digits.induct)
  case (1 n v)
  have four: "length (dec_digits v) = 4 + length (dec_digits (v div 10000))" if "10000 \<le> v"
    using that
    by (subst length_dec_digits, subst length_dec_digits, subst length_dec_digits, subst length_dec_digits)
      (simp add: div_mult2_eq [symmetric] div_less_iff_less_mult)
  show ?case
  proof (cases "v < 10000")
    case True
    then show ?thesis
      by (subst count_digits.simps) (simp add: length_dec_digits [of v] length_dec_digits [of "v div 10"]
        length_dec_digits [of "v div 100"] length_dec_digits [of "v div 1000"] div_mult2_eq [symmetric] div_less_iff_less_mult)
  next
    case False
    then show ?thesis
      using 1 four by (subst count_digits.simps) simp
  qed
qed

lemma fill_pair:
  assumes "Suc n < length buf"
  shows "drop n (buf[Suc n := y, n := x]) = x # y # drop (Suc (Suc n)) buf"
  using assms by (simp add: drop_update_swap Cons_nth_drop_Suc [symmetric])

lemma fill_digits_eq:
  "length (dec_digits v) \<le> ptr \<Longrightarrow> ptr \<le> length buf \<Longrightarrow>
    fill_digits v ptr buf = take (ptr - length (dec_digits v)) buf @ dec_digits v @ drop ptr buf"
proof (induction v ptr buf rule: fill_digits.induct)
  case (1 v ptr buf)
  show ?case
  proof (cases "10 \<le> v")
    case True
    let ?b = "\<lambda>i. buf[ptr - 1 := digit_char (i mod 10), ptr - 2 := digit_char (i div 10)]"
    obtain n where n: "ptr = Suc (Suc n)" "length (dec_digits v) \<le> Suc (Suc n)" "Suc n < length buf"
      using "1.prems" True by (cases ptr; cases "ptr - 1") (auto simp: length_dec_digits [of v])
    have take: "k \<le> n \<Longrightarrow> take k (?b i) = take k buf" and drop: "drop n (?b i) = digit_char (i div 10) # digit_char (i mod 10) # drop ptr buf" for i k
      using n fill_pair [of n buf] by simp_all
    show ?thesis
    proof (cases "100 \<le> v")
      case True
      have len: "length (dec_digits v) = length (dec_digits (v div 100)) + 2"
        using True by (simp add: dec_digits_pair)
      have "fill_digits v ptr buf = fill_digits (v div 100) n (?b (v mod 100))"
        using True n(1) by (subst fill_digits.simps) (simp add: Let_def)
      also have "\<dots> = take (n - length (dec_digits (v div 100))) (?b (v mod 100)) @ dec_digits (v div 100) @ drop n (?b (v mod 100))"
        using "1.IH" [OF True refl] n len by simp
      finally show ?thesis
        using True n len fill_pair [OF n(3)] by (simp add: dec_digits_pair)
    next
      case False
      with True have d: "dec_digits v = [digit_char (v div 10), digit_char (v mod 10)]"
        by (subst dec_digits.simps, subst dec_digits.simps) (simp add: div_less_iff_less_mult)
      have "fill_digits v ptr buf = ?b v"
        using False True by (subst fill_digits.simps) simp
      also have "\<dots> = take n (?b v) @ drop n (?b v)"
        by simp
      finally show ?thesis
        unfolding take [OF order.refl] drop d by (simp add: n(1))
    qed
  next
    case False
    then have d: "dec_digits v = [digit_char v]"
      by (simp add: dec_digits.simps)
    with "1.prems" False show ?thesis
      by (subst fill_digits.simps) (simp add: d upd_conv_take_nth_drop)
  qed
qed


text \<open>
  Property C14.  The 512-byte buffer of \<open>dump_escaped\<close> is never overrun: at every byte of every string, escaping
  to ASCII or not, what is written for a code point, with the NUL \<open>snprintf\<close> adds, still fits, and so
  do the bytes of a code point that is not complete yet.
\<close>

theorem dump_escaped_fits:
  assumes "escape_bytes ascii \<lparr>esc_state = 0, esc_codepoint = 0, string_buffer = [], written = []\<rparr> s = Some e"
  shows "length (string_buffer e) < string_buffer_size \<and>
    (\<forall>b cp. utf8_decode (esc_state e) (esc_codepoint e) b = (0, cp) \<longrightarrow>
      length (string_buffer e @ escape_codepoint ascii cp b) < string_buffer_size)"
proof -
  have "esc_fits ascii e"
    by (rule escape_bytes_fits [OF assms]) (simp add: esc_fits_def esc_ok_def)
  then show ?thesis
    using escape_byte_room by (auto simp: esc_fits_def string_buffer_size_def split: if_splits)
qed

theorem dump_escaped_fits_witness:
  "\<exists>e. escape_bytes True \<lparr>esc_state = 0, esc_codepoint = 0, string_buffer = [], written = []\<rparr> [0x41, 0x0A] = Some e \<and>
    string_buffer e = [0x41, 0x5C, 0x6E] \<and> length (string_buffer e) < string_buffer_size"
proof -
  let ?e = "\<lparr>esc_state = 0, esc_codepoint = 10, string_buffer = [0x41, 0x5C, 0x6E], written = []\<rparr> :: escaper"
  have "escape_bytes True \<lparr>esc_state = 0, esc_codepoint = 0, string_buffer = [], written = []\<rparr> [0x41, 0x0A] = Some ?e"
    by (simp add: escape_byte_def utf8_decode_def utf8d_type_def utf8d_states_def escape_codepoint_def
        string_buffer_size_def Let_def)
  from dump_escaped_fits [OF this] this show ?thesis
    by auto
qed

end
