(* ===== verification/Json_Parser.thy ===== *)
theory Json_Parser
  imports Json_Dump
begin

text \<open>
  The parser of \<open>cxx_modules/json.hpp\<close>: the loop \<open>sax_parse_internal\<close> of \<open>class parser\<close> driving
  \<open>json_sax_dom_parser\<close>, as \<open>json::parse(text, nullptr, false)\<close> runs them.  A parse
  error gives a discarded value, \<^const>\<open>None\<close> here.

  The reference stack points to the arrays and objects that are still open.  The model
  keeps their contents on the stack and stores a container in its parent when it is closed, which
  gives the same value once all are closed.  The main result is that the parser reads
  back what the serialiser of \<open>Json_Dump\<close> writes.
\<close>

section \<open>Objects\<close>

text \<open>
  \<open>std::map<std::string, json>\<close> in its iteration order, that of \<open>std::less\<close> on
  strings of unsigned bytes; \<open>member_touch\<close> is \<open>operator[]\<close>, \<open>member_set\<close> an
  assignment through it.
\<close>

fun key_less :: "bytes \<Rightarrow> bytes \<Rightarrow> bool" where
  "key_less a [] \<longleftrightarrow> False"
| "key_less [] (d # ds) \<longleftrightarrow> True"
| "key_less (c # cs) (d # ds) \<longleftrightarrow> c < d \<or> (c = d \<and> key_less cs ds)"

fun member_touch :: "bytes \<Rightarrow> (bytes \<times> 'f json) list \<Rightarrow> (bytes \<times> 'f json) list" where
  "member_touch k [] = [(k, json_null)]"
| "member_touch k (m # ms) =
     (if k = fst m then m # ms
      else if key_less k (fst m) then (k, json_null) # m # ms
      else m # member_touch k ms)"

fun member_set :: "bytes \<Rightarrow> 'v \<Rightarrow> (bytes \<times> 'v) list \<Rightarrow> (bytes \<times> 'v) list" where
  "member_set k v [] = [(k, v)]"
| "member_set k v (m # ms) =
     (if k = fst m then (k, v) # ms
      else if key_less k (fst m) then (k, v) # m # ms
      else m # member_set k v ms)"

lemma map_of_member_set: "map_of (member_set k v ms) = (map_of ms)(k \<mapsto> v)"
  by (induction ms) (auto simp: fun_eq_iff)

section \<open>The document under construction\<close>

datatype 'f frame = Open_Array "'f json list" | Open_Object "(bytes \<times> 'f json) list" bytes

record 'f dom =
  root :: "'f json option"
  ref_stack :: "'f frame list"

definition handle_value :: "'f dom \<Rightarrow> 'f json \<Rightarrow> 'f dom" where
  "handle_value d v =
     (case ref_stack d of
        [] \<Rightarrow> d\<lparr>root := Some v\<rparr>
      | Open_Array vs # fs \<Rightarrow> d\<lparr>ref_stack := Open_Array (vs @ [v]) # fs\<rparr>
      | Open_Object ms k # fs \<Rightarrow> d\<lparr>ref_stack := Open_Object (member_set k v ms) k # fs\<rparr>)"

definition start_object :: "'f dom \<Rightarrow> 'f dom" where
  "start_object d = d\<lparr>ref_stack := Open_Object [] [] # ref_stack d\<rparr>"

definition key :: "bytes \<Rightarrow> 'f dom \<Rightarrow> 'f dom" where
  "key k d =
     (case ref_stack d of
        Open_Object ms _ # fs \<Rightarrow> d\<lparr>ref_stack := Open_Object (member_touch k ms) k # fs\<rparr>
      | _ \<Rightarrow> d)"

definition start_array :: "'f dom \<Rightarrow> 'f dom" where
  "start_array d = d\<lparr>ref_stack := Open_Array [] # ref_stack d\<rparr>"

text \<open>\<open>end_object\<close> and \<open>end_array\<close> pop the stack.\<close>

definition end_container :: "'f dom \<Rightarrow> 'f dom" where
  "end_container d =
     (case ref_stack d of
        [] \<Rightarrow> d
      | Open_Array vs # fs \<Rightarrow> handle_value (d\<lparr>ref_stack := fs\<rparr>) (json_array vs)
      | Open_Object ms _ # fs \<Rightarrow> handle_value (d\<lparr>ref_stack := fs\<rparr>) (json_object ms))"

section \<open>The loop\<close>

text \<open>
  What the switch on the last token does: fail, go on with the next token, or
  leave the switch after a complete value.
\<close>

datatype 'f sax_value =
    Value_Error
  | Value_Continue "'f dom" "bool list" "'f token_type" bytes
  | Value_Break "'f dom" bytes

definition sax_value :: "'f float_ops \<Rightarrow> bool list \<Rightarrow> 'f dom \<Rightarrow> 'f token_type \<Rightarrow> bytes \<Rightarrow> 'f sax_value" where
  "sax_value fl states d last_token inp =
     (case last_token of
        begin_object \<Rightarrow>
          (let d1 = start_object d
           in case scan fl False inp of
                (end_object, inp1) \<Rightarrow> Value_Break (end_container d1) inp1
              | (value_string k, inp1) \<Rightarrow>
                  (case scan fl False inp1 of
                     (name_separator, inp2) \<Rightarrow>
                       (case scan fl False inp2 of
                          (t, inp3) \<Rightarrow> Value_Continue (key k d1) (False # states) t inp3)
                   | (_, inp2) \<Rightarrow> Value_Error)
              | (_, inp1) \<Rightarrow> Value_Error)
      | begin_array \<Rightarrow>
          (let d1 = start_array d
           in case scan fl False inp of
                (end_array, inp1) \<Rightarrow> Value_Break (end_container d1) inp1
              | (t, inp1) \<Rightarrow> Value_Continue d1 (True # states) t inp1)
      | value_float x \<Rightarrow>
          if \<not> isfinite fl x then Value_Error else Value_Break (handle_value d (json_float x)) inp
      | literal_false \<Rightarrow> Value_Break (handle_value d (json_boolean False)) inp
      | literal_null \<Rightarrow> Value_Break (handle_value d json_null) inp
      | literal_true \<Rightarrow> Value_Break (handle_value d (json_boolean True)) inp
      | value_integer x \<Rightarrow> Value_Break (handle_value d (json_integer x)) inp
      | value_string s \<Rightarrow> Value_Break (handle_value d (json_string s)) inp
      | value_unsigned x \<Rightarrow> Value_Break (handle_value d (json_unsigned x)) inp
      | _ \<Rightarrow> Value_Error)"

text \<open>The evaluation of the state stack behind a complete value; \<open>True\<close> stands for an array.\<close>

datatype 'f sax_state =
    State_Done
  | State_Error
  | State_Next "'f dom" "'f token_type" bytes
  | State_Close "'f dom" "bool list" bytes

definition sax_state :: "'f float_ops \<Rightarrow> bool list \<Rightarrow> 'f dom \<Rightarrow> bytes \<Rightarrow> 'f sax_state" where
  "sax_state fl states d inp =
     (case states of
        [] \<Rightarrow> State_Done
      | True # outer \<Rightarrow>
          (case scan fl False inp of
             (value_separator, inp1) \<Rightarrow> (case scan fl False inp1 of (t, inp2) \<Rightarrow> State_Next d t inp2)
           | (end_array, inp1) \<Rightarrow> State_Close (end_container d) outer inp1
           | (_, inp1) \<Rightarrow> State_Error)
      | False # outer \<Rightarrow>
          (case scan fl False inp of
             (value_separator, inp1) \<Rightarrow>
               (case scan fl False inp1 of
                  (value_string k, inp2) \<Rightarrow>
                    (case scan fl False inp2 of
                       (name_separator, inp3) \<Rightarrow>
                         (case scan fl False inp3 of (t, inp4) \<Rightarrow> State_Next (key k d) t inp4)
                     | (_, inp3) \<Rightarrow> State_Error)
                | (_, inp2) \<Rightarrow> State_Error)
           | (end_object, inp1) \<Rightarrow> State_Close (end_container d) outer inp1
           | (_, inp1) \<Rightarrow> State_Error))"

text \<open>What is left to read, counting the token that has been read and not looked at.\<close>

definition weight :: "'f token_type \<Rightarrow> bytes \<Rightarrow> nat" where
  "weight t inp = length inp + (if t = end_of_input then 0 else 1)"

lemma scan_weight: "scan fl False inp = (t, rest) \<Longrightarrow> weight t rest \<le> length inp"
  using scan_token_progress [of fl inp t rest] by (auto simp: scan_def weight_def)

lemma scan_length: "scan fl False inp = (t, rest) \<Longrightarrow> length rest \<le> length inp"
  using scan_token_progress(1) [of fl inp t rest] by (simp add: scan_def)

lemma scan_length_less: "scan fl False inp = (t, rest) \<Longrightarrow> t \<noteq> end_of_input \<Longrightarrow> length rest < length inp"
  using scan_token_progress(2) [of fl inp t rest] by (simp add: scan_def)


lemma sax_value_progress:
  "sax_value fl states d t inp = Value_Continue d' states' t' inp' \<Longrightarrow> weight t' inp' < weight t inp"
  "sax_value fl states d t inp = Value_Break d' inp' \<Longrightarrow> length inp' < weight t inp"
proof -
  obtain t1 inp1 where s1: "scan fl False inp = (t1, inp1)"
    by (cases "scan fl False inp")
  obtain t2 inp2 where s2: "scan fl False inp1 = (t2, inp2)"
    by (cases "scan fl False inp1")
  obtain t3 inp3 where s3: "scan fl False inp2 = (t3, inp3)"
    by (cases "scan fl False inp2")
  note bounds = scan_weight [OF s1] scan_length [OF s1] scan_length [OF s2] scan_weight [OF s3]
  show "weight t' inp' < weight t inp" if "sax_value fl states d t inp = Value_Continue d' states' t' inp'"
    using that bounds
    by (auto simp: sax_value_def s1 s2 s3 weight_def [of begin_object] weight_def [of begin_array] Let_def
        split: token_type.splits if_splits)
  show "length inp' < weight t inp" if "sax_value fl states d t inp = Value_Break d' inp'"
    using that scan_length [OF s1]
    by (auto simp: sax_value_def s1 s2 s3 weight_def Let_def split: token_type.splits if_splits)
qed

lemma sax_state_progress:
  "sax_state fl states d inp = State_Next d' t' inp' \<Longrightarrow> weight t' inp' \<le> length inp"
  "sax_state fl states d inp = State_Close d' states' inp' \<Longrightarrow> length inp' < length inp"
proof -
  obtain t1 inp1 where s1: "scan fl False inp = (t1, inp1)"
    by (cases "scan fl False inp")
  obtain t2 inp2 where s2: "scan fl False inp1 = (t2, inp2)"
    by (cases "scan fl False inp1")
  obtain t3 inp3 where s3: "scan fl False inp2 = (t3, inp3)"
    by (cases "scan fl False inp2")
  obtain t4 inp4 where s4: "scan fl False inp3 = (t4, inp4)"
    by (cases "scan fl False inp3")
  note bounds = scan_length [OF s1] scan_weight [OF s2] scan_length [OF s2] scan_length [OF s3] scan_weight [OF s4]
  show "weight t' inp' \<le> length inp" if "sax_state fl states d inp = State_Next d' t' inp'"
    using that bounds
    by (auto simp: sax_state_def s1 s2 s3 s4 split: token_type.splits list.splits bool.splits)
  show "length inp' < length inp" if "sax_state fl states d inp = State_Close d' states' inp'"
    using that scan_length_less [OF s1]
    by (auto simp: sax_state_def s1 s2 s3 s4 split: token_type.splits list.splits bool.splits)
qed

function sax_parse_internal ::
    "'f float_ops \<Rightarrow> bool \<Rightarrow> bool list \<Rightarrow> 'f dom \<Rightarrow> 'f token_type \<Rightarrow> bytes \<Rightarrow> ('f dom \<times> bytes) option" where
  "sax_parse_internal fl skip states d last_token inp =
     (case (if skip then Value_Break d inp else sax_value fl states d last_token inp) of
        Value_Error \<Rightarrow> None
      | Value_Continue d1 states1 t1 inp1 \<Rightarrow> sax_parse_internal fl False states1 d1 t1 inp1
      | Value_Break d1 inp1 \<Rightarrow>
          (case sax_state fl states d1 inp1 of
             State_Done \<Rightarrow> Some (d1, inp1)
           | State_Error \<Rightarrow> None
           | State_Next d2 t2 inp2 \<Rightarrow> sax_parse_internal fl False states d2 t2 inp2
           | State_Close d2 states2 inp2 \<Rightarrow> sax_parse_internal fl True states2 d2 last_token inp2))"
  by pat_completeness auto
termination
proof (relation "measure (\<lambda>(fl, skip, states, d, t, inp). if skip then Suc (length inp) else weight t inp)", goal_cases)
  case 1
  show ?case by simp
next
  case 2
  then show ?case by (auto dest: sax_value_progress split: if_splits)
next
  case 3
  then show ?case
    by (fastforce dest: sax_value_progress sax_state_progress split: if_splits)
next
  case 4
  then show ?case
    by (fastforce dest: sax_value_progress sax_state_progress split: if_splits)
qed

declare sax_parse_internal.simps [simp del]

definition parse :: "'f float_ops \<Rightarrow> bytes \<Rightarrow> 'f json option" where
  "parse fl text =
     (case scan fl True text of
        (t, inp) \<Rightarrow>
          case sax_parse_internal fl False [] \<lparr>root = None, ref_stack = []\<rparr> t inp of
            None \<Rightarrow> None
          | Some (d, inp') \<Rightarrow> if fst (scan fl False inp') \<noteq> end_of_input then None else root d)"

section \<open>Reading back\<close>

text \<open>
  The values the serialiser prints without loss: a nonnegative integer comes back
  as an unsigned one, so it has to be one; floating-point numbers are left out.
\<close>

fun printable :: "'f json \<Rightarrow> bool" where
  "printable (json_integer x) \<longleftrightarrow> - (2 ^ 63) \<le> x \<and> x < 0"
| "printable (json_float x) \<longleftrightarrow> False"
| "printable (json_array vs) \<longleftrightarrow> list_all printable vs"
| "printable (json_object ms) \<longleftrightarrow> list_all (\<lambda>m. printable (snd m)) ms"
| "printable _ \<longleftrightarrow> True"

text \<open>The same value with its objects in the order of \<open>std::map\<close>.\<close>

fun canon :: "'f json \<Rightarrow> 'f json" where
  "canon (json_array vs) = json_array (map canon vs)"
| "canon (json_object ms) = json_object (fold (\<lambda>m acc. member_set (fst m) (canon (snd m)) acc) ms [])"
| "canon v = v"

definition delimited :: "bytes \<Rightarrow> bool" where
  "delimited rest \<longleftrightarrow> rest = [] \<or> hd rest \<in> {0x2C, 0x5D, 0x7D}"

lemma member_set_touch: "member_set k v (member_touch k ms) = member_set k v ms"
  by (induction ms) auto

subsection \<open>Numbers\<close>

lemma unat_digit_char: "d < 10 \<Longrightarrow> unat (digit_char d) = 0x30 + d"
  unfolding digit_char_def by (simp only: unsigned_of_nat) (simp add: take_bit_eq_mod)

lemma is_digit_char: "d < 10 \<Longrightarrow> is_digit (digit_char d)"
  by (simp add: is_digit_def word_le_nat_alt unat_digit_char)

lemma dec_digits_all: "list_all is_digit (dec_digits v)"
  by (induction v rule: dec_digits.induct) (subst dec_digits.simps, simp add: is_digit_char)

lemma digits_value_snoc: "digits_value (ds @ [d]) = 10 * digits_value ds + (unat d - 0x30)"
  by (simp add: digits_value_def)

lemma digits_value_dec: "digits_value (dec_digits v) = v"
proof (induction v rule: dec_digits.induct)
  case (1 v)
  then show ?case
    by (subst dec_digits.simps) (auto simp: digits_value_snoc unat_digit_char, simp add: digits_value_def unat_digit_char)
qed

lemma dec_digits_hd: "0 < v \<Longrightarrow> hd (dec_digits v) \<noteq> 0x30"
proof (induction v rule: dec_digits.induct)
  case (1 v)
  then show ?case
    by (subst dec_digits.simps) (auto simp: word_unat_eq_iff unat_digit_char)
qed

lemma scan_digits_any1:
  assumes "list_all is_digit ds" and "delimited rest"
  shows "scan_digits Any1 k buf (ds @ rest) = Some (k, buf @ ds, rest)"
  using assms
proof (induction ds arbitrary: buf)
  case Nil
  then show ?case
    by (cases rest) (auto simp: delimited_def accepting_def state_kind_def is_digit_def is_exponent_def)
next
  case (Cons c cs)
  then show ?case by (simp add: state_kind_def)
qed


lemma dec_digits_length: "v < 10 ^ n \<Longrightarrow> 0 < n \<Longrightarrow> length (dec_digits v) \<le> n"
proof (induction n arbitrary: v)
  case (Suc n)
  then show ?case
    by (cases "n = 0") (auto simp: length_dec_digits [of v] div_less_iff_less_mult mult.commute)
qed simp

lemma dump_integer_eq:
  assumes "\<bar>x\<bar> < 2 ^ 64"
  shows "dump_integer x = (if x < 0 then 0x2D # dec_digits (nat (- x)) else dec_digits (nat x))"
proof -
  define v where "v = nat \<bar>x\<bar>"
  have "v < 10 ^ 20"
    using assms by (simp add: v_def)
  then have len: "length (dec_digits v) \<le> 20"
    by (rule dec_digits_length) simp
  have n: "count_digits 1 v = length (dec_digits v)"
    using count_digits_eq [of 1 v] by simp
  show ?thesis
  proof (cases "x < 0")
    case True
    then have "nat (- (x + 1)) + 1 = v" "nat (- x) = v"
      by (simp_all add: v_def)
    moreover have "take (Suc 0) ((replicate 64 0)[0 := 0x2D]) = [0x2D :: byte]"
      by (simp add: take_Suc hd_conv_nth)
    ultimately show ?thesis
      using True len n fill_digits_eq [of v "1 + length (dec_digits v)" "number_buffer[0 := 0x2D]"]
      by (simp add: dump_integer_def Let_def number_buffer_def)
  next
    case False
    show ?thesis
    proof (cases "x = 0")
      case True
      then show ?thesis
        by (simp add: dump_integer_def dec_digits.simps digit_char_def)
    next
      case 2: False
      then show ?thesis
        using False len n fill_digits_eq [of v "length (dec_digits v)" number_buffer]
        by (simp add: dump_integer_def Let_def number_buffer_def v_def)
    qed
  qed
qed

lemma unat_u64_less: "unat (x :: u64) < 18446744073709551616"
  using unsigned_less [of x] by simp

lemma scan_number_unsigned:
  assumes "delimited rest"
  shows "scan_token fl (dec_digits (unat x) @ rest) = (value_unsigned x, rest)"
proof -
  obtain c cs where d: "dec_digits (unat x) = c # cs"
    by (cases "dec_digits (unat x)") auto
  have digits: "is_digit c" "list_all is_digit cs"
    using dec_digits_all [of "unat x"] d by simp_all
  then have c: "0x30 \<le> unat c" "unat c \<le> 0x39"
    by (auto simp: is_digit_def word_le_nat_alt)
  have val: "strtoull (c # cs) = Some x"
    using digits_value_dec [of "unat x"] d unat_u64_less [of x] by (simp add: strtoull_def Let_def)
  have "scan_number fl c (cs @ rest) = (value_unsigned x, rest)"
  proof (cases "x = 0")
    case True
    then have "c = 0x30" "cs = []"
      using d by (auto simp: dec_digits.simps digit_char_def)
    with assms val show ?thesis
      by (cases rest) (auto simp: scan_number_def delimited_def accepting_def state_kind_def is_exponent_def number_token_def Let_def)
  next
    case False
    then have "c \<noteq> 0x30"
      using dec_digits_hd [of "unat x"] d by (auto simp: unat_gt_0)
    with scan_digits_any1 [OF digits(2) assms, of Unsigned "[c]"] c val show ?thesis
      by (auto simp: scan_number_def number_token_def Let_def word_unat_eq_iff)
  qed
  with c digits(1) show ?thesis
    by (auto simp: d scan_token_def skip_whitespace_def is_space_def word_unat_eq_iff)
qed

lemma scan_number_negative:
  assumes "delimited rest" and "0 < v" and "v \<le> 2 ^ 63"
  shows "scan_token fl (0x2D # dec_digits v @ rest) = (value_integer (- int v), rest)"
proof -
  obtain c cs where d: "dec_digits v = c # cs"
    by (cases "dec_digits v") auto
  have digits: "is_digit c" "list_all is_digit cs" "c \<noteq> 0x30"
    using dec_digits_all [of v] dec_digits_hd [OF assms(2)] d by simp_all
  have val: "strtoll (0x2D # c # cs) = Some (- int v)"
    using digits_value_dec [of v] d assms(3) by (simp add: strtoll_def)
  have "scan_number fl 0x2D (c # cs @ rest) = (value_integer (- int v), rest)"
    using scan_digits_any1 [OF digits(2) assms(1), of Integer "[0x2D, c]"] digits val
    by (simp add: scan_number_def state_kind_def number_token_def)
  then show ?thesis
    by (simp add: d scan_token_def skip_whitespace_def is_space_def)
qed


subsection \<open>Values\<close>

lemma scan_structural [simp]:
  "scan fl False (0x5B # rest) = (begin_array, rest)" "scan fl False (0x5D # rest) = (end_array, rest)"
  "scan fl False (0x7B # rest) = (begin_object, rest)" "scan fl False (0x7D # rest) = (end_object, rest)"
  "scan fl False (0x3A # rest) = (name_separator, rest)" "scan fl False (0x2C # rest) = (value_separator, rest)"
  by (simp_all add: scan_def scan_token_def skip_whitespace_def is_space_def)

lemma scan_escaped [simp]:
  "utf8 s \<Longrightarrow> scan fl False (0x22 # concat (map escaped s) @ 0x22 # rest) = (value_string s, rest)"
  by (simp add: scan_def scan_token_def skip_whitespace_def is_space_def utf8_def scan_string_escaped)

lemma scan_literals [simp]:
  "scan fl False (bytes_of ''true'' @ rest) = (literal_true, rest)"
  "scan fl False (bytes_of ''false'' @ rest) = (literal_false, rest)"
  "scan fl False (bytes_of ''null'' @ rest) = (literal_null, rest)"
  by (simp_all add: scan_def scan_token_def skip_whitespace_def is_space_def scan_literal_def is_digit_def)

lemma sax_state_outer:
  assumes "sax_state fl states d inp = State_Close d' states' inp'"
  shows "states' = tl states"
proof -
  obtain t1 inp1 where s1: "scan fl False inp = (t1, inp1)"
    by (cases "scan fl False inp")
  obtain t2 inp2 where s2: "scan fl False inp1 = (t2, inp2)"
    by (cases "scan fl False inp1")
  obtain t3 inp3 where s3: "scan fl False inp2 = (t3, inp3)"
    by (cases "scan fl False inp2")
  obtain t4 inp4 where s4: "scan fl False inp3 = (t4, inp4)"
    by (cases "scan fl False inp3")
  show ?thesis
    using assms
    by (auto simp: sax_state_def s1 s2 s3 s4 split: token_type.splits list.splits bool.splits)
qed

lemma sax_skip_token:
  "sax_parse_internal fl True states d t inp = sax_parse_internal fl True states d t' inp"
proof (induction states arbitrary: d inp)
  case Nil
  then show ?case
    by (simp add: sax_parse_internal.simps [of fl True] sax_state_def)
next
  case (Cons b outer)
  then show ?case
    using sax_state_outer [of fl "b # outer" d inp] Cons.IH
    unfolding sax_parse_internal.simps [of fl True "b # outer" d t inp]
      sax_parse_internal.simps [of fl True "b # outer" d t' inp]
    by (auto split: sax_state.splits)
qed

lemma sax_break:
  assumes "sax_value fl states d t inp = Value_Break d' inp'"
  shows "sax_parse_internal fl False states d t inp = sax_parse_internal fl True states d' t' inp'"
  using assms sax_skip_token [of fl _ _ t _ t']
  unfolding sax_parse_internal.simps [of fl False states d t inp]
    sax_parse_internal.simps [of fl True states d' t' inp']
  by (auto split: sax_state.splits)

lemma sax_array_next:
  "scan fl False inp = (t, inp') \<Longrightarrow>
    sax_parse_internal fl True (True # states) d t0 (0x2C # inp) = sax_parse_internal fl False (True # states) d t inp'"
  unfolding sax_parse_internal.simps [of fl True "True # states" d t0 "0x2C # inp"] by (simp add: sax_state_def)

lemma sax_array_end:
  "sax_parse_internal fl True (True # states) d t0 (0x5D # inp) = sax_parse_internal fl True states (end_container d) t0 inp"
  unfolding sax_parse_internal.simps [of fl True "True # states" d t0 "0x5D # inp"] by (simp add: sax_state_def)

lemma sax_object_next:
  "scan fl False inp = (value_string k, inp1) \<Longrightarrow> scan fl False inp1 = (name_separator, inp2) \<Longrightarrow> scan fl False inp2 = (t, inp3) \<Longrightarrow>
    sax_parse_internal fl True (False # states) d t0 (0x2C # inp) = sax_parse_internal fl False (False # states) (key k d) t inp3"
  unfolding sax_parse_internal.simps [of fl True "False # states" d t0 "0x2C # inp"] by (simp add: sax_state_def)

lemma sax_object_end:
  "sax_parse_internal fl True (False # states) d t0 (0x7D # inp) = sax_parse_internal fl True states (end_container d) t0 inp"
  unfolding sax_parse_internal.simps [of fl True "False # states" d t0 "0x7D # inp"] by (simp add: sax_state_def)

lemmas sax_steps = sax_array_next sax_array_end sax_object_next sax_object_end

text \<open>The text \<open>bs\<close> of a value \<open>v\<close> is read as one token stream that ends in \<open>v\<close> being handled.\<close>

definition reads :: "'f float_ops \<Rightarrow> bytes \<Rightarrow> 'f json \<Rightarrow> bool" where
  "reads fl bs v \<longleftrightarrow> (\<forall>rest. delimited rest \<longrightarrow>
     (\<exists>t inp. scan fl False (bs @ rest) = (t, inp) \<and> t \<noteq> end_array \<and>
       (\<forall>states d t0. sax_parse_internal fl False states d t inp =
         sax_parse_internal fl True states (handle_value d (canon v)) t0 rest)))"

lemma reads_scalar:
  assumes "\<And>rest. delimited rest \<Longrightarrow> scan fl False (bs @ rest) = (t, rest)"
    and "t \<noteq> end_array" and "\<And>states d rest. sax_value fl states d t rest = Value_Break (handle_value d (canon v)) rest"
  shows "reads fl bs v"
  using assms sax_break unfolding reads_def by blast

definition push_frame :: "'f frame \<Rightarrow> 'f dom \<Rightarrow> 'f dom" where
  "push_frame fr d = d\<lparr>ref_stack := fr # ref_stack d\<rparr>"

lemma push_frame_simps [simp]:
  "handle_value (push_frame (Open_Array vs) d) v = push_frame (Open_Array (vs @ [v])) d"
  "handle_value (push_frame (Open_Object ms k) d) v = push_frame (Open_Object (member_set k v ms) k) d"
  "key k (push_frame (Open_Object ms k') d) = push_frame (Open_Object (member_touch k ms) k) d"
  "end_container (push_frame (Open_Array vs) d) = handle_value d (json_array vs)"
  "end_container (push_frame (Open_Object ms k) d) = handle_value d (json_object ms)"
  "start_array d = push_frame (Open_Array []) d" "start_object d = push_frame (Open_Object [] []) d"
  by (cases d, simp add: push_frame_def handle_value_def key_def end_container_def start_array_def start_object_def)+


definition reads_elements :: "'f float_ops \<Rightarrow> bytes \<Rightarrow> 'f json list \<Rightarrow> bool" where
  "reads_elements fl bs vs \<longleftrightarrow> (\<forall>rest states d t0 acc.
     \<exists>t inp. scan fl False (bs @ 0x5D # rest) = (t, inp) \<and> t \<noteq> end_array \<and>
       sax_parse_internal fl False (True # states) (push_frame (Open_Array acc) d) t inp =
       sax_parse_internal fl True states (handle_value d (json_array (acc @ map canon vs))) t0 rest)"

definition set_members :: "(bytes \<times> 'f json) list \<Rightarrow> (bytes \<times> 'f json) list \<Rightarrow> (bytes \<times> 'f json) list" where
  "set_members ms acc = fold (\<lambda>m acc. member_set (fst m) (canon (snd m)) acc) ms acc"

definition reads_members :: "'f float_ops \<Rightarrow> bytes \<Rightarrow> (bytes \<times> 'f json) list \<Rightarrow> bool" where
  "reads_members fl bs ms \<longleftrightarrow> (\<forall>rest states d t0 acc k0.
     \<exists>k inp1 inp2 t inp3. scan fl False (bs @ 0x7D # rest) = (value_string k, inp1) \<and>
       scan fl False inp1 = (name_separator, inp2) \<and> scan fl False inp2 = (t, inp3) \<and>
       sax_parse_internal fl False (False # states) (key k (push_frame (Open_Object acc k0) d)) t inp3 =
       sax_parse_internal fl True states (handle_value d (json_object (set_members ms acc))) t0 rest)"

lemma readsD:
  assumes "reads fl bs v" and "delimited rest"
  obtains t inp where "scan fl False (bs @ rest) = (t, inp)" "t \<noteq> end_array"
    "\<forall>states d t0. sax_parse_internal fl False states d t inp =
       sax_parse_internal fl True states (handle_value d (canon v)) t0 rest"
  using assms unfolding reads_def by blast

lemma delimited_simps [simp]:
  "delimited []" "delimited (0x2C # rest)" "delimited (0x5D # rest)" "delimited (0x7D # rest)"
  by (simp_all add: delimited_def)

lemma reads_elements_single: "reads fl bs v \<Longrightarrow> reads_elements fl bs [v]"
  unfolding reads_elements_def
proof (intro allI, goal_cases)
  case (1 rest states d t0 acc)
  obtain t inp where t: "scan fl False (bs @ 0x5D # rest) = (t, inp)" "t \<noteq> end_array"
    "\<forall>states d t0. sax_parse_internal fl False states d t inp =
       sax_parse_internal fl True states (handle_value d (canon v)) t0 (0x5D # rest)"
    using readsD [OF 1 delimited_simps(3) [of rest]] by blast
  then show ?case
    by (simp add: sax_array_end t(3) [rule_format, of _ _ t0])
qed

lemma reads_elements_cons:
  assumes "reads fl bs v" and "reads_elements fl bss vs"
  shows "reads_elements fl (bs @ 0x2C # bss) (v # vs)"
  unfolding reads_elements_def
proof (intro allI, goal_cases)
  case (1 rest states d t0 acc)
  obtain t inp where
    t: "scan fl False (bs @ 0x2C # bss @ 0x5D # rest) = (t, inp)" "t \<noteq> end_array"
    "\<forall>states d t0. sax_parse_internal fl False states d t inp =
       sax_parse_internal fl True states (handle_value d (canon v)) t0 (0x2C # bss @ 0x5D # rest)"
    using readsD [OF assms(1) delimited_simps(2) [of "bss @ 0x5D # rest"]] by blast
  from assms(2) [unfolded reads_elements_def, rule_format, of rest states "acc @ [canon v]" d t0]
  obtain t' inp' where t': "scan fl False (bss @ 0x5D # rest) = (t', inp')"
    "sax_parse_internal fl False (True # states) (push_frame (Open_Array (acc @ [canon v])) d) t' inp' =
       sax_parse_internal fl True states (handle_value d (json_array ((acc @ [canon v]) @ map canon vs))) t0 rest"
    by blast
  show ?case
    using t t'(2) sax_array_next [OF t'(1)] by (simp add: t(3) [rule_format, of _ _ t0])
qed

lemma reads_array:
  assumes "reads_elements fl bs vs"
  shows "reads fl (0x5B # bs @ [0x5D]) (json_array vs)"
proof -
  have "sax_parse_internal fl False states d begin_array (bs @ 0x5D # rest) =
      sax_parse_internal fl True states (handle_value d (json_array (map canon vs))) t0 rest" for rest states d t0
  proof -
    from assms [unfolded reads_elements_def, rule_format, of rest states "[]" d t0]
    obtain t inp where t: "scan fl False (bs @ 0x5D # rest) = (t, inp)" "t \<noteq> end_array"
      "sax_parse_internal fl False (True # states) (push_frame (Open_Array []) d) t inp =
         sax_parse_internal fl True states (handle_value d (json_array (map canon vs))) t0 rest"
      by auto
    from t(2) have "sax_value fl states d begin_array (bs @ 0x5D # rest) =
        Value_Continue (push_frame (Open_Array []) d) (True # states) t inp"
      by (cases t) (simp_all add: sax_value_def t(1))
    with t(3) show ?thesis
      by (simp add: sax_parse_internal.simps [of fl False states d begin_array "bs @ 0x5D # rest"])
  qed
  then show ?thesis
    by (simp add: reads_def)
qed

lemma reads_members_single:
  assumes "utf8 k" and "reads fl bs v"
  shows "reads_members fl (0x22 # concat (map escaped k) @ 0x22 # 0x3A # bs) [(k, v)]"
  unfolding reads_members_def
proof (intro allI, goal_cases)
  case (1 rest states d t0 acc k0)
  obtain t inp where t: "scan fl False (bs @ 0x7D # rest) = (t, inp)" "t \<noteq> end_array"
    "\<forall>states d t0. sax_parse_internal fl False states d t inp =
       sax_parse_internal fl True states (handle_value d (canon v)) t0 (0x7D # rest)"
    using readsD [OF assms(2) delimited_simps(4) [of rest]] by blast
  show ?case
    using assms(1) t by (simp add: sax_object_end t(3) [rule_format, of _ _ t0] member_set_touch set_members_def)
qed

lemma reads_members_cons:
  assumes "utf8 k" and "reads fl bs v" and "reads_members fl bss ms"
  shows "reads_members fl (0x22 # concat (map escaped k) @ 0x22 # 0x3A # bs @ 0x2C # bss) ((k, v) # ms)"
  unfolding reads_members_def
proof (intro allI, goal_cases)
  case (1 rest states d t0 acc k0)
  obtain t inp where
    t: "scan fl False (bs @ 0x2C # bss @ 0x7D # rest) = (t, inp)" "t \<noteq> end_array"
    "\<forall>states d t0. sax_parse_internal fl False states d t inp =
       sax_parse_internal fl True states (handle_value d (canon v)) t0 (0x2C # bss @ 0x7D # rest)"
    using readsD [OF assms(2) delimited_simps(2) [of "bss @ 0x7D # rest"]] by blast
  from assms(3) [unfolded reads_members_def, rule_format, of rest states "member_set k (canon v) acc" k d t0]
  obtain k' inp1 inp2 t' inp3 where m: "scan fl False (bss @ 0x7D # rest) = (value_string k', inp1)"
    "scan fl False inp1 = (name_separator, inp2)" "scan fl False inp2 = (t', inp3)"
    "sax_parse_internal fl False (False # states) (key k' (push_frame (Open_Object (member_set k (canon v) acc) k) d)) t' inp3 =
       sax_parse_internal fl True states (handle_value d (json_object (set_members ms (member_set k (canon v) acc)))) t0 rest"
    by blast
  show ?case
    using assms(1) t m(4) sax_object_next [OF m(1-3)]
    by (simp add: t(3) [rule_format, of _ _ t0] member_set_touch set_members_def)
qed

lemma reads_object:
  assumes "reads_members fl bs ms"
  shows "reads fl (0x7B # bs @ [0x7D]) (json_object ms)"
proof -
  have "sax_parse_internal fl False states d begin_object (bs @ 0x7D # rest) =
      sax_parse_internal fl True states (handle_value d (json_object (set_members ms []))) t0 rest" for rest states d t0
  proof -
    from assms [unfolded reads_members_def, rule_format, of rest states "[]" "[]" d t0]
    obtain k inp1 inp2 t inp3 where m: "scan fl False (bs @ 0x7D # rest) = (value_string k, inp1)"
      "scan fl False inp1 = (name_separator, inp2)" "scan fl False inp2 = (t, inp3)"
      "sax_parse_internal fl False (False # states) (key k (push_frame (Open_Object [] []) d)) t inp3 =
         sax_parse_internal fl True states (handle_value d (json_object (set_members ms []))) t0 rest"
      by blast
    have "sax_value fl states d begin_object (bs @ 0x7D # rest) =
        Value_Continue (key k (push_frame (Open_Object [] []) d)) (False # states) t inp3"
      by (simp add: sax_value_def m(1-3))
    with m(4) show ?thesis
      by (simp add: sax_parse_internal.simps [of fl False states d begin_object "bs @ 0x7D # rest"])
  qed
  then show ?thesis
    by (simp add: reads_def set_members_def)
qed


lemma dump_array_reads:
  assumes "\<And>v bs. v \<in> set vs \<Longrightarrow> dump fl False v = Some bs \<Longrightarrow> reads fl bs v"
  shows "vs \<noteq> [] \<Longrightarrow> dump_array fl False vs = Some bs \<Longrightarrow> reads_elements fl bs vs"
  using assms
proof (induction vs arbitrary: bs)
  case (Cons v vs)
  then show ?case
    by (cases "vs = []")
      (auto simp: reads_elements_single intro: reads_elements_cons split: Option.bind_split_asm)
qed simp

lemma dump_object_reads:
  assumes "\<And>m bs. m \<in> set ms \<Longrightarrow> dump fl False (snd m) = Some bs \<Longrightarrow> reads fl bs (snd m)"
  shows "ms \<noteq> [] \<Longrightarrow> dump_object fl False ms = Some bs \<Longrightarrow> reads_members fl bs ms"
  using assms
proof (induction ms arbitrary: bs)
  case (Cons m ms)
  obtain k v where m: "m = (k, v)"
    by (cases m)
  from Cons.prems(2) obtain t where t: "utf8 k" "dump fl False v = Some t"
    by (auto simp: m dump_escaped_eq split: Option.bind_split_asm if_splits)
  have reads: "reads fl t v"
    using Cons.prems(3) [of m t] t(2) m by simp
  show ?case
  proof (cases "ms = []")
    case True
    then show ?thesis
      using Cons.prems(2) t reads_members_single [OF t(1) reads] by (simp add: m dump_escaped_eq)
  next
    case False
    with Cons.prems(2) t obtain ts where ts: "dump_object fl False ms = Some ts"
      "bs = 0x22 # concat (map escaped k) @ 0x22 # 0x3A # t @ 0x2C # ts"
      by (auto simp: m dump_escaped_eq split: Option.bind_split_asm)
    have "reads_members fl ts ms"
      using Cons.IH [OF False ts(1)] Cons.prems(3) by simp
    then show ?thesis
      unfolding ts(2) m by (rule reads_members_cons [OF t(1) reads])
  qed
qed simp

lemma reads_empty: "reads fl (bytes_of ''[]'') (json_array [])" "reads fl (bytes_of ''{}'') (json_object [])"
proof -
  have "sax_value fl states d begin_array (0x5D # rest) = Value_Break (handle_value d (json_array [])) rest"
    "sax_value fl states d begin_object (0x7D # rest) = Value_Break (handle_value d (json_object [])) rest" for states d rest
    by (simp_all add: sax_value_def)
  then show "reads fl (bytes_of ''[]'') (json_array [])" "reads fl (bytes_of ''{}'') (json_object [])"
    using sax_break by (fastforce simp: reads_def)+
qed

lemma dump_reads: "dump fl False v = Some bs \<Longrightarrow> printable v \<Longrightarrow> reads fl bs v"
proof (induction v arbitrary: bs)
  case json_null
  then show ?case
    by (auto intro!: reads_scalar [where t = literal_null] simp: sax_value_def simp del: bytes_of_simps)
next
  case (json_boolean b)
  then show ?case
    by (intro reads_scalar [where t = "if b then literal_true else literal_false"])
      (auto simp: sax_value_def simp del: bytes_of_simps)
next
  case (json_integer x)
  then have x: "\<bar>x\<bar> < 2 ^ 64" "x < 0" "0 < nat (- x)" "nat (- x) \<le> 2 ^ 63"
    by auto
  with json_integer show ?case
    using scan_number_negative [OF _ x(3,4), of _ fl]
    by (intro reads_scalar [where t = "value_integer x"])
      (auto simp: dump_integer_eq scan_def sax_value_def)
next
  case (json_unsigned x)
  have "\<bar>uint x\<bar> < 2 ^ 64"
    using uint_lt2p [of x] by simp
  with json_unsigned show ?case
    using scan_number_unsigned [of _ fl x]
    by (intro reads_scalar [where t = "value_unsigned x"])
      (auto simp: dump_integer_eq scan_def sax_value_def)
next
  case (json_float x)
  then show ?case by simp
next
  case (json_string s)
  then show ?case
    by (intro reads_scalar [where t = "value_string s"])
      (auto simp: dump_escaped_eq sax_value_def split: if_splits)
next
  case (json_array vs)
  show ?case
  proof (cases "vs = []")
    case True
    with json_array.prems show ?thesis
      using reads_empty(1) by simp
  next
    case False
    with json_array.prems(1) obtain body where body: "dump_array fl False vs = Some body" "bs = 0x5B # body @ [0x5D]"
      by (auto split: Option.bind_split_asm)
    have "reads_elements fl body vs"
      by (rule dump_array_reads [OF _ False body(1)]) (use json_array in \<open>auto simp: list_all_iff\<close>)
    then show ?thesis
      unfolding body(2) by (rule reads_array)
  qed
next
  case (json_object ms)
  show ?case
  proof (cases "ms = []")
    case True
    with json_object.prems show ?thesis
      using reads_empty(2) by simp
  next
    case False
    with json_object.prems(1) obtain body where body: "dump_object fl False ms = Some body" "bs = 0x7B # body @ [0x7D]"
      by (auto split: Option.bind_split_asm)
    have "reads_members fl body ms"
    proof (rule dump_object_reads [OF _ False body(1)])
      fix m t
      assume "m \<in> set ms" "dump fl False (snd m) = Some t"
      with json_object show "reads fl t (snd m)"
        by (cases m) (auto simp: list_all_iff)
    qed
    then show ?thesis
      unfolding body(2) by (rule reads_object)
  qed
qed

lemma parse_dump_canon:
  assumes "dump fl False v = Some doc" and "printable v"
  shows "parse fl doc = Some (canon v)"
proof -
  from dump_reads [OF assms] obtain t inp where t: "scan fl False doc = (t, inp)"
    "\<forall>states d t0. sax_parse_internal fl False states d t inp =
      sax_parse_internal fl True states (handle_value d (canon v)) t0 []"
    unfolding reads_def by (metis append_Nil2 delimited_simps(1))
  let ?d = "\<lparr>root = None, ref_stack = []\<rparr> :: 'a dom"
  have run: "sax_parse_internal fl False [] ?d t inp = Some (\<lparr>root = Some (canon v), ref_stack = []\<rparr>, [])"
    unfolding t(2) [rule_format, of _ _ literal_null]
    by (simp add: sax_parse_internal.simps [of fl True "[]"] sax_state_def handle_value_def)
  have "skip_bom doc = Some doc"
  proof (cases doc)
    case (Cons c cs)
    have "t \<noteq> parse_error"
      using run by (auto simp: sax_parse_internal.simps [of fl False "[]" "?d" t] sax_value_def)
    then have "c \<noteq> 0xEF"
      using t(1) Cons by (auto simp: scan_def scan_token_def skip_whitespace_def is_space_def is_digit_def word_le_nat_alt)
    then show ?thesis
      by (simp add: skip_bom_def Cons)
  qed (simp add: skip_bom_def)
  then have "scan fl True doc = (t, inp)"
    using t(1) by (simp add: scan_def)
  then show ?thesis
    using run by (simp add: parse_def scan_def scan_token_def skip_whitespace_def)
qed

text \<open>
  Property C13.  The parser reads back what the serialiser writes: whatever document is dumped,
  its text parses to that document, with the members of its objects in the
  order of \<open>std::map\<close>.
\<close>

theorem parse_dump:
  assumes "dump fl False v = Some doc" and "printable v"
  shows "parse fl doc = Some (canon v)"
  using assms by (rule parse_dump_canon)

definition sample_json :: "nat json" where
  "sample_json = json_object [(bytes_of ''tokens'', json_array [json_string (bytes_of ''q''), json_unsigned 7]), (bytes_of ''a'', json_null)]"

definition sample_floats :: "nat float_ops" where
  "sample_floats = \<lparr>strtod = length, isfinite = (\<lambda>_. True), float_chars = (\<lambda>_. [])\<rparr>"

theorem parse_dump_witness:
  "\<exists>doc. dump sample_floats False sample_json = Some doc \<and> printable sample_json \<and>
    parse sample_floats doc = Some (json_object [(bytes_of ''a'', json_null),
      (bytes_of ''tokens'', json_array [json_string (bytes_of ''q''), json_unsigned 7])])"
proof -
  have u: "utf8 (bytes_of ''tokens'')" "utf8 (bytes_of ''q'')" "utf8 (bytes_of ''a'')"
    by (simp_all add: utf8_def)
  then obtain doc where doc: "dump sample_floats False sample_json = Some doc"
    by (simp add: sample_json_def dump_escaped_eq)
  have "printable sample_json"
    by (simp add: sample_json_def)
  moreover have "canon sample_json = json_object [(bytes_of ''a'', json_null),
      (bytes_of ''tokens'', json_array [json_string (bytes_of ''q''), json_unsigned 7])]"
    by (simp add: sample_json_def)
  ultimately show ?thesis
    using parse_dump [OF doc] doc by simp
qed

end
