(* ===== verification/Db.thy ===== *)
theory Db
  imports Json_Parser Sha256 Paths
begin

text \<open>
  The encrypted files of the server, \<open>server/db.cxx\<close>: the token store, a sealed JSON document
  that is replaced atomically, and the session log, one sealed JSON row per line; and
  \<open>server/dbtool.cxx\<close>, which edits the tokens.

  The operating system and wolfSSL are parameters (\<open>db_os\<close>): system calls on a state
  \<open>'w\<close>, AES-GCM, and its random generator.  What is relied on is stated below as
  predicates on them.  JSON is that of \<open>Json_Dump\<close> and \<open>Json_Parser\<close>.
\<close>

section \<open>The system below\<close>

record 'w db_os =
  file_bytes :: "'w \<Rightarrow> string \<Rightarrow> bytes option"
  sys_open_trunc :: "'w \<Rightarrow> string \<Rightarrow> int \<times> 'w"
  sys_open_append :: "'w \<Rightarrow> string \<Rightarrow> int \<times> 'w"
  sys_open_dir :: "'w \<Rightarrow> string \<Rightarrow> int \<times> 'w"
  sys_write :: "'w \<Rightarrow> int \<Rightarrow> bytes \<Rightarrow> int \<times> 'w"
  sys_fsync :: "'w \<Rightarrow> int \<Rightarrow> int \<times> 'w"
  sys_close :: "'w \<Rightarrow> int \<Rightarrow> 'w"
  sys_rename :: "'w \<Rightarrow> string \<Rightarrow> string \<Rightarrow> int \<times> 'w"
  sys_unlink :: "'w \<Rightarrow> string \<Rightarrow> 'w"
  pid_text :: string
  rng_block :: "'w \<Rightarrow> bytes option \<times> 'w"
  aes_gcm_encrypt :: "bytes \<Rightarrow> bytes \<Rightarrow> bytes \<Rightarrow> (bytes \<times> bytes) option"
  aes_gcm_decrypt :: "bytes \<Rightarrow> bytes \<Rightarrow> bytes \<Rightarrow> bytes \<Rightarrow> bytes option"

section \<open>Sealing\<close>

definition kNonceSize :: nat where "kNonceSize = 12"
definition kTagSize :: nat where "kTagSize = 16"

definition derive_key :: "string \<Rightarrow> bytes" where
  "derive_key secret = sha256 (bytes_of secret)"

definition gcm_seal :: "'w db_os \<Rightarrow> 'w \<Rightarrow> bytes \<Rightarrow> bytes \<Rightarrow> bytes option \<times> 'w" where
  "gcm_seal os w k plain =
     (case rng_block os w of
        (None, w') \<Rightarrow> (None, w')
      | (Some nonce, w') \<Rightarrow>
          (case aes_gcm_encrypt os k nonce plain of
             None \<Rightarrow> (None, w')
           | Some (cipher, tag) \<Rightarrow> (Some (nonce @ tag @ cipher), w')))"

definition gcm_open :: "'w db_os \<Rightarrow> bytes \<Rightarrow> bytes \<Rightarrow> bytes option" where
  "gcm_open os k sealed =
     (if length sealed < kNonceSize + kTagSize then None
      else let nonce = take kNonceSize sealed;
               tag = take kTagSize (drop kNonceSize sealed);
               cipher = drop (kNonceSize + kTagSize) sealed
           in aes_gcm_decrypt os k nonce tag cipher)"

section \<open>Hexadecimal lines\<close>

definition db_digits :: string where
  "db_digits = ''0123456789abcdef''"

definition hex_encode :: "bytes \<Rightarrow> string" where
  "hex_encode bs = concat (map (\<lambda>b. [db_digits ! unat (drop_bit 4 b), db_digits ! unat (b AND 0x0F)]) bs)"

definition nibble :: "char \<Rightarrow> nat option" where
  "nibble c = (let n = of_char c :: nat in
     if 0x30 \<le> n \<and> n \<le> 0x39 then Some (n - 0x30)
     else if 0x61 \<le> n \<and> n \<le> 0x66 then Some (n - 0x61 + 10)
     else if 0x41 \<le> n \<and> n \<le> 0x46 then Some (n - 0x41 + 10)
     else None)"

fun hex_pairs :: "string \<Rightarrow> bytes option" where
  "hex_pairs (a # b # cs) =
     (case nibble a of
        None \<Rightarrow> None
      | Some hi \<Rightarrow> (case nibble b of
          None \<Rightarrow> None
        | Some lo \<Rightarrow> map_option (Cons (of_nat (push_bit 4 hi OR lo))) (hex_pairs cs)))"
| "hex_pairs _ = Some []"

definition hex_decode :: "string \<Rightarrow> bytes option" where
  "hex_decode s = (if length s mod 2 \<noteq> 0 then None else hex_pairs s)"

section \<open>The token store\<close>

definition tokens_to_json :: "'f float_ops \<Rightarrow> string list \<Rightarrow> bytes option" where
  "tokens_to_json fl tokens =
     dump fl False (json_object [(bytes_of ''tokens'', json_array (map (json_string \<circ> bytes_of) tokens))])"

fun token_strings :: "'f json list \<Rightarrow> string list option" where
  "token_strings [] = Some []"
| "token_strings (v # vs) =
     (case v of json_string s \<Rightarrow> map_option (Cons (string_of s)) (token_strings vs) | _ \<Rightarrow> None)"

definition tokens_from_json :: "'f float_ops \<Rightarrow> bytes \<Rightarrow> string + string list" where
  "tokens_from_json fl doc =
     (case parse fl doc of
        Some (json_object ms) \<Rightarrow>
          (case map_of ms (bytes_of ''tokens'') of
             None \<Rightarrow> Inr []
           | Some (json_array vs) \<Rightarrow>
               (case token_strings vs of
                  None \<Rightarrow> Inl ''token is not a string''
                | Some tokens \<Rightarrow> Inr tokens)
           | Some _ \<Rightarrow> Inl (CHR 0x22 # ''tokens'' @ CHR 0x22 # '' is not an array''))
      | _ \<Rightarrow> Inl ''malformed token json'')"

definition tokens_load :: "'f float_ops \<Rightarrow> 'w db_os \<Rightarrow> 'w \<Rightarrow> string \<Rightarrow> string \<Rightarrow> string + string list" where
  "tokens_load fl os w path secret =
     (case file_bytes os w path of
        None \<Rightarrow> Inr []
      | Some sealed \<Rightarrow>
          if sealed = [] then Inr []
          else case gcm_open os (derive_key secret) sealed of
                 None \<Rightarrow> Inl ''decrypt failed (wrong DICKER_KEY or corrupt token file)''
               | Some plain \<Rightarrow> tokens_from_json fl plain)"

text \<open>The write loop of \<open>write_file_atomic\<close>; it does not end when \<open>write\<close> keeps returning 0.\<close>

partial_function (option) write_all_bytes :: "'w db_os \<Rightarrow> 'w \<Rightarrow> int \<Rightarrow> bytes \<Rightarrow> (bool \<times> 'w) option" where
  "write_all_bytes os w fd bytes =
     (if bytes = [] then Some (True, w)
      else case sys_write os w fd bytes of
             (n, w') \<Rightarrow>
               if n < 0 then Some (False, w')
               else write_all_bytes os w' fd (drop (nat n) bytes))"

definition sync_directory :: "'w db_os \<Rightarrow> 'w \<Rightarrow> string \<Rightarrow> 'w" where
  "sync_directory os w path =
     (let parent = parent_path path;
          parent' = (if parent = [] then ''.'' else parent)
      in case sys_open_dir os w parent' of
           (dfd, w1) \<Rightarrow> if 0 \<le> dfd then sys_close os (snd (sys_fsync os w1 dfd)) dfd else w1)"

definition temp_path :: "'w db_os \<Rightarrow> string \<Rightarrow> string" where
  "temp_path os path = path @ ''.tmp.'' @ pid_text os"

text \<open>\<^const>\<open>None\<close> in the first component is success, otherwise the error text.\<close>

definition write_file_atomic :: "'w db_os \<Rightarrow> 'w \<Rightarrow> string \<Rightarrow> bytes \<Rightarrow> (string option \<times> 'w) option" where
  "write_file_atomic os w path bytes =
     (let tmp = temp_path os path
      in case sys_open_trunc os w tmp of
           (fd, w1) \<Rightarrow>
             if fd < 0 then Some (Some ''open temp failed'', w1)
             else case write_all_bytes os w1 fd bytes of
                    None \<Rightarrow> None
                  | Some (ok, w2) \<Rightarrow>
                      if \<not> ok
                      then Some (Some ''write temp failed'', sys_unlink os (sys_close os w2 fd) tmp)
                      else case sys_fsync os w2 fd of
                             (r, w3) \<Rightarrow>
                               if r \<noteq> 0
                               then Some (Some ''fsync temp failed'', sys_unlink os (sys_close os w3 fd) tmp)
                               else case sys_rename os (sys_close os w3 fd) tmp path of
                                      (r', w4) \<Rightarrow>
                                        if r' \<noteq> 0
                                        then Some (Some ''rename failed'', sys_unlink os w4 tmp)
                                        else Some (None, sync_directory os w4 path))"

text \<open>The outer \<^const>\<open>None\<close> also stands for the exception that \<open>dump\<close> throws on a token that is not UTF-8.\<close>

definition tokens_save :: "'f float_ops \<Rightarrow> 'w db_os \<Rightarrow> 'w \<Rightarrow> string \<Rightarrow> string \<Rightarrow> string list \<Rightarrow>
    (string option \<times> 'w) option" where
  "tokens_save fl os w path secret tokens =
     (case tokens_to_json fl tokens of
        None \<Rightarrow> None
      | Some plain \<Rightarrow>
          (case gcm_seal os w (derive_key secret) plain of
             (None, w') \<Rightarrow> Some (Some ''encrypt failed'', w')
           | (Some sealed, w') \<Rightarrow> write_file_atomic os w' path sealed))"

definition tokens_verify :: "string list \<Rightarrow> string \<Rightarrow> bool" where
  "tokens_verify tokens token =
     fold (\<lambda>candidate matched.
       if length candidate = length token \<and>
          constant_time_equal (bytes_of candidate) (bytes_of token) (length token)
       then True else matched) tokens False"

section \<open>The session log\<close>

record SessionInfo =
  info_ip :: string
  info_created :: u64

definition session_row_to_json :: "'f float_ops \<Rightarrow> string \<Rightarrow> string \<Rightarrow> u64 \<Rightarrow> bytes option" where
  "session_row_to_json fl session_id ip created =
     dump fl False (json_object [(bytes_of ''sessionId'', json_string (bytes_of session_id)),
       (bytes_of ''ip'', json_string (bytes_of ip)), (bytes_of ''created'', json_unsigned created)])"

definition session_row_from_json :: "'f float_ops \<Rightarrow> bytes \<Rightarrow> (bytes \<times> SessionInfo) option" where
  "session_row_from_json fl doc =
     (case parse fl doc of
        Some (json_object ms) \<Rightarrow>
          (case map_of ms (bytes_of ''sessionId'') of
             Some (json_string s) \<Rightarrow>
               Some (s, \<lparr>info_ip = (case map_of ms (bytes_of ''ip'') of Some (json_string a) \<Rightarrow> string_of a | _ \<Rightarrow> []),
                         info_created = (case map_of ms (bytes_of ''created'') of Some (json_unsigned c) \<Rightarrow> c | _ \<Rightarrow> 0)\<rparr>)
           | _ \<Rightarrow> None)
      | _ \<Rightarrow> None)"

definition session_append :: "'f float_ops \<Rightarrow> 'w db_os \<Rightarrow> 'w \<Rightarrow> string \<Rightarrow> string \<Rightarrow> string \<Rightarrow> string \<Rightarrow> u64 \<Rightarrow>
    (string option \<times> 'w) option" where
  "session_append fl os w path secret session_id ip created =
     (case session_row_to_json fl session_id ip created of
        None \<Rightarrow> None
      | Some plain \<Rightarrow>
          (case gcm_seal os w (derive_key secret) plain of
             (None, w') \<Rightarrow> Some (Some ''encrypt failed'', w')
           | (Some sealed, w') \<Rightarrow>
               let line = bytes_of (hex_encode sealed) @ [0x0A]
               in case sys_open_append os w' path of
                    (fd, w1) \<Rightarrow>
                      if fd < 0 then Some (Some ''open sessions log failed'', w1)
                      else case sys_write os w1 fd line of
                             (n, w2) \<Rightarrow>
                               if n < 0 \<or> nat n \<noteq> length line
                               then Some (Some ''append sessions log failed'', sys_close os w2 fd)
                               else Some (None, sys_close os (snd (sys_fsync os w2 fd)) fd)))"

text \<open>Successive \<open>std::getline\<close> calls until the end of the file.\<close>

function getlines :: "string \<Rightarrow> string list" where
  "getlines s =
     (if s = [] then []
      else takeWhile (\<lambda>c. c \<noteq> CHR 0x0A) s # getlines (drop 1 (dropWhile (\<lambda>c. c \<noteq> CHR 0x0A) s)))"
  by pat_completeness auto
termination
proof (relation "measure length", goal_cases)
  case (2 s)
  then show ?case
    using length_dropWhile_le [of "\<lambda>c. c \<noteq> CHR 0x0A" s] by (cases s) (auto simp: less_Suc_eq_le)
qed simp

declare getlines.simps [simp del]

definition load_line :: "'f float_ops \<Rightarrow> 'w db_os \<Rightarrow> bytes \<Rightarrow> string \<Rightarrow> (bytes \<times> SessionInfo) list \<Rightarrow>
    (bytes \<times> SessionInfo) list" where
  "load_line fl os k line sessions =
     (if line = [] then sessions
      else case hex_decode line of
             None \<Rightarrow> sessions
           | Some sealed \<Rightarrow>
               (case gcm_open os k sealed of
                  None \<Rightarrow> sessions
                | Some plain \<Rightarrow>
                    (case session_row_from_json fl plain of
                       None \<Rightarrow> sessions
                     | Some (session_id, info) \<Rightarrow> member_set session_id info sessions)))"

definition session_load_all :: "'f float_ops \<Rightarrow> 'w db_os \<Rightarrow> 'w \<Rightarrow> string \<Rightarrow> string \<Rightarrow>
    (bytes \<times> SessionInfo) list \<Rightarrow> (bytes \<times> SessionInfo) list" where
  "session_load_all fl os w path secret sessions =
     (case file_bytes os w path of
        None \<Rightarrow> sessions
      | Some content \<Rightarrow> fold (load_line fl os (derive_key secret)) (getlines (string_of content)) sessions)"

section \<open>\<open>dicker-dbtool\<close>\<close>

record DbtoolArgs =
  tool_root :: string
  tool_key :: string
  positional :: "string list"

fun dbtool_args :: "string list \<Rightarrow> DbtoolArgs \<Rightarrow> DbtoolArgs option" where
  "dbtool_args [] a = Some a"
| "dbtool_args [arg] a =
     (if arg \<noteq> [] \<and> hd arg = CHR ''-'' then None else Some (a\<lparr>positional := positional a @ [arg]\<rparr>))"
| "dbtool_args (arg # v # rest) a =
     (if arg = ''--root'' then dbtool_args rest (a\<lparr>tool_root := v\<rparr>)
      else if arg = ''--key'' then dbtool_args rest (a\<lparr>tool_key := v\<rparr>)
      else if arg \<noteq> [] \<and> hd arg = CHR ''-'' then None
      else dbtool_args (v # rest) (a\<lparr>positional := positional a @ [arg]\<rparr>))"

definition print_session :: "bytes \<times> SessionInfo \<Rightarrow> string" where
  "print_session entry =
     c_str (string_of (fst entry)) @ [CHR 0x09] @ c_str (info_ip (snd entry)) @ [CHR 0x09]
     @ string_of (dec_digits (unat (info_created (snd entry)))) @ [CHR 0x0A]"

text \<open>The exit code, what goes to \<open>stdout\<close>, and the state; \<^const>\<open>None\<close> is an uncaught exception or no return.\<close>

definition token_command :: "'f float_ops \<Rightarrow> 'w db_os \<Rightarrow> 'w \<Rightarrow> string \<Rightarrow> string \<Rightarrow> string list \<Rightarrow> string list \<Rightarrow>
    (int \<times> string \<times> 'w) option" where
  "token_command fl os w tokens_path secret args tokens =
     (let save = (\<lambda>ts. case tokens_save fl os w tokens_path secret ts of
            None \<Rightarrow> None
          | Some (err, w') \<Rightarrow> Some (if err = None then 0 else 1, [], w'))
      in if args ! 0 = ''list-tokens''
         then Some (0, concat (map (\<lambda>t. c_str t @ [CHR 0x0A]) tokens), w)
         else if args ! 0 = ''add-token'' then
           if length args < 2 then Some (1, [], w)
           else if args ! 1 \<in> set tokens then Some (0, [], w)
           else save (tokens @ [args ! 1])
         else if args ! 0 = ''del-token'' then
           if length args < 2 then Some (1, [], w)
           else let kept = filter (\<lambda>t. t \<noteq> args ! 1) tokens
                in if length kept = length tokens then Some (0, [], w) else save kept
         else Some (1, [], w))"

definition dbtool_main :: "'f float_ops \<Rightarrow> 'w db_os \<Rightarrow> 'w \<Rightarrow> string option \<Rightarrow> string list \<Rightarrow>
    (int \<times> string \<times> 'w) option" where
  "dbtool_main fl os w env_key argv =
     (case dbtool_args argv \<lparr>tool_root = [], tool_key = [], positional = []\<rparr> of
        None \<Rightarrow> Some (1, [], w)
      | Some a \<Rightarrow>
          let secret = (if tool_key a = [] then (case env_key of None \<Rightarrow> [] | Some e \<Rightarrow> e) else tool_key a);
              tokens_path = path_append (tool_root a) ''.dicker-tokens.json'';
              sessions_path = path_append (tool_root a) ''.dicker-sessions.jsonl''
          in if tool_root a = [] \<or> secret = [] \<or> positional a = [] then Some (1, [], w)
             else if positional a ! 0 = ''sessions''
             then Some (0, concat (map print_session (session_load_all fl os w sessions_path secret [])), w)
             else case tokens_load fl os w tokens_path secret of
                    Inl err \<Rightarrow> Some (1, [], w)
                  | Inr tokens \<Rightarrow> token_command fl os w tokens_path secret (positional a) tokens)"

section \<open>What is relied on\<close>

definition gcm_correct :: "'w db_os \<Rightarrow> bool" where
  "gcm_correct os \<longleftrightarrow>
     (\<forall>k nonce plain cipher tag. aes_gcm_encrypt os k nonce plain = Some (cipher, tag) \<longrightarrow>
        length tag = kTagSize \<and> aes_gcm_decrypt os k nonce tag cipher = Some plain) \<and>
     (\<forall>w nonce w'. rng_block os w = (nonce, w') \<longrightarrow>
        file_bytes os w' = file_bytes os w \<and> (\<forall>n. nonce = Some n \<longrightarrow> length n = kNonceSize))"

definition db_opens :: "'w db_os \<Rightarrow> ('w \<Rightarrow> int \<Rightarrow> string option) \<Rightarrow> bool" where
  "db_opens os file \<longleftrightarrow>
     (\<forall>w p fd w'. sys_open_trunc os w p = (fd, w') \<longrightarrow>
        (\<forall>q. q \<noteq> p \<longrightarrow> file_bytes os w' q = file_bytes os w q) \<and>
        (0 \<le> fd \<longrightarrow> file w' fd = Some p \<and> file_bytes os w' p = Some [])) \<and>
     (\<forall>w p fd w'. sys_open_append os w p = (fd, w') \<longrightarrow>
        (0 \<le> fd \<longrightarrow> file w' fd = Some p \<and>
           file_bytes os w' p = Some (case file_bytes os w p of None \<Rightarrow> [] | Some c \<Rightarrow> c))) \<and>
     (\<forall>w p. file_bytes os (snd (sys_open_dir os w p)) = file_bytes os w)"

definition db_writes :: "'w db_os \<Rightarrow> ('w \<Rightarrow> int \<Rightarrow> string option) \<Rightarrow> bool" where
  "db_writes os file \<longleftrightarrow>
     (\<forall>w fd p old data n w'. file w fd = Some p \<longrightarrow> file_bytes os w p = Some old \<longrightarrow> data \<noteq> [] \<longrightarrow>
        sys_write os w fd data = (n, w') \<longrightarrow>
        file w' fd = Some p \<and> (\<forall>q. q \<noteq> p \<longrightarrow> file_bytes os w' q = file_bytes os w q) \<and>
        (0 \<le> n \<longrightarrow> 0 < n \<and> nat n \<le> length data \<and> file_bytes os w' p = Some (old @ take (nat n) data))) \<and>
     (\<forall>w fd. file_bytes os (snd (sys_fsync os w fd)) = file_bytes os w) \<and>
     (\<forall>w fd. file_bytes os (sys_close os w fd) = file_bytes os w)"

definition db_names :: "'w db_os \<Rightarrow> bool" where
  "db_names os \<longleftrightarrow>
     (\<forall>w a b r w'. sys_rename os w a b = (r, w') \<longrightarrow>
        file_bytes os w' = (if r = 0 then (file_bytes os w)(a := None, b := file_bytes os w a) else file_bytes os w)) \<and>
     (\<forall>w p q. q \<noteq> p \<longrightarrow> file_bytes os (sys_unlink os w p) q = file_bytes os w q)"

definition db_posix :: "'w db_os \<Rightarrow> ('w \<Rightarrow> int \<Rightarrow> string option) \<Rightarrow> bool" where
  "db_posix os file \<longleftrightarrow> db_opens os file \<and> db_writes os file \<and> db_names os"

section \<open>Sealed data opens\<close>

lemma gcm_open_seal:
  assumes "gcm_correct os" and "gcm_seal os w k plain = (Some sealed, w')"
  shows "gcm_open os k sealed = Some plain" and "sealed \<noteq> []"
proof -
  from assms(2) obtain nonce cipher tag where *: "rng_block os w = (Some nonce, w')"
    "aes_gcm_encrypt os k nonce plain = Some (cipher, tag)" "sealed = nonce @ tag @ cipher"
    by (auto simp: gcm_seal_def split: prod.splits option.splits)
  then have "length nonce = kNonceSize" "length tag = kTagSize" "aes_gcm_decrypt os k nonce tag cipher = Some plain"
    using assms(1) unfolding gcm_correct_def by blast+
  with *(3) show "gcm_open os k sealed = Some plain" "sealed \<noteq> []"
    by (auto simp: gcm_open_def kNonceSize_def kTagSize_def)
qed

lemma gcm_seal_files:
  "gcm_correct os \<Longrightarrow> gcm_seal os w k plain = (r, w') \<Longrightarrow> file_bytes os w' = file_bytes os w"
  by (auto simp: gcm_seal_def gcm_correct_def split: prod.splits option.splits)

lemma nibble_digit: "i < 16 \<Longrightarrow> nibble (db_digits ! i) = Some i"
proof -
  have "\<forall>i\<in>set [0..<16]. nibble (db_digits ! i) = Some i"
    by code_simp
  then show "i < 16 \<Longrightarrow> nibble (db_digits ! i) = Some i"
    by simp
qed

lemma byte_nibbles: "of_nat (push_bit 4 (unat (drop_bit 4 b)) OR unat (b AND 0x0F)) = (b :: byte)"
proof -
  have "(b AND 0x0F) = take_bit 4 b"
    by (simp add: take_bit_eq_mask mask_eq_exp_minus_1)
  moreover have "push_bit 4 (drop_bit 4 b) OR take_bit 4 b = b"
    by (rule bit_word_eqI) (auto simp: bit_simps)
  ultimately show ?thesis
    by (simp add: of_nat_or_eq of_nat_push_bit)
qed

lemma unat_nibbles: "unat (drop_bit 4 (b :: byte)) < 16" "unat (b AND 0x0F :: byte) < 16"
proof -
  have "(b AND 0x0F) = take_bit 4 b"
    by (simp add: take_bit_eq_mask mask_eq_exp_minus_1)
  then show "unat (b AND 0x0F) < 16"
    by (simp only: unsigned_take_bit_eq) (simp add: take_bit_eq_mod)
  show "unat (drop_bit 4 b) < 16"
    by (simp only: unsigned_drop_bit_eq) (simp add: take_bit_eq_mod drop_bit_eq_div div_less_iff_less_mult)
qed

lemma length_hex_encode: "length (hex_encode bs) = 2 * length bs"
  by (induction bs) (simp_all add: hex_encode_def)

lemma hex_pairs_encode: "hex_pairs (hex_encode bs) = Some bs"
  by (induction bs) (simp_all add: hex_encode_def nibble_digit unat_nibbles byte_nibbles)

theorem hex_decode_encode: "hex_decode (hex_encode bs) = Some bs"
  by (simp add: hex_decode_def length_hex_encode hex_pairs_encode)

lemma db_digits_no_newline: "i < 16 \<Longrightarrow> db_digits ! i \<noteq> CHR 0x0A"
  using nibble_digit [of i] by (auto simp: nibble_def)

lemma hex_encode_no_newline: "CHR 0x0A \<notin> set (hex_encode bs)"
  using db_digits_no_newline unat_nibbles by (fastforce simp: hex_encode_def)

section \<open>The token store\<close>

lemma token_strings_map: "token_strings (map (json_string \<circ> bytes_of) tokens) = Some tokens"
  by (induction tokens) auto

lemma canon_strings: "map (canon \<circ> (json_string \<circ> bytes_of)) ts = map (json_string \<circ> bytes_of) ts"
  by simp

lemma tokens_from_to_json: "tokens_to_json fl tokens = Some doc \<Longrightarrow> tokens_from_json fl doc = Inr tokens"
proof -
  assume doc: "tokens_to_json fl tokens = Some doc"
  let ?v = "json_object [(bytes_of ''tokens'', json_array (map (json_string \<circ> bytes_of) tokens))]"
  have "printable ?v"
    by (simp add: list_all_iff)
  then have "parse fl doc = Some (canon ?v)"
    using doc parse_dump_canon unfolding tokens_to_json_def by blast
  then show ?thesis
    by (simp add: tokens_from_json_def token_strings_map canon_strings)
qed

lemma write_all_bytes_appends:
  assumes "db_posix os file" and "file w fd = Some p" and "file_bytes os w p = Some old"
  shows "\<exists>ok w'. write_all_bytes os w fd bs = Some (ok, w') \<and>
    (\<forall>q. q \<noteq> p \<longrightarrow> file_bytes os w' q = file_bytes os w q) \<and> (ok \<longrightarrow> file_bytes os w' p = Some (old @ bs))"
  using assms(2,3)
proof (induction bs arbitrary: w old rule: length_induct)
  case (1 bs)
  show ?case
  proof (cases "bs = []")
    case True
    with 1 show ?thesis by (auto simp: write_all_bytes.simps)
  next
    case False
    obtain n w1 where wr: "sys_write os w fd bs = (n, w1)"
      by fastforce
    have law: "file w1 fd = Some p" "\<forall>q. q \<noteq> p \<longrightarrow> file_bytes os w1 q = file_bytes os w q"
      "0 \<le> n \<Longrightarrow> 0 < n \<and> nat n \<le> length bs \<and> file_bytes os w1 p = Some (old @ take (nat n) bs)"
      using assms(1) "1.prems" False wr unfolding db_posix_def db_writes_def by blast+
    show ?thesis
    proof (cases "n < 0")
      case True
      with False wr law(2) show ?thesis by (subst write_all_bytes.simps) auto
    next
      case neg: False
      then have n: "0 < n" "nat n \<le> length bs" "file_bytes os w1 p = Some (old @ take (nat n) bs)"
        using law(3) by auto
      have "length (drop (nat n) bs) < length bs"
        using n(1) False by simp
      from "1.IH" [rule_format, OF this law(1) n(3)] obtain ok w' where
        "write_all_bytes os w1 fd (drop (nat n) bs) = Some (ok, w')"
        "\<forall>q. q \<noteq> p \<longrightarrow> file_bytes os w' q = file_bytes os w1 q" "ok \<longrightarrow> file_bytes os w' p = Some (old @ bs)"
        by auto
      with False neg wr law(2) show ?thesis
        by (subst write_all_bytes.simps) auto
    qed
  qed
qed

lemma db_posix_keeps:
  assumes "db_posix os file"
  shows "file_bytes os (snd (sys_fsync os w fd)) = file_bytes os w"
    and "file_bytes os (sys_close os w fd) = file_bytes os w"
    and "file_bytes os (snd (sys_open_dir os w p)) = file_bytes os w"
  using assms by (simp_all add: db_posix_def db_opens_def db_writes_def)

lemma sync_directory_files:
  assumes "db_posix os file"
  shows "file_bytes os (sync_directory os w path) = file_bytes os w"
proof -
  have "file_bytes os w1 = file_bytes os w" if "sys_open_dir os w p = (dfd, w1)" for p dfd w1
    using db_posix_keeps(3) [OF assms, of w p] that by simp
  then show ?thesis
    by (simp add: sync_directory_def Let_def db_posix_keeps [OF assms] split: prod.splits)
qed

theorem write_file_atomic_spec:
  assumes "db_posix os file"
  shows "\<exists>err w'. write_file_atomic os w path bs = Some (err, w') \<and>
    file_bytes os w' path = (if err = None then Some bs else file_bytes os w path)"
proof -
  let ?tmp = "temp_path os path"
  have tmp: "path \<noteq> ?tmp"
    by (simp add: temp_path_def)
  obtain fd w1 where op: "sys_open_trunc os w ?tmp = (fd, w1)"
    by fastforce
  have o: "file_bytes os w1 path = file_bytes os w path"
    "0 \<le> fd \<Longrightarrow> file w1 fd = Some ?tmp \<and> file_bytes os w1 ?tmp = Some []"
    using assms op tmp unfolding db_posix_def db_opens_def by blast+
  have unlink: "file_bytes os (sys_unlink os w ?tmp) path = file_bytes os w path" for w
    using assms tmp unfolding db_posix_def db_names_def by blast
  note keep = db_posix_keeps [OF assms]
  show ?thesis
  proof (cases "fd < 0")
    case True
    with op o show ?thesis by (simp add: write_file_atomic_def)
  next
    case False
    then have "file w1 fd = Some ?tmp" "file_bytes os w1 ?tmp = Some []"
      using o(2) by auto
    from write_all_bytes_appends [OF assms this, of bs] obtain ok w2 where
      wr: "write_all_bytes os w1 fd bs = Some (ok, w2)" "file_bytes os w2 path = file_bytes os w1 path"
      "ok \<longrightarrow> file_bytes os w2 ?tmp = Some bs"
      using tmp by auto
    obtain r w3 where fs: "sys_fsync os w2 fd = (r, w3)"
      by fastforce
    have w3: "file_bytes os w3 = file_bytes os w2"
      using db_posix_keeps(1) [OF assms, of w2 fd] fs by simp
    obtain r' w4 where rn: "sys_rename os (sys_close os w3 fd) ?tmp path = (r', w4)"
      by fastforce
    have w4: "file_bytes os w4 = (if r' = 0 then (file_bytes os (sys_close os w3 fd))(?tmp := None, path := file_bytes os (sys_close os w3 fd) ?tmp)
       else file_bytes os (sys_close os w3 fd))"
      using assms rn unfolding db_posix_def db_names_def by blast
    show ?thesis
      using False op wr fs rn o w3 w4
      by (simp add: write_file_atomic_def Let_def keep unlink sync_directory_files [OF assms])
  qed
qed


lemma tokens_save_stores:
  assumes "gcm_correct os" and "db_posix os file" and "tokens_save fl os w path secret tokens = Some (err, w')"
  shows "tokens_load fl os w' path secret = (if err = None then Inr tokens else tokens_load fl os w path secret)"
proof -
  from assms(3) obtain plain where plain: "tokens_to_json fl tokens = Some plain"
    by (auto simp: tokens_save_def split: option.splits)
  obtain r w1 where seal: "gcm_seal os w (derive_key secret) plain = (r, w1)"
    by fastforce
  note files = gcm_seal_files [OF assms(1) seal]
  show ?thesis
  proof (cases r)
    case None
    with assms(3) plain seal files show ?thesis
      by (auto simp: tokens_save_def tokens_load_def)
  next
    case (Some sealed)
    note opens = gcm_open_seal [OF assms(1) seal [unfolded Some]]
    from write_file_atomic_spec [OF assms(2), of w1 path sealed] Some assms(3) plain seal files opens
    show ?thesis
      by (auto simp: tokens_save_def tokens_load_def tokens_from_to_json)
  qed
qed

lemma tokens_to_json_utf8: "tokens_to_json fl tokens \<noteq> None \<longleftrightarrow> list_all (\<lambda>t. utf8 (bytes_of t)) tokens"
proof -
  have "dump_array fl False (map (json_string \<circ> bytes_of) tokens) \<noteq> None \<longleftrightarrow> list_all (\<lambda>t. utf8 (bytes_of t)) tokens"
    by (induction tokens) (auto simp: dump_escaped_eq split: Option.bind_splits)
  then show ?thesis
    by (auto simp: tokens_to_json_def dump_escaped_eq utf8_def split: Option.bind_splits)
qed

lemma tokens_verify_mem: "tokens_verify tokens token \<longleftrightarrow> token \<in> set tokens"
proof -
  have same: "length c = length token \<and> constant_time_equal (bytes_of c) (bytes_of token) (length token) \<longleftrightarrow> c = token" for c
    by (subst bytes_of_eq_iff [symmetric])
      (auto simp: constant_time_equal_nth list_eq_iff_nth_eq simp del: bytes_of_eq_iff)
  have "fold (\<lambda>c matched. if c = token then True else matched) tokens m \<longleftrightarrow> m \<or> token \<in> set tokens" for m
    by (induction tokens arbitrary: m) auto
  then show ?thesis
    by (simp add: tokens_verify_def same)
qed

section \<open>The session log\<close>

lemma char_of_newline [simp]: "char_of (10 :: nat) = CHR 0x0A"
  by code_simp

definition terminated :: "string \<Rightarrow> bool" where
  "terminated s \<longleftrightarrow> s = [] \<or> last s = CHR 0x0A"

lemma getlines_append: "terminated a \<Longrightarrow> getlines (a @ b) = getlines a @ getlines b"
proof (induction a rule: getlines.induct)
  case (1 a)
  let ?P = "\<lambda>c. c \<noteq> CHR 0x0A"
  show ?case
  proof (cases "a = []")
    case True
    then show ?thesis by (simp add: getlines.simps [of "[]"])
  next
    case False
    with "1.prems" have mem: "CHR 0x0A \<in> set a" "last a = CHR 0x0A"
      using last_in_set [of a] by (auto simp: terminated_def)
    let ?r = "drop 1 (dropWhile ?P a)"
    have tw: "takeWhile ?P (a @ b) = takeWhile ?P a" "dropWhile ?P (a @ b) = dropWhile ?P a @ b"
      using mem(1) by auto
    have ne: "dropWhile ?P a \<noteq> []"
      using mem(1) by auto
    obtain x xs where d: "dropWhile ?P a = x # xs"
      using ne by (meson neq_Nil_conv)
    have "last (x # xs) = CHR 0x0A"
      using mem(2) unfolding d [symmetric] by (metis ne last_appendR takeWhile_dropWhile_id)
    then have "terminated ?r"
      unfolding d by (simp add: terminated_def split: if_splits)
    with "1.IH" [OF False] have "getlines (xs @ b) = getlines xs @ getlines b"
      unfolding d by simp
    then show ?thesis
      using False by (simp only: getlines.simps [of "a @ b"] getlines.simps [of a] tw d) simp
  qed
qed

lemma getlines_line:
  assumes "CHR 0x0A \<notin> set line"
  shows "getlines (line @ [CHR 0x0A]) = [line]"
proof -
  have "takeWhile (\<lambda>c. c \<noteq> CHR 0x0A) (line @ [CHR 0x0A]) = line"
    "dropWhile (\<lambda>c. c \<noteq> CHR 0x0A) (line @ [CHR 0x0A]) = [CHR 0x0A]"
    using assms by (induction line) auto
  then show ?thesis
    by (simp only: getlines.simps [of "line @ [CHR 0x0A]"]) (simp add: getlines.simps [of "[]"])
qed

lemma session_row_round:
  assumes "session_row_to_json fl session_id ip created = Some doc"
  shows "session_row_from_json fl doc = Some (bytes_of session_id, \<lparr>info_ip = ip, info_created = created\<rparr>)"
proof -
  let ?v = "json_object [(bytes_of ''sessionId'', json_string (bytes_of session_id)),
       (bytes_of ''ip'', json_string (bytes_of ip)), (bytes_of ''created'', json_unsigned created)]"
  have "parse fl doc = Some (canon ?v)"
    by (rule parse_dump_canon) (use assms in \<open>simp_all add: session_row_to_json_def\<close>)
  then show ?thesis
    by (simp add: session_row_from_json_def map_of_member_set)
qed

text \<open>What a sealed line adds to the sessions that were read before it.\<close>

lemma load_line_sealed:
  assumes "gcm_correct os" and "session_row_to_json fl session_id ip created = Some plain"
    and "gcm_seal os w k plain = (Some sealed, w')"
  shows "load_line fl os k (hex_encode sealed) sessions =
    member_set (bytes_of session_id) \<lparr>info_ip = ip, info_created = created\<rparr> sessions"
proof -
  have "hex_encode sealed \<noteq> []"
    using gcm_open_seal(2) [OF assms(1,3)] length_hex_encode [of sealed] by fastforce
  then show ?thesis
    using gcm_open_seal(1) [OF assms(1,3)] session_row_round [OF assms(2)]
    by (simp add: load_line_def hex_decode_encode)
qed

lemma session_append_stores:
  assumes "gcm_correct os" and "db_posix os file"
    and "session_append fl os w path secret session_id ip created = Some (None, w')"
  shows "\<exists>plain sealed w1. session_row_to_json fl session_id ip created = Some plain \<and>
    gcm_seal os w (derive_key secret) plain = (Some sealed, w1) \<and>
    file_bytes os w' path =
      Some ((case file_bytes os w path of None \<Rightarrow> [] | Some c \<Rightarrow> c) @ bytes_of (hex_encode sealed) @ [0x0A])"
proof -
  from assms(3) obtain plain where plain: "session_row_to_json fl session_id ip created = Some plain"
    by (auto simp: session_append_def split: option.splits)
  obtain r w1 where seal: "gcm_seal os w (derive_key secret) plain = (r, w1)"
    by fastforce
  with assms(3) plain obtain sealed where r: "r = Some sealed"
    by (cases r) (auto simp: session_append_def)
  let ?line = "bytes_of (hex_encode sealed) @ [0x0A]"
  obtain fd w2 where op: "sys_open_append os w1 path = (fd, w2)"
    by fastforce
  obtain n w3 where wr: "sys_write os w2 fd ?line = (n, w3)"
    by fastforce
  have ok: "0 \<le> fd" "0 \<le> n" "nat n = length ?line" "w' = sys_close os (snd (sys_fsync os w3 fd)) fd"
    using assms(3) plain seal r op wr by (auto simp: session_append_def Let_def split: if_splits)
  have o: "file w2 fd = Some path" "file_bytes os w2 path = Some (case file_bytes os w1 path of None \<Rightarrow> [] | Some c \<Rightarrow> c)"
    using assms(2) op ok(1) unfolding db_posix_def db_opens_def by blast+
  have "?line \<noteq> []"
    by simp
  with o wr ok(2) have "file_bytes os w3 path =
      Some ((case file_bytes os w1 path of None \<Rightarrow> [] | Some c \<Rightarrow> c) @ take (nat n) ?line)"
    using assms(2) unfolding db_posix_def db_writes_def by blast
  then show ?thesis
    using plain seal r ok(3,4) gcm_seal_files [OF assms(1) seal]
    by (simp add: db_posix_keeps [OF assms(2)])
qed


lemma session_append_loads:
  assumes "gcm_correct os" and "db_posix os file"
    and "session_append fl os w path secret session_id ip created = Some (None, w')"
    and "file_bytes os w path = None \<or> file_bytes os w path = Some (bytes_of content) \<and> terminated content"
  shows "session_load_all fl os w' path secret [] =
    member_set (bytes_of session_id) \<lparr>info_ip = ip, info_created = created\<rparr>
      (session_load_all fl os w path secret [])"
proof -
  from session_append_stores [OF assms(1-3)] obtain plain sealed w1 where
    *: "session_row_to_json fl session_id ip created = Some plain"
    "gcm_seal os w (derive_key secret) plain = (Some sealed, w1)"
    "file_bytes os w' path =
      Some ((case file_bytes os w path of None \<Rightarrow> [] | Some c \<Rightarrow> c) @ bytes_of (hex_encode sealed) @ [0x0A])"
    by blast
  define before where "before = (case file_bytes os w path of None \<Rightarrow> [] | Some c \<Rightarrow> string_of c)"
  have "terminated before"
    using assms(4) by (auto simp: before_def terminated_def)
  then have "getlines (before @ hex_encode sealed @ [CHR 0x0A]) = getlines before @ [hex_encode sealed]"
    by (simp add: getlines_append getlines_line hex_encode_no_newline)
  moreover have "string_of (bytes_of before @ bytes_of (hex_encode sealed) @ [0x0A]) = before @ hex_encode sealed @ [CHR 0x0A]"
    by simp
  moreover have "file_bytes os w' path = Some (bytes_of before @ bytes_of (hex_encode sealed) @ [0x0A])"
    using *(3) by (simp add: before_def split: option.splits)
  moreover have "session_load_all fl os w path secret [] = fold (load_line fl os (derive_key secret)) (getlines before) []"
    by (auto simp: session_load_all_def before_def getlines.simps [of "[]"] split: option.splits)
  ultimately show ?thesis
    using load_line_sealed [OF assms(1) *(1,2)] by (simp add: session_load_all_def)
qed

lemma session_append_torn:
  assumes "gcm_correct os" and "db_posix os file"
    and "session_append fl os w path secret session_id ip created = Some (None, w')"
    and "file_bytes os w path = Some (bytes_of (content @ torn))" and "terminated content"
    and "CHR 0x0A \<notin> set torn" and "odd (length torn)"
  shows "session_load_all fl os w' path secret [] =
    fold (load_line fl os (derive_key secret)) (getlines content) []"
proof -
  from session_append_stores [OF assms(1-3)] obtain sealed where
    *: "file_bytes os w' path = Some (bytes_of (content @ torn) @ bytes_of (hex_encode sealed) @ [0x0A])"
    using assms(4) by auto
  have "string_of (bytes_of (content @ torn) @ bytes_of (hex_encode sealed) @ [0x0A]) =
      content @ (torn @ hex_encode sealed) @ [CHR 0x0A]"
    by simp
  then have "getlines (string_of (bytes_of (content @ torn) @ bytes_of (hex_encode sealed) @ [0x0A])) =
      getlines content @ [torn @ hex_encode sealed]"
    using assms(5,6) getlines_line [of "torn @ hex_encode sealed"] hex_encode_no_newline [of sealed]
    by (simp add: getlines_append)
  moreover have "load_line fl os k (torn @ hex_encode sealed) sessions = sessions" for k sessions
    using assms(7) [unfolded odd_iff_mod_2_eq_one] by (simp add: load_line_def hex_decode_def length_hex_encode)
  ultimately show ?thesis
    by (simp add: session_load_all_def *)
qed


section \<open>A file system in memory\<close>

record MemDb =
  db_content :: "string \<Rightarrow> bytes option"
  db_fds :: "int \<Rightarrow> string option"

definition mem_db_os :: "MemDb db_os" where
  "mem_db_os = \<lparr>
     file_bytes = db_content,
     sys_open_trunc = (\<lambda>w p. (3, w\<lparr>db_content := (db_content w)(p \<mapsto> []), db_fds := (db_fds w)(3 \<mapsto> p)\<rparr>)),
     sys_open_append = (\<lambda>w p. (3, w\<lparr>db_content := (db_content w)(p \<mapsto> (case db_content w p of None \<Rightarrow> [] | Some c \<Rightarrow> c)),
       db_fds := (db_fds w)(3 \<mapsto> p)\<rparr>)),
     sys_open_dir = (\<lambda>w p. (-1, w)),
     sys_write = (\<lambda>w fd data. case db_fds w fd of
         None \<Rightarrow> (-1, w)
       | Some p \<Rightarrow> (int (length data), w\<lparr>db_content := (db_content w)(p := map_option (\<lambda>c. c @ data) (db_content w p))\<rparr>)),
     sys_fsync = (\<lambda>w fd. (0, w)),
     sys_close = (\<lambda>w fd. w\<lparr>db_fds := (db_fds w)(fd := None)\<rparr>),
     sys_rename = (\<lambda>w a b. (0, w\<lparr>db_content := (db_content w)(a := None, b := db_content w a)\<rparr>)),
     sys_unlink = (\<lambda>w p. w\<lparr>db_content := (db_content w)(p := None)\<rparr>),
     pid_text = ''7'',
     rng_block = (\<lambda>w. (Some (replicate 12 0), w)),
     aes_gcm_encrypt = (\<lambda>k nonce plain. Some (plain, replicate 16 0)),
     aes_gcm_decrypt = (\<lambda>k nonce tag cipher. Some cipher)\<rparr>"

definition mem_db :: MemDb where
  "mem_db = \<lparr>db_content = Map.empty, db_fds = Map.empty\<rparr>"

lemma mem_db_gcm: "gcm_correct mem_db_os"
  by (simp add: gcm_correct_def mem_db_os_def kNonceSize_def kTagSize_def)

lemma mem_db_posix: "db_posix mem_db_os db_fds"
proof -
  have "db_opens mem_db_os db_fds" "db_names mem_db_os"
    by (auto simp: db_opens_def db_names_def mem_db_os_def)
  moreover have "db_writes mem_db_os db_fds"
    by (auto simp: db_writes_def mem_db_os_def)
  ultimately show ?thesis
    by (simp add: db_posix_def)
qed

section \<open>Properties\<close>



text \<open>Property C16.  The constant-time search accepts exactly the tokens of the store.\<close>

theorem tokens_verify_iff: "tokens_verify tokens token \<longleftrightarrow> token \<in> set tokens"
  by (rule tokens_verify_mem)

text \<open>
  Property C17.  A session appended to a log whose last line is complete is in the log:
  loading it gives what it gave before, with the new row set (a later row wins).
\<close>

theorem session_log_round_trip:
  assumes "gcm_correct os" and "db_posix os file"
    and "session_append fl os w path secret session_id ip created = Some (None, w')"
    and "file_bytes os w path = None \<or> file_bytes os w path = Some (bytes_of content) \<and> terminated content"
  shows "session_load_all fl os w' path secret [] =
    member_set (bytes_of session_id) \<lparr>info_ip = ip, info_created = created\<rparr>
      (session_load_all fl os w path secret [])"
  using assms by (rule session_append_loads)

theorem session_log_round_trip_witness:
  "\<exists>w'. session_append sample_floats mem_db_os mem_db ''s'' ''k'' ''5e'' ''::1'' 9 = Some (None, w') \<and>
    session_load_all sample_floats mem_db_os w' ''s'' ''k'' [] =
      [(bytes_of ''5e'', \<lparr>info_ip = ''::1'', info_created = 9\<rparr>)]"
proof -
  have "utf8 (bytes_of ''sessionId'')" "utf8 (bytes_of ''ip'')" "utf8 (bytes_of ''created'')"
    "utf8 (bytes_of ''5e'')" "utf8 (bytes_of ''::1'')"
    by (simp_all add: utf8_def)
  then obtain w' where run: "session_append sample_floats mem_db_os mem_db ''s'' ''k'' ''5e'' ''::1'' 9 = Some (None, w')"
    by (auto simp: session_append_def session_row_to_json_def dump_escaped_eq gcm_seal_def mem_db_os_def mem_db_def Let_def)
  have none: "file_bytes mem_db_os mem_db ''s'' = None"
    by (simp add: mem_db_os_def mem_db_def)
  then have "session_load_all sample_floats mem_db_os mem_db ''s'' ''k'' [] = []"
    by (simp add: session_load_all_def)
  with session_log_round_trip [OF mem_db_gcm mem_db_posix run disjI1 [OF none]] run show ?thesis
    by simp
qed

text \<open>
  Property C18.  Behind a torn last line (a partial write of an odd number of characters) an append
  reports success and loses its row: the line it completes is not a row, and the log loads as
  if only the complete lines were there.
\<close>

theorem session_lost_behind_torn_line:
  assumes "gcm_correct os" and "db_posix os file"
    and "session_append fl os w path secret session_id ip created = Some (None, w')"
    and "file_bytes os w path = Some (bytes_of (content @ torn))" and "terminated content"
    and "CHR 0x0A \<notin> set torn" and "odd (length torn)"
  shows "session_load_all fl os w' path secret [] =
    fold (load_line fl os (derive_key secret)) (getlines content) []"
  using assms by (rule session_append_torn)

theorem session_lost_behind_torn_line_witness:
  "\<exists>w'. session_append sample_floats mem_db_os (mem_db\<lparr>db_content := [''s'' \<mapsto> bytes_of ''a'']\<rparr>) ''s'' ''k'' ''5e'' ''::1'' 9 =
      Some (None, w') \<and> session_load_all sample_floats mem_db_os w' ''s'' ''k'' [] = []"
proof -
  let ?w = "mem_db\<lparr>db_content := [''s'' \<mapsto> bytes_of ''a'']\<rparr>"
  have "utf8 (bytes_of ''sessionId'')" "utf8 (bytes_of ''ip'')" "utf8 (bytes_of ''created'')"
    "utf8 (bytes_of ''5e'')" "utf8 (bytes_of ''::1'')"
    by (simp_all add: utf8_def)
  then obtain w' where run: "session_append sample_floats mem_db_os ?w ''s'' ''k'' ''5e'' ''::1'' 9 = Some (None, w')"
    by (auto simp: session_append_def session_row_to_json_def dump_escaped_eq gcm_seal_def mem_db_os_def mem_db_def Let_def)
  have "file_bytes mem_db_os ?w ''s'' = Some (bytes_of ([] @ ''a''))"
    by (simp add: mem_db_os_def)
  from session_lost_behind_torn_line [OF mem_db_gcm mem_db_posix run this] run show ?thesis
    by (simp add: terminated_def getlines.simps [of "[]"])
qed

lemma token_command_effect:
  assumes "gcm_correct os" and "db_posix os file" and "tokens_load fl os w path k = Inr tokens"
    and "token_command fl os w path k [cmd, t] tokens = Some (0, out, w')"
  shows "cmd = ''add-token'' \<Longrightarrow> \<exists>ts. tokens_load fl os w' path k = Inr ts \<and> t \<in> set ts"
    and "cmd = ''del-token'' \<Longrightarrow> \<exists>ts. tokens_load fl os w' path k = Inr ts \<and> t \<notin> set ts"
proof -
  assume cmd: "cmd = ''add-token''"
  show "\<exists>ts. tokens_load fl os w' path k = Inr ts \<and> t \<in> set ts"
  proof (cases "t \<in> set tokens")
    case True
    with assms(3,4) cmd show ?thesis by (auto simp: token_command_def)
  next
    case False
    with assms(4) cmd have "tokens_save fl os w path k (tokens @ [t]) = Some (None, w')"
      by (auto simp: token_command_def split: option.splits if_splits)
    from tokens_save_stores [OF assms(1,2) this] show ?thesis by simp
  qed
next
  assume cmd: "cmd = ''del-token''"
  let ?kept = "filter (\<lambda>s. s \<noteq> t) tokens"
  show "\<exists>ts. tokens_load fl os w' path k = Inr ts \<and> t \<notin> set ts"
  proof (cases "length ?kept = length tokens")
    case True
    then have "t \<notin> set tokens"
      by (metis (mono_tags, lifting) filter_True length_filter_less less_irrefl)
    with True assms(3,4) cmd show ?thesis by (auto simp: token_command_def)
  next
    case False
    with assms(4) cmd have "tokens_save fl os w path k ?kept = Some (None, w')"
      by (auto simp: token_command_def Let_def split: option.splits if_splits)
    from tokens_save_stores [OF assms(1,2) this] show ?thesis by simp
  qed
qed

lemma dbtool_stores:
  assumes "gcm_correct os" and "db_posix os file" and "r \<noteq> []" and "k \<noteq> []"
    and "cmd = ''add-token'' \<or> cmd = ''del-token''"
    and "dbtool_main fl os w None [''--root'', r, ''--key'', k, cmd, t] = Some (0, out, w')"
  shows "\<exists>ts. tokens_load fl os w' (path_append r ''.dicker-tokens.json'') k = Inr ts \<and>
    (tokens_verify ts t \<longleftrightarrow> cmd = ''add-token'')"
proof -
  from assms(5) have args: "dbtool_args [''--root'', r, ''--key'', k, cmd, t] \<lparr>tool_root = [], tool_key = [], positional = []\<rparr> =
      (if t \<noteq> [] \<and> hd t = CHR ''-'' then None
       else Some \<lparr>tool_root = r, tool_key = k, positional = [cmd, t]\<rparr>)"
    by (elim disjE) simp_all
  with assms(6) have t: "\<not> (t \<noteq> [] \<and> hd t = CHR ''-'')"
    by (auto simp: dbtool_main_def simp del: dbtool_args.simps)
  let ?path = "path_append r ''.dicker-tokens.json''"
  from assms(3-6) t obtain tokens where load: "tokens_load fl os w ?path k = Inr tokens"
    and cmd: "token_command fl os w ?path k [cmd, t] tokens = Some (0, out, w')"
    by (auto simp: dbtool_main_def args Let_def simp del: dbtool_args.simps split: sum.splits)
  from assms(5) show ?thesis
  proof
    assume c: "cmd = ''add-token''"
    from token_command_effect(1) [OF assms(1,2) load cmd c] show ?thesis
      unfolding tokens_verify_mem using c by blast
  next
    assume c: "cmd = ''del-token''"
    then have "cmd \<noteq> ''add-token''"
      by simp
    with token_command_effect(2) [OF assms(1,2) load cmd c] show ?thesis
      unfolding tokens_verify_mem by blast
  qed
qed



end
