(* ===== verification/Server_Core.thy ===== *)
theory Server_Core
  imports Server_Consumer Db
begin

text \<open>
  The state of the server shared by its connections, \<open>server/server.h\<close> and \<open>server/server.cxx\<close>:
  the configuration, the filter of accept mode, the sinks of the open sessions, and the ids of
  the sessions in the log.  The operating system is the two parameters of the components below
  (\<open>db_os\<close> and \<open>uv_fs\<close>, on one state), the clock and a test for directories; they are kept together in a \<open>host\<close>.
\<close>

datatype ProbeHash = ProbeHash_none | ProbeHash_blake3

record ServerConfig =
  config_key :: string
  config_root :: string
  channel_high_water :: nat
  channel_low_water :: nat
  default_routes :: bool

record Server =
  config :: ServerConfig
  server_filter :: "(ProbeInfo \<Rightarrow> bool) option"
  server_probe_hash :: ProbeHash
  sinks :: "string \<rightharpoonup> FileSink"
  tokens_path :: string
  sessions_path :: string
  logged_sessions :: "string set"

record ('f, 'w) host =
  host_floats :: "'f float_ops"
  host_db :: "'w db_os"
  host_fs :: "'w uv_fs"
  host_time :: "'w \<Rightarrow> u64"
  is_directory :: "'w \<Rightarrow> string \<Rightarrow> bool"

definition load_sessions :: "('f, 'w) host \<Rightarrow> 'w \<Rightarrow> Server \<Rightarrow> (bytes \<times> SessionInfo) list" where
  "load_sessions h w srv =
     session_load_all (host_floats h) (host_db h) w (sessions_path srv) (config_key (config srv)) []"

text \<open>The constructor, without the report on the token store it logs.\<close>

definition server_new :: "('f, 'w) host \<Rightarrow> 'w \<Rightarrow> ServerConfig \<Rightarrow> Server" where
  "server_new h w cfg =
     (let srv = \<lparr>config = cfg, server_filter = None, server_probe_hash = ProbeHash_none, sinks = Map.empty,
            tokens_path = path_append (config_root cfg) ''.dicker-tokens.json'',
            sessions_path = path_append (config_root cfg) ''.dicker-sessions.jsonl'',
            logged_sessions = {}\<rparr>
      in srv\<lparr>logged_sessions := set (map (\<lambda>entry. string_of (fst entry)) (load_sessions h w srv))\<rparr>)"

definition set_filter :: "(ProbeInfo \<Rightarrow> bool) \<Rightarrow> ProbeHash \<Rightarrow> Server \<Rightarrow> Server" where
  "set_filter callback hash srv = srv\<lparr>server_filter := Some callback, server_probe_hash := hash\<rparr>"

definition mode_for :: "Server \<Rightarrow> u16 \<Rightarrow> byte" where
  "mode_for srv ver =
     (if ver < 2 \<or> server_filter srv = None then 0
      else let mode = byte_of_mode ModeAccept
           in if server_probe_hash srv = ProbeHash_blake3 then mode OR byte_of_mode HashFirst else mode)"

definition verify_token :: "('f, 'w) host \<Rightarrow> 'w \<Rightarrow> Server \<Rightarrow> string \<Rightarrow> bool" where
  "verify_token h w srv token =
     (case tokens_load (host_floats h) (host_db h) w (tokens_path srv) (config_key (config srv)) of
        Inl err \<Rightarrow> False
      | Inr tokens \<Rightarrow> tokens_verify tokens token)"

text \<open>\<^const>\<open>None\<close> is the exception of a dump of text that is not UTF-8.\<close>

definition record_session :: "('f, 'w) host \<Rightarrow> Server \<times> 'w \<Rightarrow> string \<Rightarrow> string \<Rightarrow> (Server \<times> 'w) option" where
  "record_session h sw hx ip =
     (case sw of (srv, w) \<Rightarrow>
        if hx \<in> logged_sessions srv then Some (srv, w)
        else case session_append (host_floats h) (host_db h) w (sessions_path srv) (config_key (config srv))
                    hx ip (host_time h w) of
               None \<Rightarrow> None
             | Some (None, w') \<Rightarrow> Some (srv\<lparr>logged_sessions := insert hx (logged_sessions srv)\<rparr>, w')
             | Some (Some err, w') \<Rightarrow> Some (srv, w'))"

text \<open>The key of the shared sink in \<open>sinks\<close>, or \<^const>\<open>None\<close> when the session directory cannot be made.\<close>

definition get_or_create_sink :: "('f, 'w) host \<Rightarrow> Server \<times> 'w \<Rightarrow> bytes \<Rightarrow> string option \<times> Server \<times> 'w" where
  "get_or_create_sink h sw sid =
     (case sw of (srv, w) \<Rightarrow>
        let hex_id = session_id_to_hex sid
        in case sinks srv hex_id of
             Some existing \<Rightarrow> (Some hex_id, srv, w)
           | None \<Rightarrow>
               let root = path_append (config_root (config srv)) hex_id;
                   (error, w') = create_directories (host_fs h) w root
               in if error \<and> \<not> fs_exists (host_fs h) w' root then (None, srv, w')
                  else (Some hex_id, srv\<lparr>sinks := (sinks srv)(hex_id \<mapsto> \<lparr>session_root = root, chunk_files = []\<rparr>)\<rparr>, w'))"

section \<open>Modes\<close>

lemma mode_for_accept: "has_mode (mode_for srv ver) ModeAccept \<longleftrightarrow> 2 \<le> ver \<and> server_filter srv \<noteq> None"
  by (auto simp: mode_for_def has_mode_def Let_def)

lemma mode_for_hash:
  "has_mode (mode_for srv ver) HashFirst \<longleftrightarrow>
    2 \<le> ver \<and> server_filter srv \<noteq> None \<and> server_probe_hash srv = ProbeHash_blake3"
  by (auto simp: mode_for_def has_mode_def Let_def)

section \<open>The sinks\<close>

text \<open>Every sink writes below the root, in the directory named by its key.\<close>

definition sinks_ok :: "Server \<Rightarrow> bool" where
  "sinks_ok srv \<longleftrightarrow> (\<forall>k snk. sinks srv k = Some snk \<longrightarrow> session_root snk = path_append (config_root (config srv)) k)"

lemma sinks_ok_new: "sinks_ok (server_new h w cfg)"
  by (simp add: sinks_ok_def server_new_def Let_def)

lemma get_or_create_sink_ok:
  assumes "sinks_ok srv" and "get_or_create_sink h (srv, w) sid = (Some k, srv', w')"
  shows "sinks_ok srv'" and "k = session_id_to_hex sid" and "config srv' = config srv"
    and "\<exists>snk. sinks srv' k = Some snk \<and> session_root snk = path_append (config_root (config srv)) k"
  using assms by (auto simp: get_or_create_sink_def sinks_ok_def Let_def split: option.splits prod.splits if_splits)

section \<open>The session log\<close>

text \<open>An append writes the whole line or leaves the file as it was; so does an open that fails.\<close>

definition whole_appends :: "'w db_os \<Rightarrow> bool" where
  "whole_appends os \<longleftrightarrow>
     (\<forall>w p fd w'. sys_open_append os w p = (fd, w') \<longrightarrow> fd < 0 \<longrightarrow> file_bytes os w' = file_bytes os w) \<and>
     (\<forall>w fd data n w'. sys_write os w fd data = (n, w') \<longrightarrow>
        n = int (length data) \<or> n < 0 \<and> file_bytes os w' = file_bytes os w)"

definition log_text :: "'w db_os \<Rightarrow> 'w \<Rightarrow> string \<Rightarrow> string" where
  "log_text os w path = (case file_bytes os w path of None \<Rightarrow> [] | Some c \<Rightarrow> string_of c)"

lemma load_all_text:
  "session_load_all fl os w path secret [] = fold (load_line fl os (derive_key secret)) (getlines (log_text os w path)) []"
  by (auto simp: session_load_all_def log_text_def getlines.simps [of "[]"] split: option.splits)

lemma session_append_outcome:
  assumes "gcm_correct os" and "db_posix os file" and "whole_appends os" and "terminated (log_text os w path)"
    and "session_append fl os w path secret hx ip created = Some (err, w')"
  shows "terminated (log_text os w' path) \<and> session_load_all fl os w' path secret [] =
    (if err = None
     then member_set (bytes_of hx) \<lparr>info_ip = ip, info_created = created\<rparr> (session_load_all fl os w path secret [])
     else session_load_all fl os w path secret [])"
proof (cases err)
  case None
  have "file_bytes os w path = None \<or> file_bytes os w path = Some (bytes_of (log_text os w path)) \<and> terminated (log_text os w path)"
    using assms(4) by (cases "file_bytes os w path") (simp_all add: log_text_def)
  from session_append_loads [OF assms(1,2) assms(5) [unfolded None] this]
    session_append_stores [OF assms(1,2) assms(5) [unfolded None]]
  show ?thesis
    by (auto simp: None log_text_def terminated_def)
next
  case (Some e)
  have "log_text os w' path = log_text os w path"
  proof -
    from assms(5) obtain plain where plain: "session_row_to_json fl hx ip created = Some plain"
      by (auto simp: session_append_def split: option.splits)
    obtain r w1 where seal: "gcm_seal os w (derive_key secret) plain = (r, w1)"
      by fastforce
    note w1 = gcm_seal_files [OF assms(1) seal]
    obtain fd w2 where op: "sys_open_append os w1 path = (fd, w2)"
      by fastforce
    show ?thesis
    proof (cases r)
      case None
      with assms(5) plain seal w1 show ?thesis
        by (simp add: session_append_def log_text_def)
    next
      case sealed: (Some sealed)
      let ?line = "bytes_of (hex_encode sealed) @ [0x0A]"
      obtain n w3 where wr: "sys_write os w2 fd ?line = (n, w3)"
        by fastforce
      show ?thesis
      proof (cases "fd < 0")
        case True
        with op have "file_bytes os w2 = file_bytes os w1"
          using assms(3) unfolding whole_appends_def by blast
        with True assms(5) plain seal sealed op w1 show ?thesis
          by (simp add: session_append_def log_text_def)
      next
        case False
        then have o: "file_bytes os w2 path = Some (case file_bytes os w1 path of None \<Rightarrow> [] | Some c \<Rightarrow> c)"
          using assms(2) op unfolding db_posix_def db_opens_def by fastforce
        have "n = int (length ?line) \<or> n < 0 \<and> file_bytes os w3 = file_bytes os w2"
          using assms(3) wr unfolding whole_appends_def by blast
        moreover have n: "n < 0 \<or> nat n \<noteq> length ?line" "w' = sys_close os w3 fd"
          using assms(5) plain seal sealed op wr False Some
          by (auto simp: session_append_def Let_def split: if_splits)
        ultimately have "file_bytes os w3 = file_bytes os w2"
          by auto
        then show ?thesis
          using o w1 n(2) by (simp add: log_text_def db_posix_keeps [OF assms(2)] split: option.splits)
      qed
    qed
  qed
  with assms(4) Some show ?thesis
    by (simp add: load_all_text)
qed

text \<open>What holds between calls: the known ids are exactly those of the log, whose last line is complete.\<close>

definition log_inv :: "('f, 'w) host \<Rightarrow> Server \<times> 'w \<Rightarrow> bool" where
  "log_inv h sw \<longleftrightarrow> (case sw of (srv, w) \<Rightarrow>
     terminated (log_text (host_db h) w (sessions_path srv)) \<and>
     bytes_of ` logged_sessions srv = dom (map_of (load_sessions h w srv)))"

lemma log_inv_new:
  assumes "terminated (log_text (host_db h) w (path_append (config_root cfg) ''.dicker-sessions.jsonl''))"
  shows "log_inv h (server_new h w cfg, w)"
  using assms
  by (auto simp: log_inv_def server_new_def load_sessions_def Let_def dom_map_of_conv_image_fst image_image)

lemma record_session_step:
  assumes "gcm_correct (host_db h)" and "db_posix (host_db h) file" and "whole_appends (host_db h)"
    and "log_inv h (srv, w)" and "record_session h (srv, w) hx ip = Some (srv', w')"
  shows "log_inv h (srv', w') \<and> map_of (load_sessions h w srv) \<subseteq>\<^sub>m map_of (load_sessions h w' srv')"
proof (cases "hx \<in> logged_sessions srv")
  case True
  with assms(4,5) show ?thesis
    by (simp add: record_session_def)
next
  case False
  have t: "terminated (log_text (host_db h) w (sessions_path srv))"
    and d: "bytes_of ` logged_sessions srv = dom (map_of (load_sessions h w srv))"
    using assms(4) by (simp_all add: log_inv_def)
  from False have new: "bytes_of hx \<notin> dom (map_of (load_sessions h w srv))"
    unfolding d [symmetric] by auto
  obtain err where app: "session_append (host_floats h) (host_db h) w (sessions_path srv) (config_key (config srv))
      hx ip (host_time h w) = Some (err, w')"
    and srv': "srv' = (if err = None then srv\<lparr>logged_sessions := insert hx (logged_sessions srv)\<rparr> else srv)"
    using assms(5) False by (auto simp: record_session_def split: option.splits)
  note out = session_append_outcome [OF assms(1-3) t app]
  show ?thesis
    using out d new
    by (auto simp: srv' log_inv_def load_sessions_def map_of_member_set map_le_def)
qed

fun record_sessions :: "('f, 'w) host \<Rightarrow> (string \<times> string) list \<Rightarrow> Server \<times> 'w \<Rightarrow> (Server \<times> 'w) option" where
  "record_sessions h [] sw = Some sw"
| "record_sessions h ((hx, ip) # xs) sw =
     (case record_session h sw hx ip of None \<Rightarrow> None | Some sw' \<Rightarrow> record_sessions h xs sw')"

lemma record_sessions_inv:
  assumes "gcm_correct (host_db h)" and "db_posix (host_db h) file" and "whole_appends (host_db h)"
  shows "log_inv h (srv, w) \<Longrightarrow> record_sessions h xs (srv, w) = Some (srv', w') \<Longrightarrow>
    log_inv h (srv', w') \<and> map_of (load_sessions h w srv) \<subseteq>\<^sub>m map_of (load_sessions h w' srv')"
proof (induction xs arbitrary: srv w)
  case Nil
  then show ?case by simp
next
  case (Cons x xs)
  obtain hx ip where x: "x = (hx, ip)"
    by fastforce
  with Cons.prems obtain srv1 w1 where one: "record_session h (srv, w) hx ip = Some (srv1, w1)"
    and rest: "record_sessions h xs (srv1, w1) = Some (srv', w')"
    by (auto split: option.splits)
  from record_session_step [OF assms Cons.prems(1) one] Cons.IH [OF _ rest] show ?case
    using map_le_trans by blast
qed


definition mem_host :: "(nat, MemDb) host" where
  "mem_host = \<lparr>host_floats = sample_floats, host_db = mem_db_os,
     host_fs = \<lparr>uv_fs_open = (\<lambda>w p m. (-1, w)), uv_fs_write = (\<lambda>w fd d off. (-1, w)),
       uv_fs_close = (\<lambda>w fd. w), uv_fs_fsync = (\<lambda>w fd. w),
       create_directories = (\<lambda>w p. (False, w)), fs_exists = (\<lambda>w p. False)\<rparr>,
     host_time = (\<lambda>w. 9), is_directory = (\<lambda>w p. True)\<rparr>"

definition sample_config :: ServerConfig where
  "sample_config = \<lparr>config_key = ''k'', config_root = ''r'', channel_high_water = 8 * 1024 * 1024,
     channel_low_water = 2 * 1024 * 1024, default_routes = True\<rparr>"

lemma mem_host_whole: "whole_appends (host_db mem_host)"
  by (auto simp: whole_appends_def mem_host_def mem_db_os_def split: option.splits)


end
