(* ===== verification/Http.thy ===== *)
theory Http
  imports Json_Dump
begin

text \<open>
  HTTP as the server speaks it, \<open>server/http.cxx\<close>: finding the end of the header block, parsing the
  request line and the headers, and printing a response head.
\<close>

section \<open>Requests\<close>

record HttpRequest =
  req_method :: string
  target :: string
  req_path :: string
  version :: string
  req_headers :: "(string \<times> string) list"

fun find_header :: "(string \<times> string) list \<Rightarrow> string \<Rightarrow> string option" where
  "find_header [] name = None"
| "find_header (h # hs) name = (if fst h = name then Some (snd h) else find_header hs name)"

definition header :: "HttpRequest \<Rightarrow> string \<Rightarrow> string option" where
  "header req lower_name = find_header (req_headers req) lower_name"

definition cr :: char where "cr = CHR 0x0D"
definition lf :: char where "lf = CHR 0x0A"
definition crlf :: string where "crlf = [cr, lf]"

text \<open>The index loop of \<open>http_header_end\<close>, from index \<open>i\<close> on.\<close>

fun header_end_from :: "nat \<Rightarrow> string \<Rightarrow> nat" where
  "header_end_from i (a # b # c # d # rest) =
     (if a = cr \<and> b = lf \<and> c = cr \<and> d = lf then i + 4 else header_end_from (Suc i) (b # c # d # rest))"
| "header_end_from i _ = 0"

definition http_header_end :: "string \<Rightarrow> nat" where
  "http_header_end data = (if length data < 4 then 0 else header_end_from 0 data)"

definition is_blank :: "char \<Rightarrow> bool" where
  "is_blank c \<longleftrightarrow> c = CHR '' '' \<or> c = CHR 0x09"

definition trim :: "string \<Rightarrow> string" where
  "trim s = rev (dropWhile is_blank (rev (dropWhile is_blank s)))"

definition lower :: "string \<Rightarrow> string" where
  "lower s = map tolower s"

definition parse_header_line :: "string \<Rightarrow> (string \<times> string) list" where
  "parse_header_line line =
     (case str_find CHR '':'' line of
        None \<Rightarrow> []
      | Some colon \<Rightarrow> [(lower (trim (take colon line)), trim (drop (colon + 1) line))])"

text \<open>The loop over the header lines, on the text from \<open>pos\<close> on.\<close>

function parse_headers :: "string \<Rightarrow> (string \<times> string) list" where
  "parse_headers s =
     (if s = [] then []
      else case str_find_sub crlf s of
             Some 0 \<Rightarrow> []
           | Some n \<Rightarrow> parse_header_line (take n s) @ parse_headers (drop (n + 2) s)
           | None \<Rightarrow> parse_header_line s)"
  by pat_completeness auto
termination
  by (relation "measure length") auto

declare parse_headers.simps [simp del]

definition parse_http_request :: "string \<Rightarrow> HttpRequest option" where
  "parse_http_request txt =
     (case str_find_sub crlf txt of
        None \<Rightarrow> None
      | Some line_end \<Rightarrow>
          let request_line = take line_end txt
          in case str_find CHR '' '' request_line of
               None \<Rightarrow> None
             | Some sp1 \<Rightarrow>
                 (case str_find_from CHR '' '' (sp1 + 1) request_line of
                    None \<Rightarrow> None
                  | Some sp2 \<Rightarrow>
                      let meth = take sp1 request_line;
                          tgt = take (sp2 - sp1 - 1) (drop (sp1 + 1) request_line);
                          ver = drop (sp2 + 1) request_line
                      in if meth = [] \<or> tgt = [] then None
                         else Some \<lparr>req_method = meth, target = tgt,
                           req_path = (case str_find CHR ''?'' tgt of None \<Rightarrow> tgt | Some q \<Rightarrow> take q tgt),
                           version = ver,
                           req_headers = parse_headers (drop (line_end + 2) txt)\<rparr>))"

section \<open>Responses\<close>

definition print_header :: "string \<times> string \<Rightarrow> string" where
  "print_header h = fst h @ '': '' @ snd h @ crlf"

definition http_response_headers :: "nat \<Rightarrow> string \<Rightarrow> string \<Rightarrow> int \<Rightarrow> (string \<times> string) list \<Rightarrow> string" where
  "http_response_headers status reason content_type content_length extra =
     ''HTTP/1.1 '' @ string_of (dec_digits status) @ '' '' @ reason @ crlf
     @ (if content_type \<noteq> [] then ''Content-Type: '' @ content_type @ crlf else [])
     @ (if 0 \<le> content_length then ''Content-Length: '' @ string_of (dec_digits (nat content_length)) @ crlf else [])
     @ ''Server: dicker'' @ crlf
     @ concat (map print_header extra) @ crlf"

definition reason_phrase :: "nat \<Rightarrow> string" where
  "reason_phrase status =
     (if status = 200 then ''OK''
      else if status = 201 then ''Created''
      else if status = 204 then ''No Content''
      else if status = 400 then ''Bad Request''
      else if status = 401 then ''Unauthorized''
      else if status = 403 then ''Forbidden''
      else if status = 404 then ''Not Found''
      else if status = 405 then ''Method Not Allowed''
      else if status = 500 then ''Internal Server Error''
      else if 200 \<le> status \<and> status < 300 then ''OK''
      else if 300 \<le> status \<and> status < 400 then ''Redirect''
      else if 400 \<le> status \<and> status < 500 then ''Client Error''
      else ''Server Error'')"

section \<open>The end of the header block\<close>

lemma header_end_from_find:
  "header_end_from i s = (case str_find_sub (crlf @ crlf) s of None \<Rightarrow> 0 | Some k \<Rightarrow> i + k + 4)"
proof (induction i s rule: header_end_from.induct)
  case (1 i a b c d rest)
  then show ?case
    by (cases "str_find_sub (crlf @ crlf) (b # c # d # rest)") (auto simp: crlf_def)
qed (auto simp: crlf_def)

lemma http_header_end_find:
  "http_header_end s = (case str_find_sub (crlf @ crlf) s of None \<Rightarrow> 0 | Some k \<Rightarrow> k + 4)"
proof (cases "length s < 4")
  case True
  then have "str_find_sub (crlf @ crlf) s = None"
    using str_find_sub_Some [of "crlf @ crlf" s] by (cases "str_find_sub (crlf @ crlf) s") (auto simp: crlf_def)
  with True show ?thesis by (simp add: http_header_end_def)
next
  case False
  then show ?thesis
    by (cases "str_find_sub (crlf @ crlf) s") (simp_all add: http_header_end_def header_end_from_find)
qed

lemma str_prefix_append_iff: "length n \<le> length s \<Longrightarrow> str_prefix n (s @ t) \<longleftrightarrow> str_prefix n s"
  by (simp add: str_prefix_take)

lemma str_find_sub_extend: "str_find_sub n s = Some k \<Longrightarrow> str_find_sub n (s @ t) = Some k"
proof (induction n s arbitrary: k rule: str_find_sub.induct)
  case (1 n)
  then show ?case by (cases t) (auto split: if_splits)
next
  case (2 n x xs)
  show ?case
  proof (cases "str_prefix n (x # xs)")
    case True
    then have "str_prefix n (x # xs @ t)"
      using str_prefix_append_iff [of n "x # xs" t] by (simp add: str_prefix_take)
    with True "2.prems" show ?thesis by simp
  next
    case False
    with "2.prems" obtain j where j: "str_find_sub n xs = Some j" "k = Suc j"
      by auto
    then have "length n \<le> length (x # xs)"
      using str_find_sub_Some [OF j(1)] by simp
    then have "\<not> str_prefix n (x # xs @ t)"
      using False str_prefix_append_iff [of n "x # xs" t] by simp
    with "2.IH" [OF False j(1)] j show ?thesis by simp
  qed
qed


lemma http_header_end_extend: "http_header_end s \<noteq> 0 \<Longrightarrow> http_header_end (s @ t) = http_header_end s"
  using str_find_sub_extend [of "crlf @ crlf" s] by (auto simp: http_header_end_find split: option.splits)

lemma http_header_end_bound: "http_header_end s \<le> length s"
  using str_find_sub_Some [of "crlf @ crlf" s] by (auto simp: http_header_end_find crlf_def split: option.splits)

section \<open>Lines\<close>

lemma find_crlf: "cr \<notin> set a \<Longrightarrow> str_find_sub crlf (a @ crlf @ b) = Some (length a)"
  by (induction a) (auto simp: crlf_def)

lemma drop_crlf: "drop (length a + 2) (a @ crlf @ b) = b"
  by (simp add: crlf_def)

lemma find_blank_line_skip:
  "cr \<notin> set a \<Longrightarrow>
    str_find_sub (crlf @ crlf) (a @ s) = map_option ((+) (length a)) (str_find_sub (crlf @ crlf) s)"
proof (induction a)
  case (Cons c a)
  then show ?case by (cases "str_find_sub (crlf @ crlf) s") (simp_all add: crlf_def)
qed (cases "str_find_sub (crlf @ crlf) s"; simp)

text \<open>Lines, each closed by CR LF, and the empty line behind them.\<close>

definition header_lines :: "string list \<Rightarrow> string" where
  "header_lines ls = concat (map (\<lambda>l. l @ crlf) ls) @ crlf"

definition line_ok :: "string \<Rightarrow> bool" where
  "line_ok l \<longleftrightarrow> l \<noteq> [] \<and> cr \<notin> set l"

lemma find_header_lines:
  "ls \<noteq> [] \<Longrightarrow> list_all line_ok ls \<Longrightarrow>
    str_find_sub (crlf @ crlf) (header_lines ls @ rest) = Some (length (header_lines ls) - 4)"
proof (induction ls)
  case Nil
  then show ?case by simp
next
  case (Cons l ls)
  show ?case
  proof (cases ls)
    case Nil
    with Cons.prems show ?thesis
      using find_blank_line_skip [of l "crlf @ crlf @ rest"]
      by (simp add: header_lines_def line_ok_def crlf_def)
  next
    case (Cons m ms)
    with Cons.prems have m: "m \<noteq> []" "hd m \<noteq> cr" "cr \<notin> set l"
      by (cases m; auto simp: line_ok_def)+
    then obtain c m' where c: "m = c # m'" "c \<noteq> cr"
      by (cases m) auto
    have "str_find_sub (crlf @ crlf) (crlf @ header_lines ls @ rest) =
        map_option ((+) 2) (str_find_sub (crlf @ crlf) (header_lines ls @ rest))"
      using c by (auto simp: Cons header_lines_def crlf_def cr_def lf_def option.map_comp comp_def)
    moreover have "str_find_sub (crlf @ crlf) (header_lines ls @ rest) = Some (length (header_lines ls) - 4)"
      using Cons.IH Cons.prems Cons by simp
    moreover have "4 \<le> length (header_lines ls)"
      by (simp add: Cons header_lines_def crlf_def)
    moreover have "header_lines (l # ls) = l @ crlf @ header_lines ls"
      by (simp add: header_lines_def)
    ultimately show ?thesis
      using find_blank_line_skip [OF m(3), of "crlf @ header_lines ls @ rest"]
      by (simp add: crlf_def)
  qed
qed

lemma header_end_lines:
  assumes "ls \<noteq> []" and "list_all line_ok ls"
  shows "http_header_end (header_lines ls @ rest) = length (header_lines ls)"
proof -
  have "4 \<le> length (header_lines ls)"
    using assms(1) by (cases ls) (simp_all add: header_lines_def crlf_def)
  then show ?thesis
    using find_header_lines [OF assms, of rest] by (simp add: http_header_end_find)
qed

section \<open>Responses are framed\<close>

definition header_text :: "string \<times> string \<Rightarrow> bool" where
  "header_text h \<longleftrightarrow> cr \<notin> set (fst h) \<and> cr \<notin> set (snd h)"

lemma digits_no_cr [simp]: "cr \<notin> set (string_of (dec_digits n))"
proof (induction n rule: dec_digits.induct)
  case (1 v)
  have "char_of (unat (digit_char d)) \<noteq> cr" if "d < 10" for d
  proof -
    have "\<forall>d\<in>set [0..<10]. char_of (unat (digit_char d)) \<noteq> cr"
      by code_simp
    with that show ?thesis by simp
  qed
  note digit = this [symmetric]
  show ?case
    unfolding dec_digits.simps [of v] using 1 digit [of v] digit [of "v mod 10"] by simp
qed

lemma response_lines:
  "http_response_headers st reason ct len extra = header_lines
    ([''HTTP/1.1 '' @ string_of (dec_digits st) @ '' '' @ reason]
     @ (if ct \<noteq> [] then [''Content-Type: '' @ ct] else [])
     @ (if 0 \<le> len then [''Content-Length: '' @ string_of (dec_digits (nat len))] else [])
     @ [''Server: dicker''] @ map (\<lambda>h. fst h @ '': '' @ snd h) extra)"
  by (simp add: http_response_headers_def header_lines_def print_header_def [abs_def] comp_def)

lemma literal_no_cr:
  "cr \<notin> set ''HTTP/1.1 ''" "cr \<notin> set ''Content-Type: ''" "cr \<notin> set ''Content-Length: ''"
  "cr \<notin> set ''Server: dicker''" "cr \<notin> set '' ''" "cr \<notin> set '': ''"
  by (simp_all add: cr_def)

text \<open>
  Property C29.  A response is framed: the header block a client finds ends exactly where the server put the
  body, as long as no field has a carriage return; no reason, type or header
  value can end it early.
\<close>

theorem response_framed:
  assumes "cr \<notin> set reason" and "cr \<notin> set content_type" and "list_all header_text extra"
  shows "http_header_end (http_response_headers status reason content_type content_length extra @ body) =
    length (http_response_headers status reason content_type content_length extra)"
proof -
  have "list_all line_ok (map (\<lambda>h. fst h @ '': '' @ snd h) extra)"
    using assms(3) literal_no_cr by (auto simp: list_all_iff line_ok_def header_text_def)
  then show ?thesis
    unfolding response_lines using assms(1,2) literal_no_cr
    by (intro header_end_lines) (simp_all add: line_ok_def)
qed

theorem response_framed_witness:
  "list_all header_text [(''Connection'', ''close'')] \<and>
   http_header_end (http_response_headers 404 ''Not Found'' ''text/plain'' 10 [(''Connection'', ''close'')] @ ''not found'') =
   length (http_response_headers 404 ''Not Found'' ''text/plain'' 10 [(''Connection'', ''close'')])"
  using response_framed [of "''Not Found''" "''text/plain''" "[(''Connection'', ''close'')]" 404 10 "''not found''"]
  by (simp add: header_text_def cr_def)

section \<open>Requests are read back\<close>

definition request_text :: "HttpRequest \<Rightarrow> string" where
  "request_text req = req_method req @ '' '' @ target req @ '' '' @ version req @ crlf
     @ concat (map print_header (req_headers req)) @ crlf"

definition request_header_ok :: "string \<times> string \<Rightarrow> bool" where
  "request_header_ok h \<longleftrightarrow> header_text h \<and> CHR '':'' \<notin> set (fst h) \<and> trim (fst h) = fst h \<and>
     lower (fst h) = fst h \<and> trim (snd h) = snd h"

definition request_ok :: "HttpRequest \<Rightarrow> bool" where
  "request_ok req \<longleftrightarrow>
     req_method req \<noteq> [] \<and> CHR '' '' \<notin> set (req_method req) \<and> cr \<notin> set (req_method req) \<and>
     target req \<noteq> [] \<and> CHR '' '' \<notin> set (target req) \<and> cr \<notin> set (target req) \<and>
     cr \<notin> set (version req) \<and> req_path req = takeWhile (\<lambda>c. c \<noteq> CHR ''?'') (target req) \<and>
     list_all request_header_ok (req_headers req)"

lemma trim_blank: "trim (CHR '' '' # s) = trim s"
  by (simp add: trim_def is_blank_def)

lemma parse_header_line_print:
  assumes "request_header_ok h"
  shows "parse_header_line (fst h @ '': '' @ snd h) = [h]"
  using assms by (cases h) (simp add: parse_header_line_def request_header_ok_def trim_blank)

lemma parse_headers_print:
  "list_all request_header_ok hs \<Longrightarrow> parse_headers (concat (map print_header hs) @ crlf @ rest) = hs"
proof (induction hs)
  case Nil
  then show ?case by (subst parse_headers.simps) (simp add: crlf_def)
next
  case (Cons h hs)
  let ?l = "fst h @ '': '' @ snd h"
  have no_cr: "cr \<notin> set ?l"
    using Cons.prems by (auto simp: request_header_ok_def header_text_def cr_def)
  have split: "concat (map print_header (h # hs)) @ crlf @ rest =
      ?l @ crlf @ (concat (map print_header hs) @ crlf @ rest)"
    by (simp add: print_header_def)
  have "parse_headers (?l @ crlf @ r) = parse_header_line ?l @ parse_headers r" for r
  proof -
    have "length ?l = Suc (length (fst h @ snd h) + 1)" and "?l @ crlf @ r \<noteq> []"
      by simp_all
    then show ?thesis
      unfolding parse_headers.simps [of "?l @ crlf @ r"] find_crlf [OF no_cr]
      using drop_crlf [of ?l r] by (simp only: option.case nat.case if_False) simp
  qed
  then show ?case
    using Cons parse_header_line_print [of h] by (simp only: split) simp
qed

lemma takeWhile_find:
  "(case str_find c s of None \<Rightarrow> s | Some q \<Rightarrow> take q s) = takeWhile (\<lambda>x. x \<noteq> c) s"
  by (induction s) (auto split: option.splits)

text \<open>
  Property C28.  Every well-formed request is read back: a method and a target without blanks, a
  version, and headers with lower-case names, printed as a request head with any bytes behind, parse
  to exactly that request; the path is the target up to the query.
\<close>

theorem parse_request_text:
  assumes "request_ok req"
  shows "parse_http_request (request_text req @ rest) = Some req"
proof -
  let ?line = "req_method req @ '' '' @ target req @ '' '' @ version req"
  have "cr \<notin> set ?line"
    using assms by (auto simp: request_ok_def cr_def)
  from find_crlf [OF this]
  have line: "str_find_sub crlf (request_text req @ rest) = Some (length ?line)"
    by (simp add: request_text_def)
  have sp1: "str_find CHR '' '' ?line = Some (length (req_method req))"
    using assms by (simp add: request_ok_def)
  have sp2: "str_find_from CHR '' '' (length (req_method req) + 1) ?line =
      Some (length (req_method req) + 1 + length (target req))"
    using assms by (simp add: request_ok_def str_find_from_def)
  have hs: "parse_headers (drop (length ?line + 2) (request_text req @ rest)) = req_headers req"
  proof -
    have "request_text req @ rest = ?line @ crlf @ concat (map print_header (req_headers req)) @ crlf @ rest"
      by (simp add: request_text_def)
    then have "drop (length ?line + 2) (request_text req @ rest) =
        concat (map print_header (req_headers req)) @ crlf @ rest"
      by (simp only: drop_crlf)
    then show ?thesis
      using assms parse_headers_print [of "req_headers req" rest] by (simp add: request_ok_def)
  qed
  have "take (length ?line) (request_text req @ rest) = ?line"
    by (simp add: request_text_def)
  with line sp1 sp2 hs show ?thesis
    using assms by (simp add: parse_http_request_def request_ok_def takeWhile_find Let_def)
qed

definition sample_request :: HttpRequest where
  "sample_request = \<lparr>req_method = ''GET'', target = ''/uploads?x=1'', req_path = ''/uploads'',
     version = ''HTTP/1.1'', req_headers = [(''authorization'', ''Bearer t0'')]\<rparr>"

theorem parse_request_text_witness:
  "request_ok sample_request \<and>
   parse_http_request (request_text sample_request @ ''tail'') = Some sample_request"
proof
  show ok: "request_ok sample_request"
    by code_simp
  show "parse_http_request (request_text sample_request @ ''tail'') = Some sample_request"
    by (rule parse_request_text [OF ok])
qed

end
