(* ===== verification/Json_Utf8.thy ===== *)
theory Json_Utf8
  imports Json_Parser
begin

text \<open>
  The values the JSON parser builds are well-formed: every string and every member name it
  makes, from raw bytes or from escapes, is UTF-8, so that the serialiser, which throws on any
  other text, accepts them again.
\<close>

section \<open>Well-formed values\<close>

fun json_utf8 :: "'f json \<Rightarrow> bool" where
  "json_utf8 (json_string s) \<longleftrightarrow> utf8 s"
| "json_utf8 (json_array vs) \<longleftrightarrow> list_all json_utf8 vs"
| "json_utf8 (json_object ms) \<longleftrightarrow> list_all (\<lambda>m. utf8 (fst m) \<and> json_utf8 (snd m)) ms"
| "json_utf8 _ \<longleftrightarrow> True"

section \<open>Concatenation and single characters\<close>

lemma utf8_from_append: "utf8_from rs a \<Longrightarrow> utf8 b \<Longrightarrow> utf8_from rs (a @ b)"
  by (induction rs a rule: utf8_from.induct) (auto simp: utf8_def split: option.splits)

lemma utf8_append: "utf8 a \<Longrightarrow> utf8 b \<Longrightarrow> utf8 (a @ b)"
  using utf8_from_append by (simp add: utf8_def)

lemma utf8_nil [simp]: "utf8 []"
  by (simp add: utf8_def)

lemma utf8_ascii: "unat b \<le> 0x7F \<Longrightarrow> utf8 [b]"
  by (simp add: utf8_def byte_order)

lemma utf8_from_range: "next_byte_in_range ranges inp = Some (bs, rest) \<Longrightarrow> utf8_from ranges bs"
  by (induction ranges inp arbitrary: bs rule: next_byte_in_range.induct) (auto split: if_splits)

lemma utf8_multi:
  assumes "utf8_ranges c = Some ranges" and "next_byte_in_range ranges inp = Some (bs, rest)"
  shows "utf8 (c # bs)"
proof -
  have "utf8_ranges c = None" if "c \<le> 0x7F"
    using that unfolding utf8_ranges_def byte_order by simp
  with assms(1) have "\<not> c \<le> 0x7F"
    by auto
  with assms(1) utf8_from_range [OF assms(2)] show ?thesis
    by (simp add: utf8_def)
qed

section \<open>Code points\<close>

lemma lead_bytes:
  "n < 32 \<Longrightarrow> unat (of_nat (0xC0 OR n) :: byte) = 0xC0 + n"
  "n < 16 \<Longrightarrow> unat (of_nat (0xE0 OR n) :: byte) = 0xE0 + n"
  "n < 8 \<Longrightarrow> unat (of_nat (0xF0 OR n) :: byte) = 0xF0 + n"
  "n < 64 \<Longrightarrow> unat (of_nat (0x80 OR n) :: byte) = 0x80 + n"
proof -
  have "\<forall>n\<in>set [0..<32]. unat (of_nat (0xC0 OR n) :: byte) = 0xC0 + n"
    "\<forall>n\<in>set [0..<16]. unat (of_nat (0xE0 OR n) :: byte) = 0xE0 + n"
    "\<forall>n\<in>set [0..<8]. unat (of_nat (0xF0 OR n) :: byte) = 0xF0 + n"
    "\<forall>n\<in>set [0..<64]. unat (of_nat (0x80 OR n) :: byte) = 0x80 + n"
    by code_simp+
  then show "n < 32 \<Longrightarrow> unat (of_nat (0xC0 OR n) :: byte) = 0xC0 + n"
    "n < 16 \<Longrightarrow> unat (of_nat (0xE0 OR n) :: byte) = 0xE0 + n"
    "n < 8 \<Longrightarrow> unat (of_nat (0xF0 OR n) :: byte) = 0xF0 + n"
    "n < 64 \<Longrightarrow> unat (of_nat (0x80 OR n) :: byte) = 0x80 + n"
    by simp_all
qed

lemma low_six: "(n :: nat) AND 0x3F = n mod 64"
  using take_bit_eq_mask [of 6 n] by (simp add: mask_eq_exp_minus_1 take_bit_eq_mod)

lemma utf8_two:
  assumes "0x80 \<le> cp" and "cp \<le> 0x7FF"
  shows "utf8 (utf8_encode cp)"
proof -
  have "cp div 64 < 32" "2 \<le> cp div 64" "cp mod 64 < 64"
    using assms by auto
  then show ?thesis
    using assms by (simp add: utf8_encode_def utf8_def utf8_ranges_def byte_order low_six drop_bit_eq_div lead_bytes)
qed

lemma utf8_three:
  assumes "0x800 \<le> cp" and "cp \<le> 0xFFFF" and "cp < 0xD800 \<or> 0xE000 \<le> cp"
  shows "utf8 (utf8_encode cp)"
proof -
  define a b c where "a = cp div 4096" and "b = cp div 64 mod 64" and "c = cp mod 64"
  have "a = cp div 64 div 64"
    by (simp add: a_def div_mult2_eq [symmetric])
  then have cp: "cp = a * 4096 + b * 64 + c"
    using div_mult_mod_eq [of cp 64] div_mult_mod_eq [of "cp div 64" 64] unfolding b_def c_def by linarith
  have bounds: "a < 16" "b < 64" "c < 64"
    using assms by (auto simp: a_def b_def c_def)
  have enc: "utf8_encode cp = [of_nat (0xE0 OR a), of_nat (0x80 OR b), of_nat (0x80 OR c)]"
    using assms by (simp add: utf8_encode_def low_six drop_bit_eq_div a_def b_def c_def)
  have "a = 0 \<Longrightarrow> 32 \<le> b" "a = 13 \<Longrightarrow> b < 32"
    using assms cp bounds by auto
  then show ?thesis
    unfolding enc using bounds by (simp add: utf8_def utf8_ranges_def byte_order lead_bytes; linarith)
qed

lemma utf8_four:
  assumes "0x10000 \<le> cp" and "cp < 0x110000"
  shows "utf8 (utf8_encode cp)"
proof -
  define a b c d where "a = cp div 262144" and "b = cp div 4096 mod 64" and "c = cp div 64 mod 64" and "d = cp mod 64"
  have "cp div 4096 = cp div 64 div 64" "a = cp div 4096 div 64"
    by (simp_all add: a_def div_mult2_eq [symmetric])
  then have cp: "cp = a * 262144 + b * 4096 + c * 64 + d"
    using div_mult_mod_eq [of cp 64] div_mult_mod_eq [of "cp div 64" 64] div_mult_mod_eq [of "cp div 4096" 64]
    unfolding b_def c_def d_def by linarith
  have bounds: "a < 8" "b < 64" "c < 64" "d < 64"
    using assms by (auto simp: a_def b_def c_def d_def)
  have enc: "utf8_encode cp = [of_nat (0xF0 OR a), of_nat (0x80 OR b), of_nat (0x80 OR c), of_nat (0x80 OR d)]"
    using assms by (simp add: utf8_encode_def low_six drop_bit_eq_div a_def b_def c_def d_def)
  have "a \<le> 4" "a = 0 \<Longrightarrow> 16 \<le> b" "a = 4 \<Longrightarrow> b < 16"
    using assms cp bounds by auto
  then show ?thesis
    unfolding enc using bounds by (simp add: utf8_def utf8_ranges_def byte_order lead_bytes; linarith)
qed

lemma utf8_encode_utf8: "cp < 0x110000 \<Longrightarrow> cp < 0xD800 \<or> 0xE000 \<le> cp \<Longrightarrow> utf8 (utf8_encode cp)"
  using utf8_two [of cp] utf8_three [of cp] utf8_four [of cp] utf8_ascii [of "of_nat cp"]
  by (cases "cp < 0x80"; cases "cp \<le> 0x7FF"; cases "cp \<le> 0xFFFF")
    (auto simp: utf8_encode_def unsigned_of_nat take_bit_eq_mod)

lemma hex_digit_bound: "hex_digit c = Some d \<Longrightarrow> d \<le> 15"
  by (auto simp: hex_digit_def byte_order split: if_splits)

lemma get_codepoint_bound:
  assumes "get_codepoint inp = Some (cp, rest)"
  shows "cp \<le> 0xFFFF"
proof -
  from assms obtain c1 c2 c3 c4 tl d1 d2 d3 d4 where
    "hex_digit c1 = Some d1" "hex_digit c2 = Some d2" "hex_digit c3 = Some d3" "hex_digit c4 = Some d4"
    and cp: "cp = push_bit 12 d1 + push_bit 8 d2 + push_bit 4 d3 + d4"
    unfolding get_codepoint_def
    by (cases inp; cases "tl inp"; cases "tl (tl inp)"; cases "tl (tl (tl inp))") (auto split: option.splits)
  then have "d1 \<le> 15" "d2 \<le> 15" "d3 \<le> 15" "d4 \<le> 15"
    by (auto dest: hex_digit_bound)
  then show ?thesis
    by (simp add: cp push_bit_eq_mult)
qed

lemma scan_unicode_utf8:
  assumes "scan_unicode inp = Some (bs, rest)"
  shows "utf8 bs"
proof -
  obtain cp1 inp1 where one: "get_codepoint inp = Some (cp1, inp1)"
    using assms by (auto simp: scan_unicode_def split: option.splits)
  note bound = get_codepoint_bound [OF one]
  show ?thesis
  proof (cases "0xD800 \<le> cp1 \<and> cp1 \<le> 0xDBFF")
    case True
    then obtain cp2 inp2 where "get_codepoint (drop 2 inp1) = Some (cp2, inp2)"
      and range: "0xDC00 \<le> cp2" "cp2 \<le> 0xDFFF" "bs = utf8_encode (push_bit 10 cp1 + cp2 - 0x35FDC00)"
      using assms one by (auto simp: scan_unicode_def split: option.splits list.splits if_splits)
    then show ?thesis
      using True by (auto simp: push_bit_eq_mult intro!: utf8_encode_utf8)
  next
    case False
    then show ?thesis
      using assms one bound by (auto simp: scan_unicode_def intro!: utf8_encode_utf8 split: if_splits)
  qed
qed

section \<open>Tokens\<close>

lemma scan_escape_utf8: "scan_escape inp = Some (bs, rest) \<Longrightarrow> utf8 bs"
  unfolding scan_escape_def
  by (auto dest: scan_unicode_utf8 intro: utf8_ascii split: list.splits if_splits)

lemma scan_string_utf8: "scan_string buf inp = Some (s, rest) \<Longrightarrow> utf8 buf \<Longrightarrow> utf8 s"
proof (induction buf inp rule: scan_string.induct)
  case (1 buf inp)
  show ?case
  proof (cases inp)
    case Nil
    with "1.prems" show ?thesis by (simp add: scan_string.simps)
  next
    case (Cons c cs)
    have plain: "utf8 [c]" if "plain_character c"
      using that by (auto simp: plain_character_def byte_order intro: utf8_ascii)
    note run = "1.prems"(1) [unfolded Cons scan_string.simps [of buf "c # cs"]]
    from run "1.prems"(2) "1.IH" [OF Cons] show ?thesis
      by (auto intro: utf8_append plain split: if_splits option.splits)
        (blast intro: utf8_append scan_escape_utf8 utf8_multi)+
  qed
qed

fun token_utf8 :: "'f token_type \<Rightarrow> bool" where
  "token_utf8 (value_string s) \<longleftrightarrow> utf8 s"
| "token_utf8 _ \<longleftrightarrow> True"

lemma token_utf8_number [simp]: "token_utf8 (number_token fl k buf)"
  by (auto simp: number_token_def split: num_kind.splits option.splits)

lemma scan_utf8: "scan fl first inp = (t, rest) \<Longrightarrow> token_utf8 t"
  by (auto simp: scan_def scan_token_def scan_literal_def scan_number_def Let_def dest: scan_string_utf8
      split: option.splits list.splits if_splits)

section \<open>The document under construction\<close>

fun frame_utf8 :: "'f frame \<Rightarrow> bool" where
  "frame_utf8 (Open_Array vs) \<longleftrightarrow> list_all json_utf8 vs"
| "frame_utf8 (Open_Object ms k) \<longleftrightarrow> json_utf8 (json_object ms) \<and> utf8 k"

definition dom_utf8 :: "'f dom \<Rightarrow> bool" where
  "dom_utf8 d \<longleftrightarrow> pred_option json_utf8 (root d) \<and> list_all frame_utf8 (ref_stack d)"

lemma member_set_utf8:
  "utf8 k \<Longrightarrow> json_utf8 v \<Longrightarrow> json_utf8 (json_object ms) \<Longrightarrow> json_utf8 (json_object (member_set k v ms))"
  by (induction ms) auto

lemma member_touch_utf8: "utf8 k \<Longrightarrow> json_utf8 (json_object ms) \<Longrightarrow> json_utf8 (json_object (member_touch k ms))"
  by (induction ms) auto

lemma handle_value_utf8: "dom_utf8 d \<Longrightarrow> json_utf8 v \<Longrightarrow> dom_utf8 (handle_value d v)"
  using member_set_utf8 by (fastforce simp: dom_utf8_def handle_value_def split: list.splits frame.splits)

lemma push_frame_utf8 [simp]: "dom_utf8 (push_frame f d) \<longleftrightarrow> frame_utf8 f \<and> dom_utf8 d"
  by (auto simp: dom_utf8_def push_frame_def)

lemma key_utf8: "dom_utf8 d \<Longrightarrow> utf8 k \<Longrightarrow> dom_utf8 (key k d)"
  using member_touch_utf8 by (fastforce simp: dom_utf8_def key_def split: list.splits frame.splits)

lemma end_container_utf8: "dom_utf8 d \<Longrightarrow> dom_utf8 (end_container d)"
proof (cases "ref_stack d")
  case (Cons f fs)
  assume "dom_utf8 d"
  with Cons have "dom_utf8 (d\<lparr>ref_stack := fs\<rparr>)" "frame_utf8 f"
    by (simp_all add: dom_utf8_def)
  then show ?thesis
    by (cases f) (auto simp: end_container_def Cons intro!: handle_value_utf8)
qed (simp add: end_container_def)

lemmas dom_utf8_intros = handle_value_utf8 key_utf8 end_container_utf8

lemma sax_value_utf8:
  assumes "dom_utf8 d" and "token_utf8 t"
  shows "sax_value fl states d t inp = Value_Continue d' states' t' inp' \<Longrightarrow> dom_utf8 d' \<and> token_utf8 t'"
    and "sax_value fl states d t inp = Value_Break d' inp' \<Longrightarrow> dom_utf8 d'"
proof -
  obtain t1 inp1 where s1: "scan fl False inp = (t1, inp1)"
    by (cases "scan fl False inp")
  obtain t2 inp2 where s2: "scan fl False inp1 = (t2, inp2)"
    by (cases "scan fl False inp1")
  obtain t3 inp3 where s3: "scan fl False inp2 = (t3, inp3)"
    by (cases "scan fl False inp2")
  note tokens = scan_utf8 [OF s1] scan_utf8 [OF s3]
  show "dom_utf8 d' \<and> token_utf8 t'" if "sax_value fl states d t inp = Value_Continue d' states' t' inp'"
    using that assms tokens
    by (auto simp: sax_value_def s1 s2 s3 Let_def intro!: dom_utf8_intros split: token_type.splits if_splits)
  show "dom_utf8 d'" if "sax_value fl states d t inp = Value_Break d' inp'"
    using that assms tokens
    by (auto simp: sax_value_def s1 s2 s3 Let_def intro!: dom_utf8_intros split: token_type.splits if_splits)
qed

lemma sax_state_utf8:
  assumes "dom_utf8 d"
  shows "sax_state fl states d inp = State_Next d' t' inp' \<Longrightarrow> dom_utf8 d' \<and> token_utf8 t'"
    and "sax_state fl states d inp = State_Close d' states' inp' \<Longrightarrow> dom_utf8 d'"
proof -
  obtain t1 inp1 where s1: "scan fl False inp = (t1, inp1)"
    by (cases "scan fl False inp")
  obtain t2 inp2 where s2: "scan fl False inp1 = (t2, inp2)"
    by (cases "scan fl False inp1")
  obtain t3 inp3 where s3: "scan fl False inp2 = (t3, inp3)"
    by (cases "scan fl False inp2")
  obtain t4 inp4 where s4: "scan fl False inp3 = (t4, inp4)"
    by (cases "scan fl False inp3")
  note tokens = scan_utf8 [OF s2] scan_utf8 [OF s4]
  show "dom_utf8 d' \<and> token_utf8 t'" if "sax_state fl states d inp = State_Next d' t' inp'"
    using that assms tokens
    by (auto simp: sax_state_def s1 s2 s3 s4 intro!: dom_utf8_intros split: token_type.splits list.splits bool.splits)
  show "dom_utf8 d'" if "sax_state fl states d inp = State_Close d' states' inp'"
    using that assms
    by (auto simp: sax_state_def s1 s2 s3 s4 intro!: dom_utf8_intros split: token_type.splits list.splits bool.splits)
qed

lemma sax_parse_utf8:
  "sax_parse_internal fl skip states d t inp = Some (d', rest) \<Longrightarrow> dom_utf8 d \<Longrightarrow> token_utf8 t \<Longrightarrow> dom_utf8 d'"
proof (induction fl skip states d t inp rule: sax_parse_internal.induct)
  case (1 fl skip states d t inp)
  define r where "r = (if skip then Value_Break d inp else sax_value fl states d t inp)"
  note run = "1.prems"(1) [unfolded sax_parse_internal.simps [of fl skip], folded r_def]
  show ?case
  proof (cases r)
    case Value_Error
    with run show ?thesis by simp
  next
    case (Value_Continue d1 states1 t1 inp1)
    moreover from this have "dom_utf8 d1 \<and> token_utf8 t1"
      using sax_value_utf8(1) [OF "1.prems"(2,3)] by (auto simp: r_def split: if_splits)
    ultimately show ?thesis
      using run "1.IH"(1) [OF Value_Continue [unfolded r_def]] by simp
  next
    case (Value_Break d1 inp1)
    then have d1: "dom_utf8 d1"
      using sax_value_utf8(2) [OF "1.prems"(2,3)] "1.prems"(2) by (auto simp: r_def split: if_splits)
    note IH = "1.IH"(2,3) [OF Value_Break [unfolded r_def]]
    show ?thesis
      using run Value_Break d1 IH sax_state_utf8 [OF d1, of fl states inp1] "1.prems"(3)
      by (cases "sax_state fl states d1 inp1") auto
  qed
qed

lemma parse_utf8_value:
  assumes "parse fl doc = Some v"
  shows "json_utf8 v"
proof -
  obtain t inp where s: "scan fl True doc = (t, inp)"
    by (cases "scan fl True doc")
  from assms obtain d' rest where "sax_parse_internal fl False [] \<lparr>root = None, ref_stack = []\<rparr> t inp = Some (d', rest)"
    and v: "root d' = Some v"
    by (auto simp: parse_def s split: option.splits if_splits)
  from sax_parse_utf8 [OF this(1)] scan_utf8 [OF s] have "dom_utf8 d'"
    by (simp add: dom_utf8_def)
  with v show ?thesis
    by (simp add: dom_utf8_def)
qed

text \<open>
  Property C27.  The values the parser builds are well-formed: whatever bytes it is given, every
  string and every member name of the value it returns is UTF-8, also where escapes
  and surrogate pairs have been decoded.
\<close>

theorem parse_utf8:
  assumes "parse fl doc = Some v"
  shows "json_utf8 v"
  using assms by (rule parse_utf8_value)

text \<open>An array of one string, a surrogate pair and an accented letter, all escaped.\<close>

definition escaped_text :: bytes where
  "escaped_text = [0x5B, 0x22, 0x5C] @ bytes_of ''ud83d'' @ [0x5C] @ bytes_of ''ude00'' @ [0x5C] @ bytes_of ''u00e9'' @ [0x22, 0x5D]"

definition escaped_value :: "nat json" where
  "escaped_value = json_array [json_string [0xF0, 0x9F, 0x98, 0x80, 0xC3, 0xA9]]"

theorem parse_utf8_witness: "parse sample_floats escaped_text = Some escaped_value \<and> json_utf8 escaped_value"
proof
  have str: "scan_string [] (drop 2 escaped_text) = Some ([0xF0, 0x9F, 0x98, 0x80, 0xC3, 0xA9], [0x5D])"
    by (simp add: escaped_text_def scan_string.simps scan_escape_def scan_unicode_def get_codepoint_def hex_digit_def
        byte_order push_bit_eq_mult utf8_encode_def drop_bit_eq_div low_six)
  show run: "parse sample_floats escaped_text = Some escaped_value"
    using str by (simp add: escaped_text_def escaped_value_def parse_def scan_def scan_token_def skip_bom_def
        skip_whitespace_def is_space_def sax_parse_internal.simps sax_value_def sax_state_def is_digit_def byte_order)
      (simp add: handle_value_def)
  show "json_utf8 escaped_value"
    by (rule parse_utf8 [OF run])
qed

end
