(* ===== verification/Router.thy ===== *)
theory Router
  imports Server_Core Http Json_Utf8
begin

text \<open>
  The HTTP side of the server: the router (\<open>server/router.cxx\<close>), the request context
  (\<open>server/http_context.h\<close>), the middleware \<open>require_auth\<close> and the controllers of the built-in
  routes (\<open>server/controllers\<close>).

  What a handler asks of the connection is a list of calls (\<open>http_call\<close>), in order:
  \<open>send_http_simple\<close> and \<open>begin_download_response\<close>.  A handler that throws is \<^const>\<open>None\<close>.
\<close>

section \<open>Contexts, handlers and routes\<close>

datatype http_call =
    Send_Http_Simple nat string string string "(string \<times> string) list"
  | Begin_Download_Response string string

record HttpContext =
  ctx_req :: HttpRequest
  ctx_param :: string
  ctx_status :: nat
  ctx_type :: string
  ctx_body :: string
  ctx_headers :: "(string \<times> string) list"
  respond :: bool
  conn_calls :: "http_call list"

type_synonym HttpHandler = "HttpContext \<Rightarrow> HttpContext option"
type_synonym Middleware = "HttpContext \<Rightarrow> HttpHandler \<Rightarrow> HttpContext option"

definition text_plain :: string where
  "text_plain = ''text/plain; charset=utf-8''"

definition context_new :: "HttpRequest \<Rightarrow> string \<Rightarrow> HttpContext" where
  "context_new req par = \<lparr>ctx_req = req, ctx_param = par, ctx_status = 200, ctx_type = text_plain,
     ctx_body = [], ctx_headers = [], respond = True, conn_calls = []\<rparr>"

definition set_header :: "string \<Rightarrow> string \<Rightarrow> HttpContext \<Rightarrow> HttpContext" where
  "set_header name val ctx = ctx\<lparr>ctx_headers := ctx_headers ctx @ [(name, val)]\<rparr>"

definition begin_download :: "string \<Rightarrow> string \<Rightarrow> HttpContext \<Rightarrow> HttpContext" where
  "begin_download sid dir_path ctx =
     ctx\<lparr>respond := False, conn_calls := conn_calls ctx @ [Begin_Download_Response sid dir_path]\<rparr>"

datatype Match = Exact | Prefix

record Route =
  route_method :: string
  route_match :: Match
  route_path :: string
  route_middleware :: "Middleware list"
  route_handler :: HttpHandler

record Router =
  routes :: "Route list"
  builtins :: "Route list"

section \<open>Authorisation\<close>

definition authorized :: "('f, 'w) host \<Rightarrow> 'w \<Rightarrow> Server \<Rightarrow> HttpRequest \<Rightarrow> bool" where
  "authorized h w srv req =
     (case header req ''authorization'' of
        None \<Rightarrow> False
      | Some auth \<Rightarrow>
          if length auth \<le> length ''Bearer '' \<or> take (length ''Bearer '') auth \<noteq> ''Bearer '' then False
          else verify_token h w srv (drop (length ''Bearer '') auth))"

definition require_auth :: "('f, 'w) host \<Rightarrow> 'w \<Rightarrow> Server \<Rightarrow> Middleware" where
  "require_auth h w srv ctx onward =
     (if \<not> authorized h w srv (ctx_req ctx)
      then Some (set_header ''WWW-Authenticate'' ''Bearer''
             (ctx\<lparr>ctx_status := 401, ctx_type := text_plain, ctx_body := ''unauthorized'' @ [lf]\<rparr>))
      else onward ctx)"

section \<open>Controllers\<close>

definition root_body :: string where
  "root_body = ''<!doctype html>'' @ [lf] @ ''<html><head><meta charset='' @ [CHR 0x22] @ ''utf-8'' @ [CHR 0x22] @ ''>''
     @ ''<title>dicker</title></head>''
     @ ''<body><h1>dicker</h1><p>hello world</p></body></html>'' @ [lf]"

definition controller_root :: HttpHandler where
  "controller_root ctx = Some (ctx\<lparr>ctx_type := ''text/html; charset=utf-8'', ctx_body := root_body\<rparr>)"

definition hex_char :: "char \<Rightarrow> bool" where
  "hex_char c \<longleftrightarrow> (let n = of_char c :: nat in (48 \<le> n \<and> n \<le> 57) \<or> (97 \<le> n \<and> n \<le> 102))"

definition valid_session_id :: "string \<Rightarrow> bool" where
  "valid_session_id sid \<longleftrightarrow> sid \<noteq> [] \<and> length sid \<le> 64 \<and> list_all hex_char sid"

definition session_row :: "bytes \<times> SessionInfo \<Rightarrow> 'f json" where
  "session_row entry =
     json_object [(bytes_of ''sessionId'', json_string (fst entry)),
       (bytes_of ''ip'', json_string (bytes_of (info_ip (snd entry)))),
       (bytes_of ''created'', json_unsigned (info_created (snd entry)))]"

definition uploads_list :: "('f, 'w) host \<Rightarrow> 'w \<Rightarrow> Server \<Rightarrow> HttpHandler" where
  "uploads_list h w srv ctx =
     (case dump (host_floats h) False (json_array (map session_row (load_sessions h w srv))) of
        None \<Rightarrow> None
      | Some doc \<Rightarrow> Some (ctx\<lparr>ctx_type := ''application/json'', ctx_body := string_of doc\<rparr>))"

definition not_found :: "HttpContext \<Rightarrow> HttpContext" where
  "not_found ctx = ctx\<lparr>ctx_status := 404, ctx_body := ''not found'' @ [lf]\<rparr>"

definition uploads_download :: "('f, 'w) host \<Rightarrow> 'w \<Rightarrow> Server \<Rightarrow> HttpHandler" where
  "uploads_download h w srv ctx =
     (let sid = ctx_param ctx
      in if \<not> valid_session_id sid then Some (not_found ctx)
         else let dir = path_append (config_root (config srv)) sid
              in if \<not> is_directory h w dir then Some (not_found ctx)
                 else Some (begin_download sid dir ctx))"

section \<open>The router\<close>

definition path_matches :: "Route \<Rightarrow> string \<Rightarrow> bool" where
  "path_matches route p =
     (if route_match route = Exact then p = route_path route
      else length (route_path route) \<le> length p \<and> take (length (route_path route)) p = route_path route)"

text \<open>The route and whether a path has matched so far.\<close>

fun find_route :: "Route list \<Rightarrow> HttpRequest \<Rightarrow> bool \<Rightarrow> Route option \<times> bool" where
  "find_route [] req path_matched = (None, path_matched)"
| "find_route (route # rs) req path_matched =
     (if \<not> path_matches route (req_path req) then find_route rs req path_matched
      else if req_method req = route_method route then (Some route, True)
      else find_route rs req True)"

definition root_route :: Route where
  "root_route = \<lparr>route_method = ''GET'', route_match = Exact, route_path = ''/'', route_middleware = [],
     route_handler = controller_root\<rparr>"

definition uploads_route :: "('f, 'w) host \<Rightarrow> 'w \<Rightarrow> Server \<Rightarrow> Route" where
  "uploads_route h w srv = \<lparr>route_method = ''GET'', route_match = Exact, route_path = ''/uploads'',
     route_middleware = [require_auth h w srv], route_handler = uploads_list h w srv\<rparr>"

definition download_route :: "('f, 'w) host \<Rightarrow> 'w \<Rightarrow> Server \<Rightarrow> Route" where
  "download_route h w srv = \<lparr>route_method = ''GET'', route_match = Prefix, route_path = ''/uploads/'',
     route_middleware = [require_auth h w srv], route_handler = uploads_download h w srv\<rparr>"

definition add_builtin_routes :: "('f, 'w) host \<Rightarrow> 'w \<Rightarrow> Server \<Rightarrow> Router \<Rightarrow> Router" where
  "add_builtin_routes h w srv r =
     r\<lparr>builtins := builtins r @ [root_route, uploads_route h w srv, download_route h w srv]\<rparr>"

definition add_route :: "string \<Rightarrow> Match \<Rightarrow> string \<Rightarrow> HttpHandler \<Rightarrow> Middleware list \<Rightarrow> Router \<Rightarrow> Router" where
  "add_route meth mtch p handler middleware r =
     r\<lparr>routes := routes r @ [\<lparr>route_method = meth, route_match = mtch, route_path = p,
       route_middleware = middleware, route_handler = handler\<rparr>]\<rparr>"

text \<open>\<open>Next::operator()\<close> at an index of the middleware chain.\<close>

function run_next :: "Route \<Rightarrow> nat \<Rightarrow> HttpHandler" where
  "run_next route index ctx =
     (if index < length (route_middleware route)
      then (route_middleware route ! index) ctx (\<lambda>c. run_next route (index + 1) c)
      else route_handler route ctx)"
  by pat_completeness auto
termination
  by (relation "measure (\<lambda>(route, index, ctx). length (route_middleware route) - index)") auto

declare run_next.simps [simp del]

definition run_route :: "Route \<Rightarrow> HttpRequest \<Rightarrow> http_call list option" where
  "run_route route req =
     (let par = (if route_match route = Prefix then drop (length (route_path route)) (req_path req) else [])
      in case run_next route 0 (context_new req par) of
           None \<Rightarrow> None
         | Some ctx \<Rightarrow> Some (conn_calls ctx @
             (if respond ctx
              then [Send_Http_Simple (ctx_status ctx) (reason_phrase (ctx_status ctx)) (ctx_type ctx)
                      (ctx_body ctx) (ctx_headers ctx)]
              else [])))"

definition dispatch :: "Router \<Rightarrow> HttpRequest \<Rightarrow> http_call list option" where
  "dispatch r req =
     (case find_route (routes r) req False of (matched0, path_matched0) \<Rightarrow>
        case (case matched0 of None \<Rightarrow> find_route (builtins r) req path_matched0 | Some _ \<Rightarrow> (matched0, path_matched0)) of
          (None, path_matched) \<Rightarrow>
            Some [if path_matched
                  then Send_Http_Simple 405 ''Method Not Allowed'' text_plain (''method not allowed'' @ [lf]) []
                  else Send_Http_Simple 404 ''Not Found'' text_plain (''not found'' @ [lf]) []]
        | (Some route, path_matched) \<Rightarrow> run_route route req)"

text \<open>The router of a server: its own routes and, unless switched off, the built-in ones.\<close>

definition server_router :: "('f, 'w) host \<Rightarrow> 'w \<Rightarrow> Server \<Rightarrow> Route list \<Rightarrow> Router" where
  "server_router h w srv own =
     (let r = \<lparr>routes = own, builtins = []\<rparr>
      in if default_routes (config srv) then add_builtin_routes h w srv r else r)"

section \<open>Which route answers\<close>

text \<open>The server's own routes leave a request to the built-in ones.\<close>

definition leaves :: "Route list \<Rightarrow> HttpRequest \<Rightarrow> bool" where
  "leaves own req \<longleftrightarrow> fst (find_route own req False) = None"

lemma find_route_none:
  "list_all (\<lambda>r. \<not> (path_matches r (req_path req) \<and> req_method req = route_method r)) rs \<Longrightarrow>
    find_route rs req b = (None, b \<or> list_ex (\<lambda>r. path_matches r (req_path req)) rs)"
  by (induction rs req b rule: find_route.induct) auto

lemmas route_defs = root_route_def uploads_route_def download_route_def

lemma builtin_matches:
  "path_matches root_route p \<longleftrightarrow> p = ''/''"
  "path_matches (uploads_route h w srv) p \<longleftrightarrow> p = ''/uploads''"
  "path_matches (download_route h w srv) p \<longleftrightarrow> (\<exists>t. p = ''/uploads/'' @ t)"
  using str_prefix_take [of "''/uploads/''" p] str_prefix_iff [of "''/uploads/''" p]
  by (simp_all add: route_defs path_matches_def)

lemma builtin_methods [simp]:
  "route_method root_route = ''GET''" "route_method (uploads_route h w srv) = ''GET''"
  "route_method (download_route h w srv) = ''GET''"
  by (simp_all add: route_defs)

lemma server_router_simps [simp]:
  "routes (server_router h w srv own) = own"
  "builtins (server_router h w srv own) =
    (if default_routes (config srv) then [root_route, uploads_route h w srv, download_route h w srv] else [])"
  by (simp_all add: server_router_def add_builtin_routes_def Let_def)

definition unrouted :: "bool \<Rightarrow> http_call" where
  "unrouted path_matched =
     (if path_matched then Send_Http_Simple 405 ''Method Not Allowed'' text_plain (''method not allowed'' @ [lf]) []
      else Send_Http_Simple 404 ''Not Found'' text_plain (''not found'' @ [lf]) [])"

lemma dispatch_left:
  assumes "leaves (routes r) req"
  shows "dispatch r req =
    (case find_route (builtins r) req (snd (find_route (routes r) req False)) of
       (None, b) \<Rightarrow> Some [unrouted b] | (Some route, b) \<Rightarrow> run_route route req)"
  using assms by (auto simp: dispatch_def leaves_def unrouted_def split: prod.splits option.splits)

lemma dispatch_builtin:
  assumes "leaves own req" and "default_routes (config srv)" and "req_method req = ''GET''"
  shows "req_path req = ''/uploads'' \<Longrightarrow> dispatch (server_router h w srv own) req = run_route (uploads_route h w srv) req"
    and "req_path req = ''/uploads/'' @ t \<Longrightarrow> dispatch (server_router h w srv own) req = run_route (download_route h w srv) req"
  using assms dispatch_left [of "server_router h w srv own" req] by (auto simp: builtin_matches)

text \<open>A built-in route answers behind \<open>require_auth\<close>, on a fresh context.\<close>

definition finish :: "HttpContext \<Rightarrow> http_call list" where
  "finish ctx = conn_calls ctx @
     (if respond ctx
      then [Send_Http_Simple (ctx_status ctx) (reason_phrase (ctx_status ctx)) (ctx_type ctx) (ctx_body ctx) (ctx_headers ctx)]
      else [])"

definition unauthorized_reply :: http_call where
  "unauthorized_reply = Send_Http_Simple 401 ''Unauthorized'' text_plain (''unauthorized'' @ [lf]) [(''WWW-Authenticate'', ''Bearer'')]"

lemma run_guarded:
  assumes "route_middleware route = [require_auth h w srv]"
  shows "run_route route req =
    (let par = (if route_match route = Prefix then drop (length (route_path route)) (req_path req) else [])
     in if authorized h w srv req then map_option finish (route_handler route (context_new req par))
        else Some [unauthorized_reply])"
  using assms
  by (auto simp: run_route_def run_next.simps [of route 0] run_next.simps [of route "Suc 0"] require_auth_def context_new_def
      set_header_def finish_def unauthorized_reply_def reason_phrase_def Let_def split: option.splits)

lemma run_uploads:
  "run_route (uploads_route h w srv) req =
    (if authorized h w srv req then map_option finish (uploads_list h w srv (context_new req []))
     else Some [unauthorized_reply])"
  using run_guarded [of "uploads_route h w srv" h w srv req] by (simp add: uploads_route_def)

lemma run_download:
  "req_path req = ''/uploads/'' @ t \<Longrightarrow> run_route (download_route h w srv) req =
    (if authorized h w srv req then map_option finish (uploads_download h w srv (context_new req t))
     else Some [unauthorized_reply])"
  using run_guarded [of "download_route h w srv" h w srv req] by (simp add: download_route_def)

lemma authorized_cong:
  "tokens_path srv' = tokens_path srv \<Longrightarrow> config srv' = config srv \<Longrightarrow> authorized h w srv' req = authorized h w srv req"
  by (simp add: authorized_def verify_token_def split: option.split)

section \<open>A sample server\<close>

definition sample_server :: Server where
  "sample_server = server_new mem_host mem_db sample_config"

lemma sample_server_config: "config sample_server = sample_config" "tokens_path sample_server = path_append ''r'' ''.dicker-tokens.json''"
  by (simp_all add: sample_server_def server_new_def sample_config_def Let_def)

lemma sample_default: "default_routes (config sample_server)"
  by (simp add: sample_server_config sample_config_def)

lemma sample_header: "header sample_request ''authorization'' = Some (''Bearer '' @ ''t0'')"
  by (simp add: header_def sample_request_def)

lemma sample_unauthorized: "\<not> authorized mem_host mem_db sample_server sample_request"
  by (simp add: authorized_def sample_header verify_token_def tokens_load_def mem_host_def mem_db_os_def mem_db_def tokens_verify_mem)

text \<open>A store that holds the token of the sample request.\<close>

definition token_doc :: bytes where
  "token_doc = the (tokens_to_json sample_floats [''t0''])"

definition token_db :: MemDb where
  "token_db = mem_db\<lparr>db_content := [path_append ''r'' ''.dicker-tokens.json'' \<mapsto> replicate 28 0 @ token_doc]\<rparr>"

lemma sample_authorized:
  assumes "header req ''authorization'' = Some (''Bearer '' @ ''t0'')"
  shows "authorized mem_host token_db sample_server req"
proof -
  have "list_all (\<lambda>t. utf8 (bytes_of t)) [''t0'']"
    by (simp add: utf8_def)
  then have doc: "tokens_to_json sample_floats [''t0''] = Some token_doc"
    unfolding token_doc_def using tokens_to_json_utf8 [of sample_floats "[''t0'']"] by auto
  have "tokens_load sample_floats mem_db_os token_db (path_append ''r'' ''.dicker-tokens.json'') ''k'' = Inr [''t0'']"
    using tokens_from_to_json [OF doc]
    by (simp add: tokens_load_def token_db_def mem_db_os_def gcm_open_def kNonceSize_def kTagSize_def)
  then show ?thesis
    using assms by (simp add: authorized_def verify_token_def sample_server_config tokens_verify_mem) (simp add: mem_host_def sample_config_def tokens_verify_mem)
qed

section \<open>Properties\<close>



lemma valid_id_name:
  assumes "valid_session_id sid"
  shows "proper_name sid" and "\<not> path_absolute sid" and "sid \<noteq> []"
proof -
  have slash: "CHR ''/'' \<notin> set sid"
    using assms by (auto simp: valid_session_id_def list_all_iff hex_char_def Let_def)
  show ne: "sid \<noteq> []"
    using assms by (simp add: valid_session_id_def)
  show "proper_name sid"
    using slash ne by (simp add: proper_name_def)
  show "\<not> path_absolute sid"
    using slash by (cases sid) (auto simp: path_absolute_def)
qed

lemma not_found_calls [simp]: "Begin_Download_Response sid dir \<notin> set (finish (not_found (context_new req t)))"
  by (simp add: finish_def not_found_def context_new_def)

lemma download_calls:
  "finish (begin_download sid dir (context_new req t)) = [Begin_Download_Response sid dir]"
  by (simp add: finish_def begin_download_def context_new_def)

lemma uploads_download_calls:
  "uploads_download h w srv (context_new req t) = Some ctx \<Longrightarrow> Begin_Download_Response sid dir \<in> set (finish ctx) \<Longrightarrow>
    sid = t \<and> valid_session_id t \<and> dir = path_append (config_root (config srv)) t \<and> is_directory h w dir"
proof -
  have "ctx_param (context_new req t) = t"
    by (simp add: context_new_def)
  then show "uploads_download h w srv (context_new req t) = Some ctx \<Longrightarrow> Begin_Download_Response sid dir \<in> set (finish ctx) \<Longrightarrow>
    sid = t \<and> valid_session_id t \<and> dir = path_append (config_root (config srv)) t \<and> is_directory h w dir"
    by (auto simp: uploads_download_def download_calls Let_def split: if_splits)
qed

lemma builtin_download:
  assumes "leaves own req" and "dispatch (server_router h w srv own) req = Some calls"
    and "Begin_Download_Response sid dir \<in> set calls"
  shows "\<exists>t. req_path req = ''/uploads/'' @ t \<and> run_route (download_route h w srv) req = Some calls"
proof -
  have "Begin_Download_Response sid dir \<notin> set calls" if "run_route (uploads_route h w srv) req = Some calls"
    using that by (auto simp: run_uploads finish_def uploads_list_def context_new_def unauthorized_reply_def
        split: if_splits option.splits)
  moreover have "Begin_Download_Response sid dir \<notin> set calls" if "run_route root_route req = Some calls"
    using that by (auto simp: run_route_def root_route_def run_next.simps controller_root_def context_new_def)
  ultimately show ?thesis
    using assms dispatch_left [of "server_router h w srv own" req]
    by (auto simp: builtin_matches unrouted_def split: if_splits)
qed

text \<open>
  Property C21.  A download stays below the root: whatever request starts one, it is authorised, and the
  directory is the session's own, a direct child of the root whose name is the hexadecimal id
  in the path.
\<close>

theorem downloads_confined:
  assumes "leaves own req" and "dispatch (server_router h w srv own) req = Some calls"
    and "Begin_Download_Response sid dir \<in> set calls"
  shows "authorized h w srv req \<and> req_path req = ''/uploads/'' @ sid \<and> valid_session_id sid \<and>
    path_names dir = path_names (config_root (config srv)) @ [sid] \<and> is_directory h w dir"
proof -
  obtain t where path: "req_path req = ''/uploads/'' @ t" and run: "run_route (download_route h w srv) req = Some calls"
    using builtin_download [OF assms] by blast
  have auth: "authorized h w srv req"
    using run assms(3) by (auto simp: run_download [OF path] unauthorized_reply_def split: if_splits)
  obtain ctx where "uploads_download h w srv (context_new req t) = Some ctx" "calls = finish ctx"
    using run auth by (auto simp: run_download [OF path])
  from uploads_download_calls [OF this(1)] assms(3) this(2)
  have t: "sid = t" "valid_session_id t" "dir = path_append (config_root (config srv)) t" "is_directory h w dir"
    by auto
  with valid_id_name [of t] show ?thesis
    using auth path path_append_relative(1) [of t "config_root (config srv)"] by simp
qed

lemma hex_chars: "list_all hex_char (hex bs)"
proof -
  have "\<forall>i\<in>set [0..<16]. hex_char (hex_digits ! i)"
    by code_simp
  then have digit: "hex_char (hex_digits ! i)" if "i < 16" for i
    using that by simp
  show ?thesis
    by (induction bs) (simp_all add: digit nibble_bounds)
qed

lemma session_name_valid: "sid \<noteq> [] \<Longrightarrow> length sid \<le> 32 \<Longrightarrow> valid_session_id (session_id_to_hex sid)"
  using hex_chars [of sid] by (cases sid) (simp_all add: valid_session_id_def session_id_to_hex_def)

theorem downloads_confined_witness:
  "dispatch (server_router mem_host token_db sample_server []) (sample_request\<lparr>req_path := ''/uploads/5e''\<rparr>) =
     Some [Begin_Download_Response ''5e'' (path_append ''r'' ''5e'')] \<and>
   path_names (path_append ''r'' ''5e'') = path_names (config_root (config sample_server)) @ [''5e'']"
proof -
  let ?req = "sample_request\<lparr>req_path := ''/uploads/5e''\<rparr>"
  have path: "req_path ?req = ''/uploads/'' @ ''5e''"
    by simp
  have auth: "authorized mem_host token_db sample_server ?req"
    by (rule sample_authorized) (simp add: header_def sample_request_def)
  have left: "leaves [] ?req" and get: "req_method ?req = ''GET''"
    by (simp_all add: leaves_def sample_request_def)
  have "uploads_download mem_host token_db sample_server (context_new ?req ''5e'') =
      Some (begin_download ''5e'' (path_append ''r'' ''5e'') (context_new ?req ''5e''))"
    by (simp add: uploads_download_def context_new_def valid_session_id_def hex_char_def mem_host_def
        sample_server_config sample_config_def Let_def)
  then have run: "dispatch (server_router mem_host token_db sample_server []) ?req =
      Some [Begin_Download_Response ''5e'' (path_append ''r'' ''5e'')]"
    using dispatch_builtin(2) [OF left sample_default get path, where h = mem_host and w = token_db] auth
    by (simp add: run_download [OF path] download_calls)
  with downloads_confined [OF left run, of "''5e''" "path_append ''r'' ''5e''"] show ?thesis
    by simp
qed

text \<open>
  Property C22.  A session is offered under the name it is stored under: an authorised request for the
  hexadecimal name of a session id streams exactly the directory its sink writes to.
\<close>

theorem session_downloadable:
  assumes "default_routes (config srv)" and "sinks_ok srv" and "length sid = kSessionIdSize"
    and "get_or_create_sink h (srv, w0) sid = (Some k, srv', w1)" and "sinks srv' k = Some snk"
    and "leaves own req" and "req_method req = ''GET''" and "req_path req = ''/uploads/'' @ session_id_to_hex sid"
    and "authorized h w srv' req" and "is_directory h w (session_root snk)"
  shows "dispatch (server_router h w srv' own) req =
    Some [Begin_Download_Response (session_id_to_hex sid) (session_root snk)]"
proof -
  note sink = get_or_create_sink_ok [OF assms(2,4)]
  have root: "session_root snk = path_append (config_root (config srv')) (session_id_to_hex sid)"
    using sink assms(5) by auto
  have "valid_session_id (session_id_to_hex sid)"
    using assms(3) by (intro session_name_valid) (auto simp: kSessionIdSize_def)
  moreover have "ctx_param (context_new req t) = t" for t
    by (simp add: context_new_def)
  ultimately have "uploads_download h w srv' (context_new req (session_id_to_hex sid)) =
      Some (begin_download (session_id_to_hex sid) (session_root snk) (context_new req (session_id_to_hex sid)))"
    using assms(10) root by (simp add: uploads_download_def Let_def)
  moreover have "default_routes (config srv')"
    using assms(1) sink(3) by simp
  ultimately show ?thesis
    using assms(9) dispatch_builtin(2) [OF assms(6) _ assms(7,8), where h = h and w = w and srv = srv'] by (simp add: run_download [OF assms(8)] download_calls)
qed

theorem session_downloadable_witness:
  "\<exists>srv'. get_or_create_sink mem_host (sample_server, mem_db) (replicate 16 0) = (Some (hex (replicate 16 0)), srv', mem_db) \<and>
   dispatch (server_router mem_host token_db srv' []) (sample_request\<lparr>req_path := ''/uploads/'' @ hex (replicate 16 0)\<rparr>) =
     Some [Begin_Download_Response (hex (replicate 16 0)) (path_append ''r'' (hex (replicate 16 0)))]"
proof -
  let ?sid = "replicate 16 0 :: bytes" and ?root = "path_append ''r'' (hex (replicate 16 0))"
  let ?srv = "sample_server\<lparr>sinks := [hex ?sid \<mapsto> \<lparr>session_root = ?root, chunk_files = []\<rparr>]\<rparr>"
  let ?req = "sample_request\<lparr>req_path := ''/uploads/'' @ hex ?sid\<rparr>"
  have ok: "sinks_ok sample_server" and none: "sinks sample_server = Map.empty"
    by (simp_all add: sample_server_def sinks_ok_new) (simp add: server_new_def Let_def)
  have sink: "get_or_create_sink mem_host (sample_server, mem_db) ?sid = (Some (hex ?sid), ?srv, mem_db)"
    by (simp add: get_or_create_sink_def none session_id_to_hex_def mem_host_def sample_server_config sample_config_def Let_def
        del: hex.simps)
  have "authorized mem_host token_db sample_server ?req"
    by (rule sample_authorized) (simp add: header_def sample_request_def)
  then have auth: "authorized mem_host token_db ?srv ?req"
    by (simp add: authorized_cong [of ?srv sample_server])
  show ?thesis
    using session_downloadable [OF sample_default ok _ sink, of "\<lparr>session_root = ?root, chunk_files = []\<rparr>" "[]" ?req token_db] auth sink
    by (simp add: leaves_def sample_request_def session_id_to_hex_def kSessionIdSize_def del: hex.simps) (simp add: mem_host_def)
qed

text \<open>
  Property C25.  A request that no route takes is answered, with 405 if some route of the server has its path and
  with 404 otherwise; no handler and no middleware runs.
\<close>

theorem unrouted_answered:
  assumes "list_all (\<lambda>route. \<not> (path_matches route (req_path req) \<and> req_method req = route_method route)) (routes r @ builtins r)"
  shows "dispatch r req = Some [unrouted (list_ex (\<lambda>route. path_matches route (req_path req)) (routes r @ builtins r))]"
proof -
  have "leaves (routes r) req"
    using assms find_route_none [of req "routes r" False] by (simp add: leaves_def)
  then show ?thesis
    using assms find_route_none [of req "routes r" False] find_route_none [of req "builtins r"]
    by (simp add: dispatch_left)
qed

theorem unrouted_answered_witness:
  "dispatch (server_router mem_host mem_db (server_new mem_host mem_db sample_config) [])
     (sample_request\<lparr>req_method := ''POST''\<rparr>) = Some [unrouted True]"
proof -
  have "default_routes (config (server_new mem_host mem_db sample_config))"
    by (simp add: server_new_def sample_config_def Let_def)
  then show ?thesis
    using unrouted_answered [of "sample_request\<lparr>req_method := ''POST''\<rparr>"
        "server_router mem_host mem_db (server_new mem_host mem_db sample_config) []"]
    by (simp add: sample_request_def builtin_matches)
qed

section \<open>The list of sessions\<close>

lemma session_row_utf8:
  assumes "session_row_from_json fl doc = Some (sid, info)"
  shows "utf8 sid \<and> utf8 (bytes_of (info_ip info))"
proof -
  from assms obtain ms where ms: "parse fl doc = Some (json_object ms)"
    by (auto simp: session_row_from_json_def split: option.splits json.splits)
  from parse_utf8_value [OF this] have "json_utf8 v" if "map_of ms k = Some v" for k v
    using that by (auto simp: list_all_iff dest!: map_of_SomeD)
  with assms ms show ?thesis
    by (force simp: session_row_from_json_def split: option.splits json.splits)
qed

definition row_utf8 :: "bytes \<times> SessionInfo \<Rightarrow> bool" where
  "row_utf8 entry \<longleftrightarrow> utf8 (fst entry) \<and> utf8 (bytes_of (info_ip (snd entry)))"

lemma member_set_rows: "list_all row_utf8 ms \<Longrightarrow> row_utf8 (k, v) \<Longrightarrow> list_all row_utf8 (member_set k v ms)"
  by (induction ms) (auto simp: row_utf8_def)

lemma load_line_rows: "list_all row_utf8 ms \<Longrightarrow> list_all row_utf8 (load_line fl os k line ms)"
  by (auto simp: load_line_def intro!: member_set_rows dest!: session_row_utf8 simp: row_utf8_def split: option.splits)

lemma load_lines_rows: "list_all row_utf8 acc \<Longrightarrow> list_all row_utf8 (fold (load_line fl os k) ls acc)"
  by (induction ls arbitrary: acc) (simp_all add: load_line_rows)

lemma load_sessions_rows: "list_all row_utf8 (load_sessions h w srv)"
  by (simp add: load_sessions_def load_all_text load_lines_rows)

lemma utf8_names: "utf8 (bytes_of ''sessionId'')" "utf8 (bytes_of ''ip'')" "utf8 (bytes_of ''created'')"
  by (simp_all add: utf8_def)

lemma dump_rows: "list_all row_utf8 es \<Longrightarrow> dump_array fl False (map session_row es) \<noteq> None"
  using utf8_names
  by (induction es) (auto simp: session_row_def row_utf8_def dump_escaped_eq split: Option.bind_splits)

lemma printable_rows: "printable (json_array (map session_row es))"
  by (induction es) (simp_all add: session_row_def)

lemma uploads_list_answer:
  "\<exists>body. uploads_list h w srv (context_new req []) =
      Some (context_new req []\<lparr>ctx_type := ''application/json'', ctx_body := body\<rparr>) \<and>
    parse (host_floats h) (bytes_of body) = Some (json_array (map (canon \<circ> session_row) (load_sessions h w srv)))"
proof -
  let ?v = "json_array (map session_row (load_sessions h w srv))"
  obtain doc where doc: "dump (host_floats h) False ?v = Some doc"
    using dump_rows [OF load_sessions_rows, of "host_floats h" h w srv] by fastforce
  from parse_dump_canon [OF doc printable_rows] doc show ?thesis
    by (intro exI [of _ "string_of doc"]) (simp add: uploads_list_def)
qed

text \<open>
  Property C23.  The list of sessions never fails: an authorised request for it is answered 200 with a JSON
  document that parses to one object per session of the log, in the order of the log's ids, with
  id, address and time as stored, whatever bytes the log holds.
\<close>

theorem uploads_listed:
  assumes "default_routes (config srv)" and "leaves own req" and "req_method req = ''GET''" and "req_path req = ''/uploads''"
    and "authorized h w srv req"
  shows "\<exists>body. dispatch (server_router h w srv own) req = Some [Send_Http_Simple 200 ''OK'' ''application/json'' body []] \<and>
    parse (host_floats h) (bytes_of body) = Some (json_array (map (canon \<circ> session_row) (load_sessions h w srv)))"
proof -
  obtain body where body: "uploads_list h w srv (context_new req []) =
      Some (context_new req []\<lparr>ctx_type := ''application/json'', ctx_body := body\<rparr>)"
    and read: "parse (host_floats h) (bytes_of body) = Some (json_array (map (canon \<circ> session_row) (load_sessions h w srv)))"
    using uploads_list_answer [of h w srv req] by blast
  have "finish (context_new req []\<lparr>ctx_type := ''application/json'', ctx_body := body\<rparr>) =
      [Send_Http_Simple 200 ''OK'' ''application/json'' body []]"
    by (simp add: finish_def context_new_def reason_phrase_def)
  with body read show ?thesis
    using assms(5) dispatch_builtin(1) [OF assms(2,1,3,4), where h = h and w = w] by (auto simp: run_uploads)
qed

theorem uploads_listed_witness:
  "authorized mem_host token_db sample_server sample_request \<and>
   (\<exists>body. dispatch (server_router mem_host token_db sample_server []) sample_request =
      Some [Send_Http_Simple 200 ''OK'' ''application/json'' body []] \<and>
    parse (host_floats mem_host) (bytes_of body) =
      Some (json_array (map (canon \<circ> session_row) (load_sessions mem_host token_db sample_server))))"
  using uploads_listed [OF sample_default _ _ _ sample_authorized [OF sample_header], of "[]"] sample_authorized [OF sample_header]
  by (simp add: leaves_def sample_request_def)

section \<open>Tokens take effect at once\<close>

lemma authorized_bearer:
  "header req ''authorization'' = Some (''Bearer '' @ t) \<Longrightarrow> authorized h w srv req \<longleftrightarrow> t \<noteq> [] \<and> verify_token h w srv t"
  by (cases t) (simp_all add: authorized_def)



end
