(* ===== verification/Connection.thy ===== *)
theory Connection
  imports Router
begin

text \<open>
  The event loop's side of a connection, \<open>server/connection.h\<close> and \<open>server/connection.cxx\<close>, for
  connections without TLS: what each callback does with the handshake, the channel to the consumer thread, the replies
  and the life of the object.

  The state holds the members of \<open>Connection\<close> and what libuv and the consumer thread hold for it: whether reading is
  on, the writes under way, the asyncs that have been sent, and where the consumer thread is.  An event is one callback of the
  event loop or one step of the consumer thread; \<open>enabled\<close> says when libuv may deliver it.  The
  consumer is any thread that reads from the channel, posts replies and ends, which covers
  \<open>consumer_main\<close>.  Whether a call of \<open>uv_write\<close> succeeds is part of the event.
  Left out is what does not act back on this state: log lines and their counters, the emitted events, the decompressor, and recording the session, which
  \<open>Server_Core\<close> has.
\<close>

section \<open>State\<close>

datatype conn_state = Handshaking | Streaming | Closing

text \<open>The consumer thread: between two reads, inside \<open>read_exact\<close> (bytes copied, count, \<open>signaled\<close>), or at its end.\<close>

datatype consumer_pc = No_Thread | Thinking | Reading bytes nat bool | Thread_Ended

datatype write_kind = Reply_Write bool | Download_Write

record conn_env =
  env_key :: string
  high_water :: nat
  low_water :: nat
  env_mode :: "u16 \<Rightarrow> byte"
  sink_for :: "bytes \<Rightarrow> bool"
  dispatch_http :: "HttpRequest \<Rightarrow> http_call list"
  archive_chunks :: "string \<Rightarrow> string \<Rightarrow> bytes list option"

record Connection =
  cn_state :: conn_state
  handshake_buffer :: bytes
  tls_detected :: bool
  proto_decided :: bool
  http_mode :: bool
  http_done :: bool
  protocol_version :: u16
  cn_mode :: byte
  cn_integrity :: bool
  cn_session :: string
  chan :: ByteChannel
  paused :: bool
  consumer_started :: bool
  teardown_started :: bool
  handles_closing :: bool
  pending_handle_closes :: nat
  outbox :: bytes
  download_rest :: "bytes list"
  uv_reading :: bool
  uv_writes :: "write_kind list"
  uv_sent :: bytes
  resume_sent :: bool
  close_sent :: bool
  outbox_sent :: bool
  consumer_pc :: consumer_pc
  consumed :: bytes
  join_blocked :: bool
  deleted :: bool

definition connection_new :: "conn_env \<Rightarrow> Connection" where
  "connection_new env = \<lparr>cn_state = Handshaking, handshake_buffer = [], tls_detected = False, proto_decided = False,
     http_mode = False, http_done = False, protocol_version = kMinProtocolVersion, cn_mode = 0, cn_integrity = False,
     cn_session = [], chan = channel_new (low_water env), paused = False, consumer_started = False, teardown_started = False,
     handles_closing = False, pending_handle_closes = 0, outbox = [], download_rest = [], uv_reading = True, uv_writes = [],
     uv_sent = [], resume_sent = False, close_sent = False, outbox_sent = False, consumer_pc = No_Thread, consumed = [],
     join_blocked = False, deleted = False\<rparr>"

section \<open>Closing\<close>

definition finalize_close :: "Connection \<Rightarrow> Connection" where
  "finalize_close c =
     (if handles_closing c then c else c\<lparr>handles_closing := True, pending_handle_closes := pending_handle_closes c + 4\<rparr>)"

definition begin_teardown :: "Connection \<Rightarrow> Connection" where
  "begin_teardown c =
     (if teardown_started c then c
      else let c1 = c\<lparr>teardown_started := True, cn_state := Closing\<rparr>
           in if consumer_started c1 then c1\<lparr>chan := channel_close (chan c1)\<rparr> else finalize_close c1)"

definition on_close_async :: "Connection \<Rightarrow> Connection" where
  "on_close_async c = finalize_close (c\<lparr>close_sent := False, teardown_started := True, cn_state := Closing\<rparr>)"

text \<open>The last callback joins the consumer thread, which blocks the event loop while that thread runs, and deletes the object.\<close>

definition on_handle_closed :: "Connection \<Rightarrow> Connection" where
  "on_handle_closed c =
     (let c1 = c\<lparr>pending_handle_closes := pending_handle_closes c - 1\<rparr>
      in if pending_handle_closes c1 = 0
         then if consumer_started c1 \<and> consumer_pc c1 \<noteq> Thread_Ended then c1\<lparr>join_blocked := True\<rparr>
              else c1\<lparr>deleted := True\<rparr>
         else c1)"

section \<open>Writing\<close>

definition uv_write :: "bool \<Rightarrow> write_kind \<Rightarrow> bytes \<Rightarrow> Connection \<Rightarrow> Connection" where
  "uv_write wr kind data c =
     (if wr then c\<lparr>uv_writes := uv_writes c @ [kind], uv_sent := uv_sent c @ data\<rparr> else begin_teardown c)"

definition send_handshake_reply :: "bool \<Rightarrow> HandshakeStatus \<Rightarrow> Connection \<Rightarrow> Connection" where
  "send_handshake_reply wr status c =
     uv_write wr (Reply_Write (status \<noteq> Ok))
       (kMagic @ [byte_of_status status] @ (if status = Ok \<and> 2 \<le> protocol_version c then [cn_mode c] else [])) c"

definition send_http_simple :: "bool \<Rightarrow> nat \<Rightarrow> string \<Rightarrow> string \<Rightarrow> string \<Rightarrow> (string \<times> string) list \<Rightarrow> Connection \<Rightarrow> Connection" where
  "send_http_simple wr status reason content_type body extra c =
     (let hs = extra @ [(''Connection'', ''close'')];
          head = http_response_headers status reason content_type (int (length body)) hs
      in uv_write wr (Reply_Write True) (bytes_of head @ bytes_of body) c)"

definition download_next :: "bool \<Rightarrow> Connection \<Rightarrow> Connection" where
  "download_next wr c =
     (case download_rest c of
        [] \<Rightarrow> begin_teardown c
      | chunk # rest \<Rightarrow> uv_write wr Download_Write chunk (c\<lparr>download_rest := rest\<rparr>))"

definition begin_download_response :: "conn_env \<Rightarrow> bool \<Rightarrow> string \<Rightarrow> string \<Rightarrow> Connection \<Rightarrow> Connection" where
  "begin_download_response env wr sid dir_path c =
     (case archive_chunks env dir_path sid of
        None \<Rightarrow> send_http_simple wr 500 ''Internal Server Error'' text_plain (''archive error'' @ [CHR 0x0A]) [] c
      | Some chunks \<Rightarrow>
          let disposition = ''attachment; filename='' @ [CHR 0x22] @ sid @ ''.tar.zst'' @ [CHR 0x22];
              head = http_response_headers 200 ''OK'' ''application/zstd'' (-1)
                [(''Content-Disposition'', disposition), (''Connection'', ''close'')]
          in uv_write wr Download_Write (bytes_of head) (c\<lparr>download_rest := chunks\<rparr>))"

definition on_write :: "bool \<Rightarrow> bool \<Rightarrow> Connection \<Rightarrow> Connection" where
  "on_write status_ok wr c =
     (case uv_writes c of
        [] \<Rightarrow> c
      | kind # rest \<Rightarrow>
          let c1 = c\<lparr>uv_writes := rest\<rparr>
          in case kind of
               Reply_Write teardown_after \<Rightarrow> if teardown_after \<or> \<not> status_ok then begin_teardown c1 else c1
             | Download_Write \<Rightarrow> if \<not> status_ok then begin_teardown c1 else download_next wr c1)"

section \<open>Reading\<close>

definition apply_backpressure :: "conn_env \<Rightarrow> Connection \<Rightarrow> Connection" where
  "apply_backpressure env c =
     (if \<not> paused c \<and> high_water env \<le> buffered_bytes (chan c) then c\<lparr>uv_reading := False, paused := True\<rparr> else c)"

definition kMaxHttpHeaderBytes :: nat where "kMaxHttpHeaderBytes = 64 * 1024"

definition bad_request :: "bool \<Rightarrow> Connection \<Rightarrow> Connection" where
  "bad_request wr c =
     send_http_simple wr 400 ''Bad Request'' text_plain (''bad request'' @ [CHR 0x0A]) [] (c\<lparr>http_done := True\<rparr>)"

fun http_do :: "conn_env \<Rightarrow> bool \<Rightarrow> http_call \<Rightarrow> Connection \<Rightarrow> Connection" where
  "http_do env wr (Send_Http_Simple status reason content_type body extra) c = send_http_simple wr status reason content_type body extra c"
| "http_do env wr (Begin_Download_Response sid dir_path) c = begin_download_response env wr sid dir_path c"

definition handle_http_data :: "conn_env \<Rightarrow> bool \<Rightarrow> Connection \<Rightarrow> Connection" where
  "handle_http_data env wr c =
     (if http_done c then c
      else let txt = string_of (handshake_buffer c); header_end = http_header_end txt
           in if header_end = 0 then if kMaxHttpHeaderBytes < length txt then bad_request wr c else c
              else case parse_http_request (take header_end txt) of
                     None \<Rightarrow> bad_request wr c
                   | Some request \<Rightarrow> fold (http_do env wr) (dispatch_http env request) (c\<lparr>http_done := True\<rparr>))"

definition start_streaming :: "conn_env \<Rightarrow> HandshakeRequest \<Rightarrow> Connection \<Rightarrow> Connection" where
  "start_streaming env request c =
     (let leftover = drop kHandshakeRequestSize (handshake_buffer c);
          c1 = c\<lparr>cn_integrity := has_flag (flags request) IntegrityChecks, cn_session := session_id_to_hex (session_id request),
                 cn_state := Streaming, handshake_buffer := [], consumer_started := True, consumer_pc := Thinking\<rparr>
      in if leftover \<noteq> [] then apply_backpressure env (c1\<lparr>chan := push (chan c1) leftover\<rparr>) else c1)"

definition blank_request :: HandshakeRequest where
  "blank_request = \<lparr>HandshakeRequest.version = 0, flags = 0, algo = AlgoNone, session_id = []\<rparr>"

definition handle_request :: "conn_env \<Rightarrow> bool \<Rightarrow> Connection \<Rightarrow> Connection" where
  "handle_request env wr c =
     (case parse_and_verify_handshake (handshake_buffer c) (env_key env) blank_request of (parsed, request) \<Rightarrow>
        let status = (if parsed = Ok \<and> \<not> sink_for env (session_id request) then ServerError else parsed);
            c1 = (if parsed = Ok then c\<lparr>protocol_version := HandshakeRequest.version request, cn_mode := env_mode env (HandshakeRequest.version request)\<rparr> else c);
            c2 = send_handshake_reply wr status c1
        in if status \<noteq> Ok then c2 else start_streaming env request c2)"

definition handle_handshake_data :: "conn_env \<Rightarrow> bool \<Rightarrow> bytes \<Rightarrow> Connection \<Rightarrow> Connection" where
  "handle_handshake_data env wr data c =
     (let c1 = c\<lparr>handshake_buffer := handshake_buffer c @ data\<rparr>;
          n = min (length (handshake_buffer c1)) (length kMagic);
          c2 = (if proto_decided c1 then c1
                else if take n (handshake_buffer c1) \<noteq> take n kMagic then c1\<lparr>proto_decided := True, http_mode := True\<rparr>
                else if length kMagic \<le> length (handshake_buffer c1) then c1\<lparr>proto_decided := True, http_mode := False\<rparr>
                else c1)
      in if \<not> proto_decided c2 then c2
         else if http_mode c2 then handle_http_data env wr c2
         else if length (handshake_buffer c2) < kHandshakeRequestSize then c2
         else handle_request env wr c2)"

definition handle_data :: "conn_env \<Rightarrow> bool \<Rightarrow> bytes \<Rightarrow> Connection \<Rightarrow> Connection" where
  "handle_data env wr data c =
     (case cn_state c of
        Handshaking \<Rightarrow> handle_handshake_data env wr data c
      | Streaming \<Rightarrow> apply_backpressure env (c\<lparr>chan := push (chan c) data\<rparr>)
      | Closing \<Rightarrow> c)"

text \<open>\<open>handle_raw\<close>, for a first byte that does not begin a TLS record.\<close>

definition handle_raw :: "conn_env \<Rightarrow> bool \<Rightarrow> bytes \<Rightarrow> Connection \<Rightarrow> Connection" where
  "handle_raw env wr data c =
     handle_data env wr data (if cn_state c = Handshaking \<and> \<not> tls_detected c then c\<lparr>tls_detected := True\<rparr> else c)"

definition on_resume_async :: "Connection \<Rightarrow> Connection" where
  "on_resume_async c =
     (let c1 = c\<lparr>resume_sent := False\<rparr>
      in if cn_state c1 = Streaming \<and> paused c1 then c1\<lparr>paused := False, uv_reading := True\<rparr> else c1)"

definition on_outbox_async :: "bool \<Rightarrow> Connection \<Rightarrow> Connection" where
  "on_outbox_async wr c =
     (let pending = outbox c; c1 = c\<lparr>outbox := [], outbox_sent := False\<rparr>
      in if pending = [] \<or> teardown_started c1 then c1 else uv_write wr (Reply_Write False) pending c1)"

section \<open>The consumer thread\<close>

definition consumer_continue :: "Connection \<Rightarrow> Connection" where
  "consumer_continue c =
     (case consumer_pc c of
        Reading out count signaled \<Rightarrow>
          (case read_loop (chan c) out count signaled of (st, ch, out1, signaled1) \<Rightarrow>
             let c1 = c\<lparr>chan := ch, resume_sent := (resume_sent c \<or> signaled1 \<and> \<not> signaled)\<rparr>
             in if st = Waiting then c1\<lparr>consumer_pc := Reading out1 count signaled1\<rparr>
                else c1\<lparr>consumer_pc := Thinking, consumed := consumed c1 @ out1\<rparr>)
      | _ \<Rightarrow> c)"

definition post_reply :: "bytes \<Rightarrow> Connection \<Rightarrow> Connection" where
  "post_reply data c = c\<lparr>outbox := outbox c @ data, outbox_sent := True\<rparr>"

definition consumer_end :: "Connection \<Rightarrow> Connection" where
  "consumer_end c = c\<lparr>consumer_pc := Thread_Ended, close_sent := True\<rparr>"

section \<open>Events\<close>

datatype conn_event =
    On_Read bytes bool
  | On_Read_End
  | On_Write bool bool
  | On_Resume
  | On_Outbox bool
  | On_Close
  | On_Handle_Closed
  | Consumer_Read nat
  | Consumer_Continue
  | Consumer_Post bytes
  | Consumer_End

fun conn_handle :: "conn_env \<Rightarrow> conn_event \<Rightarrow> Connection \<Rightarrow> Connection" where
  "conn_handle env (On_Read data wr) c = handle_raw env wr data c"
| "conn_handle env On_Read_End c = begin_teardown c"
| "conn_handle env (On_Write status_ok wr) c = on_write status_ok wr c"
| "conn_handle env On_Resume c = on_resume_async c"
| "conn_handle env (On_Outbox wr) c = on_outbox_async wr c"
| "conn_handle env On_Close c = on_close_async c"
| "conn_handle env On_Handle_Closed c = on_handle_closed c"
| "conn_handle env (Consumer_Read n) c = c\<lparr>consumer_pc := Reading [] n False\<rparr>"
| "conn_handle env Consumer_Continue c = consumer_continue c"
| "conn_handle env (Consumer_Post data) c = post_reply data c"
| "conn_handle env Consumer_End c = consumer_end c"

text \<open>
  When libuv delivers a callback: none after the object is gone or while the loop is blocked, none on a closing handle but the
  closing callbacks themselves and the cancelled writes, which come before the socket's.
\<close>

fun enabled :: "conn_event \<Rightarrow> Connection \<Rightarrow> bool" where
  "enabled (On_Read data wr) c \<longleftrightarrow> \<not> deleted c \<and> \<not> join_blocked c \<and> \<not> handles_closing c \<and> uv_reading c \<and> data \<noteq> [] \<and>
     (tls_detected c \<or> hd data \<noteq> 0x16)"
| "enabled On_Read_End c \<longleftrightarrow> \<not> deleted c \<and> \<not> join_blocked c \<and> \<not> handles_closing c \<and> uv_reading c"
| "enabled (On_Write status_ok wr) c \<longleftrightarrow> \<not> deleted c \<and> \<not> join_blocked c \<and> uv_writes c \<noteq> [] \<and> (handles_closing c \<longrightarrow> \<not> status_ok)"
| "enabled On_Resume c \<longleftrightarrow> \<not> deleted c \<and> \<not> join_blocked c \<and> \<not> handles_closing c \<and> resume_sent c"
| "enabled (On_Outbox wr) c \<longleftrightarrow> \<not> deleted c \<and> \<not> join_blocked c \<and> \<not> handles_closing c \<and> outbox_sent c"
| "enabled On_Close c \<longleftrightarrow> \<not> deleted c \<and> \<not> join_blocked c \<and> \<not> handles_closing c \<and> close_sent c"
| "enabled On_Handle_Closed c \<longleftrightarrow> \<not> deleted c \<and> \<not> join_blocked c \<and> handles_closing c \<and> 0 < pending_handle_closes c \<and>
     (pending_handle_closes c = 1 \<longrightarrow> uv_writes c = [])"
| "enabled (Consumer_Read n) c \<longleftrightarrow> consumer_pc c = Thinking"
| "enabled Consumer_Continue c \<longleftrightarrow> (case consumer_pc c of Reading out n s \<Rightarrow> True | _ \<Rightarrow> False)"
| "enabled (Consumer_Post data) c \<longleftrightarrow> consumer_pc c = Thinking"
| "enabled Consumer_End c \<longleftrightarrow> consumer_pc c = Thinking"

fun ev_bytes :: "conn_event \<Rightarrow> bytes" where
  "ev_bytes (On_Read data wr) = data"
| "ev_bytes _ = []"

fun reply_fails :: "conn_event \<Rightarrow> bool" where
  "reply_fails (On_Read data wr) = (\<not> wr)"
| "reply_fails _ = False"

text \<open>The states a connection can be in, with the bytes received so far, as long as the writes made on reading can be queued.\<close>

inductive conn_reach :: "conn_env \<Rightarrow> bytes \<Rightarrow> Connection \<Rightarrow> bool" for env where
  accepted: "conn_reach env [] (connection_new env)"
| event: "conn_reach env bs c \<Longrightarrow> enabled ev c \<Longrightarrow> \<not> reply_fails ev \<Longrightarrow> conn_reach env (bs @ ev_bytes ev) (conn_handle env ev c)"

inductive_cases conn_reachE: "conn_reach env bs c"

section \<open>The life of a connection\<close>

text \<open>The five stages: before the handshake is done, streaming, waiting for the consumer, closing the handles, and gone.\<close>

definition unstarted :: "Connection \<Rightarrow> bool" where
  "unstarted c \<longleftrightarrow> \<not> consumer_started c \<and> consumer_pc c = No_Thread \<and> \<not> close_sent c"

definition thread_started :: "Connection \<Rightarrow> bool" where
  "thread_started c \<longleftrightarrow> consumer_started c \<and> consumer_pc c \<noteq> No_Thread \<and> (close_sent c \<longleftrightarrow> consumer_pc c = Thread_Ended)"

definition open_handles :: "Connection \<Rightarrow> bool" where
  "open_handles c \<longleftrightarrow> \<not> handles_closing c \<and> pending_handle_closes c = 0 \<and> \<not> deleted c \<and> \<not> join_blocked c"

definition in_handshake :: "Connection \<Rightarrow> bool" where
  "in_handshake c \<longleftrightarrow> cn_state c = Handshaking \<and> \<not> teardown_started c \<and> unstarted c \<and> open_handles c \<and> \<not> closed (chan c)"

definition in_stream :: "Connection \<Rightarrow> bool" where
  "in_stream c \<longleftrightarrow> cn_state c = Streaming \<and> \<not> teardown_started c \<and> thread_started c \<and> open_handles c \<and> \<not> closed (chan c)"

definition in_drain :: "Connection \<Rightarrow> bool" where
  "in_drain c \<longleftrightarrow> cn_state c = Closing \<and> teardown_started c \<and> thread_started c \<and> open_handles c \<and> closed (chan c)"

definition in_close :: "Connection \<Rightarrow> bool" where
  "in_close c \<longleftrightarrow> cn_state c = Closing \<and> teardown_started c \<and> (if consumer_started c then consumer_pc c = Thread_Ended else consumer_pc c = No_Thread) \<and>
     handles_closing c \<and> 0 < pending_handle_closes c \<and> \<not> deleted c \<and> \<not> join_blocked c"

definition gone :: "Connection \<Rightarrow> bool" where
  "gone c \<longleftrightarrow> cn_state c = Closing \<and> teardown_started c \<and> (if consumer_started c then consumer_pc c = Thread_Ended else consumer_pc c = No_Thread) \<and>
     handles_closing c \<and> pending_handle_closes c = 0 \<and> uv_writes c = [] \<and> deleted c \<and> \<not> join_blocked c"

lemmas stage_defs = in_handshake_def in_stream_def in_drain_def in_close_def gone_def unstarted_def thread_started_def open_handles_def

definition alive :: "Connection \<Rightarrow> bool" where
  "alive c \<longleftrightarrow> in_handshake c \<or> in_stream c \<or> in_drain c \<or> in_close c"

lemma closed_close [simp]: "closed (channel_close ch)"
  by (simp add: channel_close_def)

lemma teardown_stage:
  "in_handshake c \<Longrightarrow> in_close (begin_teardown c)" "in_stream c \<Longrightarrow> in_drain (begin_teardown c)"
  "in_drain c \<Longrightarrow> begin_teardown c = c" "in_close c \<Longrightarrow> begin_teardown c = c"
  by (simp_all add: stage_defs begin_teardown_def finalize_close_def Let_def)

lemma teardown_alive: "alive c \<Longrightarrow> alive (begin_teardown c)"
  using teardown_stage [of c] by (auto simp: alive_def)

lemma write_frame [simp]:
  "in_handshake (c\<lparr>uv_writes := ws, uv_sent := bs\<rparr>) = in_handshake c" "in_stream (c\<lparr>uv_writes := ws, uv_sent := bs\<rparr>) = in_stream c"
  "in_drain (c\<lparr>uv_writes := ws, uv_sent := bs\<rparr>) = in_drain c" "in_close (c\<lparr>uv_writes := ws, uv_sent := bs\<rparr>) = in_close c"
  by (simp_all add: stage_defs)

lemma uv_write_alive: "alive c \<Longrightarrow> alive (uv_write wr kind data c)"
  using teardown_alive [of c] by (simp add: uv_write_def alive_def)

section \<open>The bytes of a connection\<close>

fun in_read :: "consumer_pc \<Rightarrow> bytes" where
  "in_read (Reading out count signaled) = out"
| "in_read _ = []"

fun read_fits :: "consumer_pc \<Rightarrow> bool" where
  "read_fits (Reading out count signaled) \<longleftrightarrow> length out \<le> count"
| "read_fits _ \<longleftrightarrow> True"

definition taken :: "Connection \<Rightarrow> bytes" where
  "taken c = consumed c @ in_read (consumer_pc c)"

text \<open>What was received is an authentic request, then what the consumer has taken, what the channel holds, and what came too late.\<close>

definition authentic :: "conn_env \<Rightarrow> bytes \<Rightarrow> Connection \<Rightarrow> bool" where
  "authentic env bs c \<longleftrightarrow>
     (\<exists>ver fl al sid rest. bs = request_bytes (env_key env) ver fl al sid @ taken c @ chan_stream (chan c) @ rest \<and>
        length sid = 16 \<and> (ver = 1 \<or> ver = 2) \<and> (al = 1 \<or> al = 2) \<and>
        cn_session c = session_id_to_hex sid \<and> cn_integrity c = has_flag fl IntegrityChecks \<and>
        (teardown_started c \<or> rest = []))"

definition flow :: "conn_env \<Rightarrow> bytes \<Rightarrow> Connection \<Rightarrow> bool" where
  "flow env bs c \<longleftrightarrow> chan_inv (chan c) \<and> read_fits (consumer_pc c) \<and>
     (if consumer_started c then authentic env bs c
      else taken c = [] \<and> chan_stream (chan c) = [] \<and> (cn_state c = Handshaking \<longrightarrow> handshake_buffer c = bs))"

lemma authentic_mono:
  assumes "authentic env bs c" and "taken c1 @ chan_stream (chan c1) = taken c @ chan_stream (chan c)"
    and "cn_session c1 = cn_session c" and "cn_integrity c1 = cn_integrity c" and "teardown_started c \<longrightarrow> teardown_started c1"
  shows "authentic env bs c1"
proof -
  have "taken c1 @ chan_stream (chan c1) @ rest = taken c @ chan_stream (chan c) @ rest" for rest
    using assms(2) by (metis append_assoc)
  then show ?thesis
    using assms(1,3,4,5) unfolding authentic_def by (elim ex_forward) auto
qed

lemma authentic_more:
  assumes "authentic env bs c" and "taken c1 @ chan_stream (chan c1) @ late = taken c @ chan_stream (chan c) @ data"
    and "cn_session c1 = cn_session c" and "cn_integrity c1 = cn_integrity c"
    and "if teardown_started c then chan_stream (chan c1) = chan_stream (chan c) \<and> taken c1 = taken c \<and> teardown_started c1 else late = []"
  shows "authentic env (bs @ data) c1"
proof -
  obtain ver fl al sid rest where *: "bs = request_bytes (env_key env) ver fl al sid @ taken c @ chan_stream (chan c) @ rest"
      "length sid = 16" "ver = 1 \<or> ver = 2" "al = 1 \<or> al = 2" "cn_session c = session_id_to_hex sid"
      "cn_integrity c = has_flag fl IntegrityChecks" "teardown_started c \<or> rest = []"
    using assms(1) unfolding authentic_def by blast
  have "bs @ data = request_bytes (env_key env) ver fl al sid @ taken c1 @ chan_stream (chan c1) @ (if teardown_started c then rest @ data else [])"
    using *(1,7) assms(2,5) by auto
  then show ?thesis
    unfolding authentic_def using *(2-6) assms(3-5) by (intro exI conjI) (auto split: if_splits)
qed

lemma flow_mono:
  assumes "flow env bs c" and "chan_inv (chan c1)" and "read_fits (consumer_pc c1)" and "consumer_started c1 = consumer_started c"
    and "taken c1 @ chan_stream (chan c1) = taken c @ chan_stream (chan c)"
    and "cn_session c1 = cn_session c" and "cn_integrity c1 = cn_integrity c" and "teardown_started c \<longrightarrow> teardown_started c1"
    and "cn_state c1 = Handshaking \<longrightarrow> cn_state c = Handshaking \<and> handshake_buffer c1 = handshake_buffer c"
  shows "flow env bs c1"
  using assms authentic_mono [of env bs c c1] by (auto simp: flow_def)

lemma flow_teardown: "flow env bs c \<Longrightarrow> flow env bs (begin_teardown c)"
  by (rule flow_mono [of env bs c], assumption) (auto simp: taken_def begin_teardown_def finalize_close_def Let_def chan_simps flow_def)

lemma flow_frame [simp]:
  "flow env bs (c\<lparr>uv_writes := ws, uv_sent := sb\<rparr>) = flow env bs c" "flow env bs (c\<lparr>uv_writes := ws\<rparr>) = flow env bs c"
  "flow env bs (c\<lparr>download_rest := ch\<rparr>) = flow env bs c" "flow env bs (c\<lparr>outbox := ob, outbox_sent := b\<rparr>) = flow env bs c"
  "flow env bs (c\<lparr>resume_sent := b\<rparr>) = flow env bs c" "flow env bs (c\<lparr>paused := b, uv_reading := b'\<rparr>) = flow env bs c"
  by (simp_all add: flow_def authentic_def taken_def)

lemma flow_uv_write: "flow env bs c \<Longrightarrow> flow env bs (uv_write wr kind data c)"
  by (simp add: uv_write_def flow_teardown)

text \<open>Bytes that arrive while the connection is being closed are dropped.\<close>

lemma flow_late: "flow env bs c \<Longrightarrow> cn_state c = Closing \<Longrightarrow> teardown_started c \<Longrightarrow> flow env (bs @ data) c"
  using authentic_more [of env bs c c data data] by (simp add: flow_def)

section \<open>What each callback keeps\<close>

definition shaking :: "conn_env \<Rightarrow> bytes \<Rightarrow> Connection \<Rightarrow> bool" where
  "shaking env bs c \<longleftrightarrow> in_handshake c \<and> flow env bs c"

lemma shaking_frame [simp]:
  "shaking env bs (c\<lparr>http_done := b\<rparr>) = shaking env bs c" "shaking env bs (c\<lparr>download_rest := ch\<rparr>) = shaking env bs c"
  "shaking env bs (c\<lparr>proto_decided := b, http_mode := b'\<rparr>) = shaking env bs c"
  "shaking env bs (c\<lparr>uv_writes := ws, uv_sent := sb\<rparr>) = shaking env bs c" "shaking env bs (c\<lparr>tls_detected := b\<rparr>) = shaking env bs c"
  "shaking env bs (c\<lparr>protocol_version := v, cn_mode := m\<rparr>) = shaking env bs c"
  by (simp_all add: shaking_def stage_defs flow_def authentic_def taken_def)

lemma shaking_write: "shaking env bs c \<Longrightarrow> shaking env bs (uv_write True kind data c)"
  by (simp add: uv_write_def)

lemma shaking_simple: "shaking env bs c \<Longrightarrow> shaking env bs (send_http_simple True status reason ct body extra c)"
  by (simp add: send_http_simple_def Let_def shaking_write)

lemma shaking_http_do: "shaking env bs c \<Longrightarrow> shaking env bs (http_do env True call c)"
  by (cases call) (simp_all add: shaking_simple begin_download_response_def Let_def shaking_write split: option.split)

lemma shaking_http: "shaking env bs c \<Longrightarrow> shaking env bs (handle_http_data env True c)"
proof -
  have "shaking env bs c \<Longrightarrow> shaking env bs (fold (http_do env True) calls c)" for calls c
    by (induction calls arbitrary: c) (simp_all add: shaking_http_do)
  moreover assume "shaking env bs c"
  ultimately show ?thesis
    by (simp add: handle_http_data_def bad_request_def Let_def shaking_simple split: option.split)
qed

lemma shaking_data:
  assumes "shaking env bs c"
  shows "shaking env (bs @ data) (c\<lparr>handshake_buffer := handshake_buffer c @ data\<rparr>)"
  using assms by (auto simp: shaking_def stage_defs flow_def taken_def)

lemma backpressure_frame [simp]:
  "in_stream (apply_backpressure env c) = in_stream c" "flow env' bs (apply_backpressure env c) = flow env' bs c"
  by (simp_all add: apply_backpressure_def stage_defs flow_def authentic_def taken_def)

lemma start_streaming_flow:
  assumes "shaking env bs c" and "56 \<le> length bs" and "parse_and_verify_handshake bs (env_key env) blank_request = (Ok, request)"
  shows "in_stream (start_streaming env request c) \<and> flow env bs (start_streaming env request c)"
proof -
  obtain ver fl al sid rest where shape: "bs = request_bytes (env_key env) ver fl al sid @ rest" "length sid = 16"
      "ver = 1 \<or> ver = 2" "al = 1 \<or> al = 2"
    using parse_ok_shape [OF assms(2,3)] by blast
  have req: "flags request = fl" "session_id request = sid"
    using assms(3) parse_request_bytes [OF shape(2), of "env_key env" ver fl al rest blank_request] shape by auto
  have c: "in_handshake c" "handshake_buffer c = bs" "chan_stream (chan c) = []" "chan_inv (chan c)" "taken c = []" "\<not> closed (chan c)"
    using assms(1) by (simp_all add: shaking_def flow_def in_handshake_def unstarted_def)
  have left: "drop kHandshakeRequestSize bs = rest"
    using shape(2) by (simp add: shape(1) request_bytes_def)
  define c1 where "c1 = c\<lparr>cn_integrity := has_flag fl IntegrityChecks, cn_session := session_id_to_hex sid,
     cn_state := Streaming, handshake_buffer := [], consumer_started := True, consumer_pc := Thinking\<rparr>"
  have st: "start_streaming env request c = (if rest \<noteq> [] then apply_backpressure env (c1\<lparr>chan := push (chan c1) rest\<rparr>) else c1)"
    unfolding start_streaming_def Let_def c(2) left req c1_def by simp
  have "in_stream (c1\<lparr>chan := push (chan c1) rest\<rparr>)" "in_stream c1"
    using c(1) by (simp_all add: c1_def stage_defs)
  moreover have "authentic env bs (c1\<lparr>chan := push (chan c1) rest\<rparr>)"
    unfolding authentic_def using c shape
    by (intro exI [of _ ver] exI [of _ fl] exI [of _ al] exI [of _ sid] exI [of _ "[]"]) (simp add: c1_def taken_def chan_simps)
  then have "flow env bs (c1\<lparr>chan := push (chan c1) rest\<rparr>)"
    using c by (simp add: flow_def c1_def chan_simps)
  moreover have "flow env bs c1" if "rest = []"
    using \<open>flow env bs (c1\<lparr>chan := push (chan c1) rest\<rparr>)\<close> that by (simp add: push_def)
  ultimately show ?thesis
    by (simp add: st)
qed

lemma handle_request_keeps:
  assumes "shaking env bs c" and "56 \<le> length bs"
  shows "shaking env bs (handle_request env True c) \<or> in_stream (handle_request env True c) \<and> flow env bs (handle_request env True c)"
proof -
  obtain parsed request where parse: "parse_and_verify_handshake bs (env_key env) blank_request = (parsed, request)"
    by fastforce
  have buf: "handshake_buffer c = bs"
    using assms(1) by (simp add: shaking_def flow_def in_handshake_def unstarted_def)
  let ?c1 = "if parsed = Ok then c\<lparr>protocol_version := HandshakeRequest.version request, cn_mode := env_mode env (HandshakeRequest.version request)\<rparr> else c"
  have "shaking env bs (send_handshake_reply True status ?c1)" for status
    using assms(1) by (simp add: send_handshake_reply_def shaking_write)
  then show ?thesis
    using start_streaming_flow [OF _ assms(2)] parse by (auto simp: handle_request_def buf Let_def)
qed

lemma handle_handshake_data_keeps:
  assumes "shaking env bs c"
  shows "shaking env (bs @ data) (handle_handshake_data env True data c) \<or>
    in_stream (handle_handshake_data env True data c) \<and> flow env (bs @ data) (handle_handshake_data env True data c)"
proof -
  define c1 where "c1 = c\<lparr>handshake_buffer := handshake_buffer c @ data\<rparr>"
  define n where "n = min (length (handshake_buffer c1)) (length kMagic)"
  define c2 where "c2 = (if proto_decided c1 then c1
                else if take n (handshake_buffer c1) \<noteq> take n kMagic then c1\<lparr>proto_decided := True, http_mode := True\<rparr>
                else if length kMagic \<le> length (handshake_buffer c1) then c1\<lparr>proto_decided := True, http_mode := False\<rparr>
                else c1)"
  have sh: "shaking env (bs @ data) c2"
    using shaking_data [OF assms, of data] by (simp add: c2_def flip: c1_def)
  then have "handshake_buffer c2 = bs @ data"
    by (simp add: shaking_def flow_def in_handshake_def unstarted_def)
  moreover have "handle_handshake_data env True data c = (if \<not> proto_decided c2 then c2
         else if http_mode c2 then handle_http_data env True c2
         else if length (handshake_buffer c2) < kHandshakeRequestSize then c2
         else handle_request env True c2)"
    unfolding handle_handshake_data_def Let_def c1_def n_def c2_def ..
  ultimately show ?thesis
    using sh shaking_http [OF sh] handle_request_keeps [OF sh] by simp
qed

definition sound :: "conn_env \<Rightarrow> bytes \<Rightarrow> Connection \<Rightarrow> bool" where
  "sound env bs c \<longleftrightarrow> alive c \<and> flow env bs c"

lemma sound_read:
  assumes "sound env bs c" and "\<not> handles_closing c"
  shows "sound env (bs @ data) (handle_raw env True data c)"
proof -
  consider "in_handshake c" | "in_stream c" | "in_drain c"
    using assms by (auto simp: sound_def alive_def in_close_def)
  then show ?thesis
  proof cases
    case 1
    let ?c = "if cn_state c = Handshaking \<and> \<not> tls_detected c then c\<lparr>tls_detected := True\<rparr> else c"
    have "shaking env bs c"
      using 1 assms(1) by (simp add: sound_def shaking_def)
    then have "shaking env bs ?c"
      by simp
    moreover have "cn_state ?c = Handshaking"
      using 1 by (simp add: in_handshake_def)
    ultimately show ?thesis
      using handle_handshake_data_keeps [of env bs ?c data] by (auto simp: handle_raw_def handle_data_def sound_def alive_def shaking_def)
  next
    case 2
    let ?c = "c\<lparr>chan := push (chan c) data\<rparr>"
    have h: "handle_raw env True data c = apply_backpressure env ?c"
      using 2 by (simp add: handle_raw_def handle_data_def in_stream_def)
    have f: "chan_inv (chan c)" "\<not> closed (chan c)" "authentic env bs c" "consumer_started c" "\<not> teardown_started c" "read_fits (consumer_pc c)"
      using 2 assms(1) by (simp_all add: sound_def flow_def in_stream_def thread_started_def)
    have "authentic env (bs @ data) ?c"
      by (rule authentic_more [OF f(3), of _ "[]"]) (simp_all add: f chan_simps taken_def)
    then have "flow env (bs @ data) ?c"
      using f by (simp add: flow_def chan_simps)
    moreover have "in_stream ?c"
      using 2 by (simp add: stage_defs)
    ultimately show ?thesis
      by (simp add: h sound_def alive_def)
  next
    case 3
    then have "handle_raw env True data c = c"
      by (simp add: handle_raw_def handle_data_def in_drain_def)
    then show ?thesis
      using flow_late [of env bs c data] assms(1) 3 by (simp add: sound_def in_drain_def)
  qed
qed

lemma sound_teardown: "sound env bs c \<Longrightarrow> sound env bs (begin_teardown c)"
  by (simp add: sound_def teardown_alive flow_teardown)

lemma sound_uv_write: "sound env bs c \<Longrightarrow> sound env bs (uv_write wr kind data c)"
  by (simp add: sound_def uv_write_alive flow_uv_write)

lemma alive_frame [simp]:
  "alive (c\<lparr>uv_writes := ws\<rparr>) = alive c" "alive (c\<lparr>download_rest := ch\<rparr>) = alive c"
  "alive (c\<lparr>outbox := ob, outbox_sent := b\<rparr>) = alive c" "alive (c\<lparr>resume_sent := b\<rparr>) = alive c"
  "alive (c\<lparr>paused := b, uv_reading := b'\<rparr>) = alive c"
  by (simp_all add: alive_def stage_defs)

lemma sound_frame [simp]:
  "sound env bs (c\<lparr>uv_writes := ws\<rparr>) = sound env bs c" "sound env bs (c\<lparr>download_rest := ch\<rparr>) = sound env bs c"
  "sound env bs (c\<lparr>outbox := ob, outbox_sent := b\<rparr>) = sound env bs c" "sound env bs (c\<lparr>resume_sent := b\<rparr>) = sound env bs c"
  "sound env bs (c\<lparr>paused := b, uv_reading := b'\<rparr>) = sound env bs c"
  by (simp_all add: sound_def)

lemma sound_write_done: "sound env bs c \<Longrightarrow> sound env bs (on_write status_ok wr c)"
  by (simp add: on_write_def download_next_def Let_def sound_teardown sound_uv_write split: list.split write_kind.split)

lemma sound_asyncs:
  "sound env bs c \<Longrightarrow> sound env bs (on_resume_async c)" "sound env bs c \<Longrightarrow> sound env bs (on_outbox_async wr c)"
  "sound env bs c \<Longrightarrow> sound env bs (post_reply data c)"
  by (simp_all add: on_resume_async_def on_outbox_async_def post_reply_def Let_def sound_uv_write)

lemma on_close_async_open:
  "\<not> handles_closing c \<Longrightarrow> on_close_async c = c\<lparr>close_sent := False, teardown_started := True, cn_state := Closing,
     handles_closing := True, pending_handle_closes := pending_handle_closes c + 4\<rparr>"
  by (simp add: on_close_async_def finalize_close_def)

lemma flow_close: "flow env bs c \<Longrightarrow> \<not> handles_closing c \<Longrightarrow> flow env bs (on_close_async c)"
  unfolding on_close_async_open by (rule flow_mono [of env bs c], assumption) (simp_all add: flow_def taken_def)

lemma sound_close_async:
  assumes "sound env bs c" and "close_sent c" and "\<not> handles_closing c"
  shows "sound env bs (on_close_async c)"
proof -
  have ended: "consumer_pc c = Thread_Ended" "consumer_started c" "\<not> deleted c" "\<not> join_blocked c" "pending_handle_closes c = 0"
  proof -
    have "in_stream c \<or> in_drain c"
      using assms unfolding sound_def alive_def in_handshake_def unstarted_def in_close_def by blast
    then show "consumer_pc c = Thread_Ended" "consumer_started c" "\<not> deleted c" "\<not> join_blocked c" "pending_handle_closes c = 0"
      using assms(2) unfolding in_stream_def in_drain_def thread_started_def open_handles_def by blast+
  qed
  note c1 = on_close_async_open [OF assms(3)]
  have "in_close (on_close_async c)"
    unfolding c1 in_close_def by (simp add: ended)
  moreover have "flow env bs (on_close_async c)"
    by (rule flow_close [OF _ assms(3)]) (use assms(1) in \<open>simp add: sound_def\<close>)
  ultimately show ?thesis
    by (simp add: sound_def alive_def)
qed

lemma on_handle_closed_eq:
  "pending_handle_closes c = Suc (Suc n) \<Longrightarrow> on_handle_closed c = c\<lparr>pending_handle_closes := Suc n\<rparr>"
  "pending_handle_closes c = Suc 0 \<Longrightarrow> \<not> consumer_started c \<or> consumer_pc c = Thread_Ended \<Longrightarrow>
    on_handle_closed c = c\<lparr>pending_handle_closes := 0, deleted := True\<rparr>"
  unfolding on_handle_closed_def Let_def by auto

lemma sound_handle_closed:
  assumes "sound env bs c" and "enabled On_Handle_Closed c"
  shows "(alive (on_handle_closed c) \<or> gone (on_handle_closed c)) \<and> flow env bs (on_handle_closed c)"
proof -
  have close: "in_close c"
    using assms unfolding sound_def alive_def in_handshake_def in_stream_def in_drain_def open_handles_def enabled.simps by blast
  then have fields: "cn_state c = Closing" "teardown_started c" "if consumer_started c then consumer_pc c = Thread_Ended else consumer_pc c = No_Thread"
      "handles_closing c" "\<not> deleted c" "\<not> join_blocked c" "0 < pending_handle_closes c"
    unfolding in_close_def by blast+
  have flow: "flow env bs c"
    using assms(1) unfolding sound_def by blast
  show ?thesis
  proof (cases "pending_handle_closes c = Suc 0")
    case True
    have w: "uv_writes c = []"
      using True assms(2) by simp
    have ended: "\<not> consumer_started c \<or> consumer_pc c = Thread_Ended"
      using fields(3) by argo
    note eq = on_handle_closed_eq(2) [OF True ended]
    have "gone (on_handle_closed c)"
      unfolding eq gone_def by (simp add: fields w)
    moreover have "flow env bs (on_handle_closed c)"
      unfolding eq by (rule flow_mono [OF flow]) (use flow in \<open>simp_all add: flow_def taken_def\<close>)
    ultimately show ?thesis
      by blast
  next
    case False
    then have n: "pending_handle_closes c = Suc (Suc (pending_handle_closes c - 2))"
      using fields(7) by linarith
    note eq = on_handle_closed_eq(1) [OF n]
    have "in_close (on_handle_closed c)"
      unfolding eq in_close_def by (simp add: fields)
    moreover have "flow env bs (on_handle_closed c)"
      unfolding eq by (rule flow_mono [OF flow]) (use flow in \<open>simp_all add: flow_def taken_def\<close>)
    ultimately show ?thesis
      unfolding alive_def by blast
  qed
qed

text \<open>The consumer's steps; it runs only while the handles are open.\<close>

lemma running_stage:
  assumes "alive c" and "consumer_pc c \<noteq> No_Thread" and "consumer_pc c \<noteq> Thread_Ended"
  shows "in_stream c \<or> in_drain c"
  using assms by (auto simp: alive_def in_handshake_def unstarted_def in_close_def split: if_splits)

lemma running_open: "in_stream c \<or> in_drain c \<Longrightarrow> close_sent c \<longleftrightarrow> consumer_pc c = Thread_Ended"
  by (auto simp: in_stream_def in_drain_def thread_started_def)

lemma pc_stage:
  assumes "in_stream c \<or> in_drain c" and "consumer_pc c \<noteq> Thread_Ended" and "pc \<noteq> No_Thread" and "pc \<noteq> Thread_Ended"
  shows "alive (c\<lparr>consumer_pc := pc\<rparr>)"
    and "closed ch = closed (chan c) \<Longrightarrow> alive (c\<lparr>chan := ch, resume_sent := rs, consumer_pc := pc, consumed := cd\<rparr>)"
    and "alive (c\<lparr>consumer_pc := Thread_Ended, close_sent := True\<rparr>)"
  using assms by (auto simp: alive_def stage_defs)

lemma sound_consumer_read:
  assumes "sound env bs c" and pc: "consumer_pc c = Thinking"
  shows "sound env bs (c\<lparr>consumer_pc := Reading [] n False\<rparr>)" and "sound env bs (consumer_end c)"
proof -
  have c: "alive c" "flow env bs c"
    using assms(1) unfolding sound_def by blast+
  have st: "in_stream c \<or> in_drain c"
    by (rule running_stage [OF c(1)]) (simp_all add: pc)
  have a1: "alive (c\<lparr>consumer_pc := Reading [] n False\<rparr>)"
    by (rule pc_stage(1) [OF st]) (simp_all add: pc)
  have a2: "alive (c\<lparr>consumer_pc := Thread_Ended, close_sent := True\<rparr>)"
    by (rule pc_stage(3) [OF st, of Thinking]) (simp_all add: pc)
  have inv: "chan_inv (chan c)"
    using c(2) unfolding flow_def by blast
  have f1: "flow env bs (c\<lparr>consumer_pc := Reading [] n False\<rparr>)"
    by (rule flow_mono [OF c(2)]) (simp_all add: inv taken_def pc)
  have f2: "flow env bs (c\<lparr>consumer_pc := Thread_Ended, close_sent := True\<rparr>)"
    by (rule flow_mono [OF c(2)]) (simp_all add: inv taken_def pc)
  show "sound env bs (c\<lparr>consumer_pc := Reading [] n False\<rparr>)"
    unfolding sound_def by (intro conjI a1 f1)
  show "sound env bs (consumer_end c)"
    unfolding sound_def consumer_end_def by (intro conjI a2 f2)
qed

lemma sound_consumer_continue:
  assumes "sound env bs c" and pc: "consumer_pc c = Reading out count signaled"
  shows "sound env bs (consumer_continue c)"
proof -
  obtain st ch out1 signaled1 where run: "read_loop (chan c) out count signaled = (st, ch, out1, signaled1)"
    by (metis prod_cases4)
  have "chan_inv (chan c)" "length out \<le> count"
    using assms by (simp_all add: sound_def flow_def)
  note rl = read_loop_stream [OF this run]
  have c: "alive c" "flow env bs c"
    using assms(1) unfolding sound_def by blast+
  define pc1 cd1 where "pc1 = (if st = Waiting then Reading out1 count signaled1 else Thinking)"
    and "cd1 = (if st = Waiting then consumed c else consumed c @ out1)"
  define rs where "rs = (resume_sent c \<or> signaled1 \<and> \<not> signaled)"
  have eq: "consumer_continue c = c\<lparr>chan := ch, resume_sent := rs, consumer_pc := pc1, consumed := cd1\<rparr>"
    unfolding consumer_continue_def pc pc1_def cd1_def rs_def by (simp add: run Let_def)
  have pc1: "pc1 \<noteq> No_Thread" "pc1 \<noteq> Thread_Ended" "read_fits pc1" "cd1 @ in_read pc1 = consumed c @ out1"
    using rl \<open>length out \<le> count\<close> by (auto simp: pc1_def cd1_def)
  have st: "in_stream c \<or> in_drain c"
    by (rule running_stage [OF c(1)]) (simp_all add: pc)
  have "alive (consumer_continue c)"
    unfolding eq by (rule pc_stage(2) [OF st _ pc1(1,2)]) (use rl in \<open>simp_all add: pc\<close>)
  moreover have "flow env bs (consumer_continue c)"
  proof -
    have "cd1 @ in_read pc1 @ x = consumed c @ out1 @ x" for x
      using pc1(4) by (metis append_assoc)
    then have "cd1 @ in_read pc1 @ chan_stream ch = consumed c @ out1 @ chan_stream ch"
      by this
    also have "\<dots> = consumed c @ out @ chan_stream (chan c)"
      using rl by simp
    finally have stream: "cd1 @ in_read pc1 @ chan_stream ch = consumed c @ out @ chan_stream (chan c)" .
    have "chan_inv ch"
      using rl by blast
    then show ?thesis
      unfolding eq by (intro flow_mono [OF c(2)]) (simp_all add: pc1(3) stream taken_def pc)
  qed
  ultimately show ?thesis
    unfolding sound_def by blast
qed

section \<open>Every reachable state\<close>

lemma sound_new: "sound env [] (connection_new env)"
proof -
  have "in_handshake (connection_new env)"
    unfolding stage_defs connection_new_def by (simp add: channel_new_def)
  moreover have "flow env [] (connection_new env)"
    unfolding flow_def connection_new_def by (simp add: taken_def chan_simps)
  ultimately show ?thesis
    unfolding sound_def alive_def by blast
qed

definition kept :: "conn_env \<Rightarrow> bytes \<Rightarrow> Connection \<Rightarrow> bool" where
  "kept env bs c \<longleftrightarrow> (alive c \<or> gone c) \<and> flow env bs c"

lemma gone_quiet:
  assumes "gone c"
  shows "\<not> enabled ev c"
proof -
  have "deleted c" "consumer_pc c = Thread_Ended \<or> consumer_pc c = No_Thread"
    using assms unfolding gone_def by argo+
  then show ?thesis
    by (cases ev) auto
qed

lemma kept_step:
  assumes "kept env bs c" and en: "enabled ev c" and "\<not> reply_fails ev"
  shows "kept env (bs @ ev_bytes ev) (conn_handle env ev c)"
proof -
  have s: "sound env bs c"
    using assms(1) gone_quiet [of c ev] en unfolding kept_def sound_def by blast
  have keep: "sound env bs' c' \<Longrightarrow> kept env bs' c'" for bs' c'
    unfolding sound_def kept_def by blast
  show ?thesis
  proof (cases ev)
    case (On_Read data wr)
    then show ?thesis
      using keep [OF sound_read [OF s, of data]] en assms(3) by simp
  next
    case On_Read_End
    then show ?thesis
      using keep [OF sound_teardown [OF s]] by simp
  next
    case (On_Write status_ok wr)
    then show ?thesis
      using keep [OF sound_write_done [OF s]] by simp
  next
    case On_Resume
    then show ?thesis
      using keep [OF sound_asyncs(1) [OF s]] by simp
  next
    case (On_Outbox wr)
    then show ?thesis
      using keep [OF sound_asyncs(2) [OF s]] by simp
  next
    case On_Close
    then show ?thesis
      using keep [OF sound_close_async [OF s]] en by simp
  next
    case On_Handle_Closed
    then show ?thesis
      using sound_handle_closed [OF s] en unfolding kept_def by simp
  next
    case (Consumer_Read n)
    then show ?thesis
      using keep [OF sound_consumer_read(1) [OF s]] en by simp
  next
    case Consumer_Continue
    then obtain out count signaled where "consumer_pc c = Reading out count signaled"
      using en by (cases "consumer_pc c") simp_all
    then show ?thesis
      using keep [OF sound_consumer_continue [OF s]] Consumer_Continue by simp
  next
    case (Consumer_Post data)
    then show ?thesis
      using keep [OF sound_asyncs(3) [OF s]] by simp
  next
    case Consumer_End
    then show ?thesis
      using keep [OF sound_consumer_read(2) [OF s]] en by simp
  qed
qed

lemma reach_kept: "conn_reach env bs c \<Longrightarrow> kept env bs c"
proof (induction rule: conn_reach.induct)
  case accepted
  show ?case
    using sound_new unfolding sound_def kept_def by blast
next
  case (event bs c ev)
  then show ?case
    by (intro kept_step)
qed

section \<open>Teardown goes on\<close>

fun internal :: "conn_event \<Rightarrow> bool" where
  "internal (On_Read data wr) = False"
| "internal On_Read_End = False"
| "internal _ = True"

lemma drain_moves:
  assumes "in_drain c" and "flow env bs c"
  shows "\<exists>ev. internal ev \<and> enabled ev c \<and> conn_handle env ev c \<noteq> c"
proof (cases "consumer_pc c")
  case No_Thread
  then show ?thesis
    using assms(1) unfolding in_drain_def thread_started_def by argo
next
  case Thinking
  have "consumer_pc (conn_handle env Consumer_End c) \<noteq> consumer_pc c"
    by (simp add: consumer_end_def Thinking)
  then show ?thesis
    using Thinking by (intro exI [of _ Consumer_End]) auto
next
  case (Reading out count signaled)
  obtain st ch out1 signaled1 where run: "read_loop (chan c) out count signaled = (st, ch, out1, signaled1)"
    by (metis prod_cases4)
  have "chan_inv (chan c)" "closed (chan c)" "read_fits (consumer_pc c)"
    using assms unfolding in_drain_def flow_def by blast+
  then have "st \<noteq> Waiting"
    using read_loop_stream [OF _ _ run] Reading by auto
  then have "consumer_pc (consumer_continue c) = Thinking"
    unfolding consumer_continue_def Reading by (simp add: run Let_def)
  then have "conn_handle env Consumer_Continue c \<noteq> c"
    using Reading by auto
  then show ?thesis
    using Reading by (intro exI [of _ Consumer_Continue]) simp
next
  case Thread_Ended
  have c: "close_sent c" "\<not> handles_closing c" "\<not> deleted c" "\<not> join_blocked c"
    using assms(1) Thread_Ended unfolding in_drain_def thread_started_def open_handles_def by argo+
  have "handles_closing (conn_handle env On_Close c)"
    by (simp add: on_close_async_open [OF c(2)])
  then have "conn_handle env On_Close c \<noteq> c"
    using c(2) by metis
  then show ?thesis
    using c by (intro exI [of _ On_Close]) simp
qed

lemma close_moves:
  assumes "in_close c"
  shows "\<exists>ev. internal ev \<and> enabled ev c \<and> conn_handle env ev c \<noteq> c"
proof -
  have c: "teardown_started c" "handles_closing c" "0 < pending_handle_closes c" "\<not> deleted c" "\<not> join_blocked c"
    using assms unfolding in_close_def by argo+
  show ?thesis
  proof (cases "uv_writes c")
    case Nil
    have "pending_handle_closes (on_handle_closed c) = pending_handle_closes c - 1"
      unfolding on_handle_closed_def Let_def by simp
    then have "pending_handle_closes (conn_handle env On_Handle_Closed c) \<noteq> pending_handle_closes c"
      using c(3) by simp
    then have "conn_handle env On_Handle_Closed c \<noteq> c"
      by metis
    then show ?thesis
      using c Nil by (intro exI [of _ On_Handle_Closed]) simp
  next
    case (Cons kind rest)
    have "uv_writes (on_write False False c) = rest"
      unfolding on_write_def Cons Let_def begin_teardown_def by (simp add: c(1) split: write_kind.split)
    then have "uv_writes (conn_handle env (On_Write False False) c) \<noteq> uv_writes c"
      using Cons by simp
    then have "conn_handle env (On_Write False False) c \<noteq> c"
      by metis
    then show ?thesis
      using c Cons by (intro exI [of _ "On_Write False False"]) simp
  qed
qed

section \<open>Property\<close>

text \<open>
  Property C40.  A connection lives safely: in every state it can reach, as long as the writes it makes on reading can be queued,
  the event loop is never blocked joining the consumer thread; handles are closed, and the object is deleted, only after
  that thread has ended or when there is none, and deletion finds no close or write pending; a teardown that has begun can always go on
  by itself until the object is gone; and a consumer thread exists only after a request signed with the server's
  key, whose session and flags the connection has, and the thread gets exactly the bytes that follow that request, however they
  were cut into reads.
\<close>

theorem connection_safe:
  assumes "conn_reach env bs c"
  shows "\<not> join_blocked c \<and>
    (handles_closing c \<longrightarrow> consumer_pc c \<in> {No_Thread, Thread_Ended}) \<and>
    (deleted c \<longrightarrow> handles_closing c \<and> pending_handle_closes c = 0 \<and> uv_writes c = []) \<and>
    (teardown_started c \<and> \<not> deleted c \<longrightarrow> (\<exists>ev. internal ev \<and> enabled ev c \<and> conn_handle env ev c \<noteq> c)) \<and>
    (consumer_started c \<longrightarrow>
      (\<exists>ver fl al sid late. bs = request_bytes (env_key env) ver fl al sid @ taken c @ chan_stream (chan c) @ late \<and>
        length sid = 16 \<and> (ver = 1 \<or> ver = 2) \<and> (al = 1 \<or> al = 2) \<and>
        cn_session c = session_id_to_hex sid \<and> cn_integrity c = has_flag fl IntegrityChecks \<and> (teardown_started c \<or> late = [])))"
proof -
  have k: "alive c \<or> gone c" "flow env bs c"
    using reach_kept [OF assms] unfolding kept_def by blast+
  have 1: "\<not> join_blocked c" "handles_closing c \<longrightarrow> consumer_pc c = No_Thread \<or> consumer_pc c = Thread_Ended"
      "deleted c \<longrightarrow> handles_closing c \<and> pending_handle_closes c = 0 \<and> uv_writes c = []"
    using k(1) unfolding alive_def in_handshake_def in_stream_def in_drain_def open_handles_def in_close_def gone_def by argo+
  have 2: "\<exists>ev. internal ev \<and> enabled ev c \<and> conn_handle env ev c \<noteq> c" if "teardown_started c \<and> \<not> deleted c"
  proof -
    have "in_drain c \<or> in_close c"
      using k(1) that unfolding alive_def in_handshake_def in_stream_def gone_def by blast
    then show ?thesis
      using drain_moves [OF _ k(2)] close_moves by blast
  qed
  have 3: "authentic env bs c" if "consumer_started c"
    using k(2) that unfolding flow_def by argo
  show ?thesis
    using 1 2 3 unfolding authentic_def by blast
qed

definition sample_env :: conn_env where
  "sample_env = \<lparr>env_key = ''key'', high_water = 2, low_water = 1, env_mode = (\<lambda>v. 0), sink_for = (\<lambda>sid. True),
     dispatch_http = (\<lambda>req. []), archive_chunks = (\<lambda>dir_path sid. None)\<rparr>"

lemma sample_request_parsed:
  "parse_and_verify_handshake Handshake.sample_request ''key'' blank_request =
     (Ok, \<lparr>HandshakeRequest.version = 2, flags = 1, algo = Zstd, session_id = replicate 16 7\<rparr>)"
  "length Handshake.sample_request = 56" "take 4 Handshake.sample_request = kMagic" "Handshake.sample_request \<noteq> []"
  "hd Handshake.sample_request \<noteq> 0x16"
proof -
  show "parse_and_verify_handshake Handshake.sample_request ''key'' blank_request =
     (Ok, \<lparr>HandshakeRequest.version = 2, flags = 1, algo = Zstd, session_id = replicate 16 7\<rparr>)"
    using parse_request_bytes [of "replicate 16 7" "''key''" 2 1 2 "[]" blank_request]
    by (simp add: Handshake.sample_request_def blank_request_def)
  show "length Handshake.sample_request = 56" "take 4 Handshake.sample_request = kMagic" "Handshake.sample_request \<noteq> []"
    by (simp_all add: Handshake.sample_request_def request_bytes_def signed_prefix_def)
  show "hd Handshake.sample_request \<noteq> 0x16"
    by (simp add: Handshake.sample_request_def request_bytes_def signed_prefix_def kMagic_def)
qed

text \<open>What reading a whole request at once comes to, for a reply that can be queued and for one that cannot.\<close>

lemma sample_handshake:
  defines "c1 \<equiv> (connection_new sample_env)\<lparr>handshake_buffer := Handshake.sample_request, tls_detected := True, proto_decided := True,
    http_mode := False, protocol_version := 2, cn_mode := 0\<rparr>"
  shows "handle_raw sample_env wr Handshake.sample_request (connection_new sample_env) =
    start_streaming sample_env \<lparr>HandshakeRequest.version = 2, flags = 1, algo = Zstd, session_id = replicate 16 7\<rparr> (send_handshake_reply wr Ok c1)"
proof -
  have "length kMagic = 4"
    by (simp add: kMagic_def)
  then show ?thesis
    unfolding c1_def
    by (simp add: handle_raw_def handle_data_def handle_handshake_data_def handle_request_def connection_new_def
        sample_request_parsed sample_env_def Let_def)
qed

theorem connection_safe_witness:
  "\<exists>c. conn_reach sample_env Handshake.sample_request c \<and> consumer_started c \<and> \<not> join_blocked c \<and>
     (\<exists>ver fl al sid late. Handshake.sample_request = request_bytes ''key'' ver fl al sid @ taken c @ chan_stream (chan c) @ late)"
proof -
  let ?c = "conn_handle sample_env (On_Read Handshake.sample_request True) (connection_new sample_env)"
  have "enabled (On_Read Handshake.sample_request True) (connection_new sample_env)"
    using sample_request_parsed(4,5) by (simp add: connection_new_def)
  then have reach: "conn_reach sample_env Handshake.sample_request ?c"
    using conn_reach.event [OF conn_reach.accepted [of sample_env], of "On_Read Handshake.sample_request True"] by simp
  have "consumer_started ?c"
    unfolding conn_handle.simps sample_handshake start_streaming_def by (simp add: Let_def apply_backpressure_def)
  moreover have "env_key sample_env = ''key''"
    by (simp add: sample_env_def)
  ultimately show ?thesis
    using connection_safe [OF reach] reach by metis
qed

section \<open>Where it does not hold\<close>

text \<open>
  When the reply to a valid request cannot be queued, the handles are closed although the consumer thread is
  started afterwards; the last closing callback then joins a thread that waits for data on an open channel.
\<close>

lemma failed_reply_blocks:
  "let c = (on_handle_closed ^^ 4) (handle_raw sample_env False Handshake.sample_request (connection_new sample_env))
   in join_blocked c \<and> consumer_pc c = Thinking \<and> \<not> closed (chan c) \<and> chan_stream (chan c) = []"
  unfolding sample_handshake
  by (simp add: start_streaming_def send_handshake_reply_def uv_write_def begin_teardown_def finalize_close_def connection_new_def
      sample_request_parsed Let_def on_handle_closed_def channel_new_def chan_stream_def numeral_eq_Suc)

text \<open>
  One \<open>read_exact\<close> asks for more data at most once.  A read of more than the high-water mark therefore stops when reading is paused
  a second time: the consumer waits for data, the event loop for the consumer.
\<close>

definition waiting_consumer :: Connection where
  "waiting_consumer = (connection_new sample_env)\<lparr>cn_state := Streaming, tls_detected := True, consumer_started := True,
     consumer_pc := Reading [] 10 False\<rparr>"

lemma backpressure_deadlock:
  "let c = fold (conn_handle sample_env) [On_Read [1, 2] True, Consumer_Continue, On_Resume, On_Read [3, 4] True, Consumer_Continue] waiting_consumer
   in consumer_pc c = Reading [1, 2, 3, 4] 10 True \<and> chan_stream (chan c) = [] \<and> paused c \<and> \<not> uv_reading c \<and> \<not> resume_sent c \<and>
      consumer_continue c = c"
  by code_simp

end
