(* ===== verification/Client_Url.thy ===== *)
theory Client_Url
  imports Handshake
begin

text \<open>
  \<open>client/conn.h\<close>: the connection URL of the uploader, \<open>dicker[s]://[session:]secret@host:port?options\<close>, and the
  URL of a SOCKS5 proxy.  The random session identifier is the four numbers the random device gives.
\<close>

section \<open>The data\<close>

record Proxy =
  px_use :: bool
  px_host :: string
  px_port :: string
  px_user :: string
  px_pass :: string

record ConnUrl =
  cc_host :: string
  cc_port :: string
  cc_tls :: bool
  cc_proxy :: Proxy
  cc_session :: bytes
  cc_key :: string
  cc_flags :: byte
  cc_algo :: CompressionAlgo

definition no_proxy :: Proxy where
  "no_proxy = \<lparr>px_use = False, px_host = [], px_port = [], px_user = [], px_pass = []\<rparr>"

fun randomSessionId :: "u32 list \<Rightarrow> bytes" where
  "randomSessionId [] = []"
| "randomSessionId (r # rs) =
     [ucast r, ucast (drop_bit 8 r), ucast (drop_bit 16 r), ucast (drop_bit 24 r)] @ randomSessionId rs"

definition cc_default :: "u32 list \<Rightarrow> ConnUrl" where
  "cc_default rd = \<lparr>cc_host = [], cc_port = [], cc_tls = False, cc_proxy = no_proxy, cc_session = randomSessionId rd,
     cc_key = [], cc_flags = 0, cc_algo = Zstd\<rparr>"

section \<open>Parsing\<close>

text \<open>The part after the scheme, and the scheme.\<close>

definition cut_scheme :: "string \<Rightarrow> string option \<times> string" where
  "cut_scheme s =
     (case str_find_sub ''://'' s of
        None \<Rightarrow> (None, s)
      | Some i \<Rightarrow> (Some (take i s), drop (i + 3) s))"

definition parseProxy :: "string \<Rightarrow> Proxy" where
  "parseProxy url =
     (if url = [] then no_proxy
      else let s = snd (cut_scheme url);
               (auth, hostport) = (case str_rfind (CHR ''@'') s of
                  Some i \<Rightarrow> (take i s, drop (i + 1) s) | None \<Rightarrow> ([], s));
               (user, pass) = (if auth = [] then ([], [])
                  else case str_find (CHR '':'') auth of
                         Some i \<Rightarrow> (take i auth, drop (i + 1) auth) | None \<Rightarrow> (auth, []));
               (host, port) = (case str_rfind (CHR '':'') hostport of
                  Some i \<Rightarrow> (take i hostport, drop (i + 1) hostport) | None \<Rightarrow> (hostport, ''1080''))
           in \<lparr>px_use = host \<noteq> [], px_host = host, px_port = port, px_user = user, px_pass = pass\<rparr>)"

text \<open>An explicit session identifier: up to 16 raw bytes, padded with zeros.\<close>

definition explicit_session :: "string \<Rightarrow> bytes" where
  "explicit_session sid = take 16 (bytes_of sid) @ replicate (16 - length sid) 0"

definition parse_userinfo :: "string \<Rightarrow> ConnUrl \<Rightarrow> ConnUrl" where
  "parse_userinfo userinfo c =
     (case str_find (CHR '':'') userinfo of
        Some i \<Rightarrow>
          let sid = take i userinfo; c1 = c\<lparr>cc_key := drop (i + 1) userinfo\<rparr>
          in if sid \<noteq> [] then c1\<lparr>cc_session := explicit_session sid\<rparr> else c1
      | None \<Rightarrow> c\<lparr>cc_key := userinfo\<rparr>)"

definition parse_option :: "string \<Rightarrow> ConnUrl \<Rightarrow> ConnUrl" where
  "parse_option token c =
     (let (k, v) = (case str_find (CHR ''='') token of
        Some i \<Rightarrow> (take i token, drop (i + 1) token) | None \<Rightarrow> (token, []))
      in if k = ''integrity''
         then if v = [] \<or> v = ''1'' \<or> v = ''true'' then c\<lparr>cc_flags := cc_flags c OR byte_of_flag IntegrityChecks\<rparr> else c
         else if k = ''compressionAlgo'' \<or> k = ''algo''
         then if v = ''zstd'' then c\<lparr>cc_algo := Zstd\<rparr>
              else if v = ''lz4'' then c\<lparr>cc_algo := Lz4\<rparr>
              else if v = ''none'' then c\<lparr>cc_algo := AlgoNone\<rparr> else c
         else c)"

function parse_options :: "string \<Rightarrow> ConnUrl \<Rightarrow> ConnUrl" where
  "parse_options query c =
     (if query = [] then c
      else case str_find (CHR ''&'') query of
             None \<Rightarrow> parse_option query c
           | Some amp \<Rightarrow> parse_options (drop (amp + 1) query) (parse_option (take amp query) c))"
  by pat_completeness auto
termination
  by (relation "measure (\<lambda>(q, c). length q)") auto

declare parse_options.simps [simp del]

definition parse_conn :: "string \<Rightarrow> ConnUrl \<Rightarrow> ConnUrl" where
  "parse_conn url c =
     (let (scheme, s) = cut_scheme url;
          c1 = (case scheme of None \<Rightarrow> c | Some name \<Rightarrow> c\<lparr>cc_tls := name = ''dickers''\<rparr>);
          (s, query) = (case str_find (CHR ''?'') s of Some i \<Rightarrow> (take i s, drop (i + 1) s) | None \<Rightarrow> (s, []));
          (hostport, c2) = (case str_rfind (CHR ''@'') s of
             Some i \<Rightarrow> (drop (i + 1) s, parse_userinfo (take i s) c1) | None \<Rightarrow> (s, c1));
          c3 = (case str_rfind (CHR '':'') hostport of
             Some i \<Rightarrow> c2\<lparr>cc_host := take i hostport, cc_port := drop (i + 1) hostport\<rparr>
           | None \<Rightarrow> c2\<lparr>cc_host := hostport\<rparr>)
      in parse_options query c3)"

definition cc_new :: "u32 list \<Rightarrow> string \<Rightarrow> string \<Rightarrow> ConnUrl" where
  "cc_new rd url proxyUrl =
     (let c = parse_conn url (cc_default rd)
      in if proxyUrl \<noteq> [] then c\<lparr>cc_proxy := parseProxy proxyUrl\<rparr> else c)"

section \<open>What a URL means\<close>

lemma length_explicit_session [simp]: "length (explicit_session sid) = 16"
  by (simp add: explicit_session_def)

lemma cut_scheme_dickers:
  "cut_scheme (''dickers://'' @ s) = (Some ''dickers'', s)" "cut_scheme (''dicker://'' @ s) = (Some ''dicker'', s)"
  by (simp_all add: cut_scheme_def)

text \<open>A URL with all its parts gives them back, when no part holds a character that separates it from the next.\<close>

lemma parse_conn_url:
  assumes "sid \<noteq> []" and "CHR '':'' \<notin> set sid" and "CHR ''@'' \<notin> set host" and "CHR ''@'' \<notin> set port"
    and "CHR '':'' \<notin> set port" and "CHR ''?'' \<notin> set (sid @ secret @ host @ port)"
  shows "parse_conn (''dickers://'' @ sid @ '':'' @ secret @ ''@'' @ host @ '':'' @ port) c =
    c\<lparr>cc_tls := True, cc_key := secret, cc_session := explicit_session sid, cc_host := host, cc_port := port\<rparr>"
proof -
  let ?s = "sid @ CHR '':'' # secret @ CHR ''@'' # host @ CHR '':'' # port"
  have q: "str_find (CHR ''?'') ?s = None"
    using assms(6) by (intro str_find_absent) auto
  have at: "str_rfind (CHR ''@'') ?s = Some (Suc (length sid + length secret))"
    using str_rfind_append [of "CHR ''@''" "host @ CHR '':'' # port" "sid @ CHR '':'' # secret"] assms(3,4) by simp
  have colon: "str_find (CHR '':'') (sid @ CHR '':'' # secret) = Some (length sid)"
    using str_find_append [OF assms(2), of secret] by simp
  have port: "str_rfind (CHR '':'') (host @ CHR '':'' # port) = Some (length host)"
    using str_rfind_append [OF assms(5), of host] by simp
  have cuts: "take (Suc (length sid + length secret)) ?s = sid @ CHR '':'' # secret"
      "drop (Suc (Suc (length sid + length secret))) ?s = host @ CHR '':'' # port"
    by simp_all
  have "parse_conn (''dickers://'' @ ?s) c = parse_options [] ((parse_userinfo (sid @ CHR '':'' # secret) (c\<lparr>cc_tls := True\<rparr>))
      \<lparr>cc_host := host, cc_port := port\<rparr>)"
    by (simp only: parse_conn_def cut_scheme_dickers) (simp add: q at port cuts Let_def)
  then show ?thesis
    using assms(1) by (simp add: parse_userinfo_def colon parse_options.simps Let_def)
qed

text \<open>A number option switches on the integrity checks that the handshake announces.\<close>

lemma integrity_option:
  "has_flag (cc_flags (parse_option ''integrity=1'' c)) IntegrityChecks"
  "has_flag (cc_flags (parse_option ''integrity'' c)) IntegrityChecks"
proof -
  have "(f OR b) AND b = b" for f b :: byte
    by (rule bit_word_eqI) (auto simp: bit_simps)
  then show "has_flag (cc_flags (parse_option ''integrity=1'' c)) IntegrityChecks"
    "has_flag (cc_flags (parse_option ''integrity'' c)) IntegrityChecks"
    by (simp_all add: parse_option_def has_flag_def)
qed

end
