(* ===== verification/Client_Net.thy ===== *)
theory Client_Net
  imports Client_Url
begin

text \<open>
  The sockets of the uploader, \<open>client/net_io.h\<close> and \<open>client/net.h\<close>, without TLS: sending and receiving whole buffers over
  calls that move part of them, the SOCKS5 dialogue with a proxy, and the network thread's client.  The system calls \<open>send\<close> and
  \<open>recv\<close> and dialling a host (name lookup, \<open>connect\<close>, socket options) are a parameter; a negative result is \<^const>\<open>None\<close>.
\<close>

section \<open>Whole buffers\<close>

record 'n sockets =
  tcpDial :: "'n \<Rightarrow> string \<Rightarrow> string \<Rightarrow> bool \<times> 'n"
  tcpSend :: "'n \<Rightarrow> bytes \<Rightarrow> nat option \<times> 'n"
  tcpRecv :: "'n \<Rightarrow> nat \<Rightarrow> bytes option \<times> 'n"
  closeSock :: "'n \<Rightarrow> 'n"

function sendAll :: "'n sockets \<Rightarrow> 'n \<Rightarrow> bytes \<Rightarrow> nat \<Rightarrow> bool \<times> 'n" where
  "sendAll so n buf off =
     (if off < length buf
      then case tcpSend so n (drop off buf) of
             (None, n1) \<Rightarrow> (False, n1)
           | (Some w, n1) \<Rightarrow> if w = 0 then (False, n1) else sendAll so n1 buf (off + w)
      else (True, n))"
  by pat_completeness auto
termination
  by (relation "measure (\<lambda>(so, n, buf, off). length buf - off)") auto

declare sendAll.simps [simp del]

function recvExact :: "'n sockets \<Rightarrow> 'n \<Rightarrow> nat \<Rightarrow> bytes \<Rightarrow> bytes option \<times> 'n" where
  "recvExact so n len buf =
     (if length buf < len
      then case tcpRecv so n (len - length buf) of
             (None, n1) \<Rightarrow> (None, n1)
           | (Some got, n1) \<Rightarrow> if got = [] then (None, n1) else recvExact so n1 len (buf @ take (len - length buf) got)
      else (Some buf, n))"
  by pat_completeness auto
termination
  by (relation "measure (\<lambda>(so, n, len, buf). len - length buf)") (auto simp: diff_less_mono2)

declare recvExact.simps [simp del]

section \<open>SOCKS5\<close>

text \<open>\<open>std::atoi\<close>: blanks, a sign, digits; the rest is ignored.\<close>

definition digit_value :: "char \<Rightarrow> int" where
  "digit_value c = int (of_char c) - 48"

definition is_digit :: "char \<Rightarrow> bool" where
  "is_digit c \<longleftrightarrow> 48 \<le> (of_char c :: nat) \<and> (of_char c :: nat) \<le> 57"

definition is_space :: "char \<Rightarrow> bool" where
  "is_space c \<longleftrightarrow> (of_char c :: nat) = 32 \<or> 9 \<le> (of_char c :: nat) \<and> (of_char c :: nat) \<le> 13"

definition atoi :: "string \<Rightarrow> int" where
  "atoi s =
     (let t = dropWhile is_space s;
          (neg, u) = (case t of
             [] \<Rightarrow> (False, []) | c # r \<Rightarrow> if c = CHR ''-'' then (True, r) else if c = CHR ''+'' then (False, r) else (False, t));
          v = foldl (\<lambda>a c. 10 * a + digit_value c) 0 (takeWhile is_digit u)
      in if neg then - v else v)"

definition socks_auth :: "Proxy \<Rightarrow> bytes" where
  "socks_auth px = [0x01, of_nat (length (px_user px))] @ bytes_of (px_user px) @ [of_nat (length (px_pass px))] @ bytes_of (px_pass px)"

definition socks_request :: "string \<Rightarrow> string \<Rightarrow> bytes" where
  "socks_request host port =
     (let p16 = word_of_int (atoi port) :: u16
      in [0x05, 0x01, 0x00, 0x03, of_nat (length host)] @ bytes_of host @ [ucast (drop_bit 8 p16), ucast (p16 AND 0xff)])"

text \<open>The method selected in the first reply, then the authentication it asks for.\<close>

definition socks_method :: "'n sockets \<Rightarrow> Proxy \<Rightarrow> 'n \<Rightarrow> bool \<times> 'n" where
  "socks_method so px n =
     (case sendAll so n [0x05, 0x02, 0x00, 0x02] 0 of
        (False, n1) \<Rightarrow> (False, n1)
      | (True, n1) \<Rightarrow>
          (case recvExact so n1 2 [] of
             (None, n2) \<Rightarrow> (False, n2)
           | (Some sel, n2) \<Rightarrow>
               if sel ! 0 \<noteq> 0x05 then (False, n2)
               else if sel ! 1 = 0x02
               then (case sendAll so n2 (socks_auth px) 0 of
                       (False, n3) \<Rightarrow> (False, n3)
                     | (True, n3) \<Rightarrow>
                         (case recvExact so n3 2 [] of
                            (None, n4) \<Rightarrow> (False, n4)
                          | (Some ar, n4) \<Rightarrow> (ar ! 1 = 0x00, n4)))
               else (sel ! 1 = 0x00, n2)))"

text \<open>The bound address of the reply is read and dropped.\<close>

definition socks_drain :: "'n sockets \<Rightarrow> byte \<Rightarrow> 'n \<Rightarrow> bool \<times> 'n" where
  "socks_drain so atyp n =
     (case (if atyp = 0x01 then (Some 4, n)
            else if atyp = 0x04 then (Some 16, n)
            else if atyp = 0x03 then (case recvExact so n 1 [] of
                   (None, n1) \<Rightarrow> (None, n1) | (Some l, n1) \<Rightarrow> (Some (unat (l ! 0)), n1))
            else (None, n)) of
        (None, n1) \<Rightarrow> (False, n1)
      | (Some skip, n1) \<Rightarrow>
          (case recvExact so n1 (skip + 2) [] of
             (None, n2) \<Rightarrow> (False, n2) | (Some drain, n2) \<Rightarrow> (True, n2)))"

definition socks5Connect :: "'n sockets \<Rightarrow> Proxy \<Rightarrow> string \<Rightarrow> string \<Rightarrow> 'n \<Rightarrow> bool \<times> 'n" where
  "socks5Connect so px host port n =
     (case socks_method so px n of
        (False, n1) \<Rightarrow> (False, n1)
      | (True, n1) \<Rightarrow>
          if 255 < length (c_str host) then (False, n1)
          else (case sendAll so n1 (socks_request (c_str host) (c_str port)) 0 of
                  (False, n2) \<Rightarrow> (False, n2)
                | (True, n2) \<Rightarrow>
                    (case recvExact so n2 4 [] of
                       (None, n3) \<Rightarrow> (False, n3)
                     | (Some rep, n3) \<Rightarrow> if rep ! 1 \<noteq> 0x00 then (False, n3) else socks_drain so (rep ! 3) n3)))"

definition tcpConnect :: "'n sockets \<Rightarrow> Proxy \<Rightarrow> string \<Rightarrow> string \<Rightarrow> 'n \<Rightarrow> bool \<times> 'n" where
  "tcpConnect so px host port n =
     (if \<not> px_use px then tcpDial so n host port
      else case tcpDial so n (px_host px) (px_port px) of
             (False, n1) \<Rightarrow> (False, n1)
           | (True, n1) \<Rightarrow>
               (case socks5Connect so px host port n1 of
                  (False, n2) \<Rightarrow> (False, closeSock so n2)
                | (True, n2) \<Rightarrow> (True, n2)))"

section \<open>The network thread\<close>

record 'n NetworkClient =
  nc_open :: bool
  nc_net :: 'n

definition network_init :: "'n sockets \<Rightarrow> ConnUrl \<Rightarrow> 'n NetworkClient \<Rightarrow> bool \<times> 'n NetworkClient" where
  "network_init so conn nc =
     (case tcpConnect so (cc_proxy conn) (cc_host conn) (cc_port conn) (nc_net nc) of
        (ok, n1) \<Rightarrow> (ok, nc\<lparr>nc_open := ok, nc_net := n1\<rparr>))"

definition network_process :: "'n sockets \<Rightarrow> bytes \<Rightarrow> 'n NetworkClient \<Rightarrow> bool \<times> 'n NetworkClient" where
  "network_process so data nc =
     (case sendAll so (nc_net nc) data 0 of
        (True, n1) \<Rightarrow> (True, nc\<lparr>nc_net := n1\<rparr>)
      | (False, n1) \<Rightarrow> (False, nc\<lparr>nc_open := False, nc_net := closeSock so n1\<rparr>))"

section \<open>What arrives\<close>

text \<open>A socket that works moves some of the bytes of each call, at least one.\<close>

definition socket_sends :: "'n sockets \<Rightarrow> ('n \<Rightarrow> bytes) \<Rightarrow> bool" where
  "socket_sends so out \<longleftrightarrow>
     (\<forall>n buf. buf \<noteq> [] \<longrightarrow> (\<exists>w n1. tcpSend so n buf = (Some w, n1) \<and> 0 < w \<and> w \<le> length buf \<and> out n1 = out n @ take w buf))"

definition socket_receives :: "'n sockets \<Rightarrow> ('n \<Rightarrow> bytes) \<Rightarrow> bool" where
  "socket_receives so inp \<longleftrightarrow>
     (\<forall>n len. 0 < len \<longrightarrow> inp n \<noteq> [] \<longrightarrow>
        (\<exists>r n1. tcpRecv so n len = (Some (take r (inp n)), n1) \<and> 0 < r \<and> r \<le> len \<and> inp n1 = drop r (inp n)))"

text \<open>Every byte given to \<open>sendAll\<close> is sent, in order and once, however the calls cut them.\<close>

lemma sendAll_sends:
  assumes "socket_sends so out"
  shows "off \<le> length buf \<Longrightarrow> \<exists>n1. sendAll so n buf off = (True, n1) \<and> out n1 = out n @ drop off buf"
proof (induction "length buf - off" arbitrary: n off rule: less_induct)
  case less
  show ?case
  proof (cases "off < length buf")
    case False
    with less.prems show ?thesis
      by (simp add: sendAll.simps)
  next
    case True
    then have "drop off buf \<noteq> []"
      by simp
    then obtain w n1 where call: "tcpSend so n (drop off buf) = (Some w, n1)" "0 < w" "w \<le> length (drop off buf)"
        "out n1 = out n @ take w (drop off buf)"
      using assms unfolding socket_sends_def by blast
    have "length buf - (off + w) < length buf - off" "off + w \<le> length buf"
      using call(2,3) True by auto
    then obtain n2 where "sendAll so n1 buf (off + w) = (True, n2)" "out n2 = out n1 @ drop (off + w) buf"
      using less.hyps [of "off + w" n1] by blast
    moreover have "take w (drop off buf) @ drop (off + w) buf = drop off buf"
      by (metis add.commute append_take_drop_id drop_drop)
    ultimately show ?thesis
      using True call by (simp add: sendAll.simps [of so n buf off])
  qed
qed

text \<open>Exactly the bytes asked for are received when they come.\<close>

lemma recvExact_receives:
  assumes "socket_receives so inp"
  shows "length buf \<le> len \<Longrightarrow> len - length buf \<le> length (inp n) \<Longrightarrow>
    \<exists>n1. recvExact so n len buf = (Some (buf @ take (len - length buf) (inp n)), n1) \<and> inp n1 = drop (len - length buf) (inp n)"
proof (induction "len - length buf" arbitrary: n buf rule: less_induct)
  case less
  show ?case
  proof (cases "length buf < len")
    case False
    with less.prems show ?thesis
      by (simp add: recvExact.simps)
  next
    case True
    then have "inp n \<noteq> []"
      using less.prems(2) by auto
    then obtain r n1 where call: "tcpRecv so n (len - length buf) = (Some (take r (inp n)), n1)" "0 < r" "r \<le> len - length buf"
        "inp n1 = drop r (inp n)"
      using assms True unfolding socket_receives_def by (meson zero_less_diff)
    have r: "r \<le> length (inp n)" "take (len - length buf) (take r (inp n)) = take r (inp n)" "take r (inp n) \<noteq> []"
      using call(2,3) less.prems(2) True \<open>inp n \<noteq> []\<close> by (auto simp: min_absorb2)
    let ?buf = "buf @ take r (inp n)"
    have len: "length ?buf = length buf + r"
      using r(1) by simp
    have "len - length ?buf < len - length buf" "length ?buf \<le> len" "len - length ?buf \<le> length (inp n1)"
      using len call(2-4) True less.prems(2) by auto
    then obtain n2 where "recvExact so n1 len ?buf = (Some (?buf @ take (len - length ?buf) (inp n1)), n2)"
        "inp n2 = drop (len - length ?buf) (inp n1)"
      using less.hyps [of ?buf n1] by blast
    moreover have "len - length buf = r + (len - length ?buf)"
      using len call(3) by linarith
    then have "take r (inp n) @ take (len - length ?buf) (inp n1) = take (len - length buf) (inp n)"
      "drop (len - length ?buf) (inp n1) = drop (len - length buf) (inp n)"
      by (simp_all only: call(4) take_add drop_drop add.commute)
    ultimately show ?thesis
      using True call(1) r by (simp add: recvExact.simps [of so n len buf])
  qed
qed

text \<open>The network thread sends what the worker gives it, one task after the other.\<close>

lemma network_process_sends:
  assumes "socket_sends so out"
  shows "\<exists>n1. network_process so data nc = (True, nc\<lparr>nc_net := n1\<rparr>) \<and> out n1 = out (nc_net nc) @ data"
  using sendAll_sends [OF assms, of 0 data "nc_net nc"] by (auto simp: network_process_def)

text \<open>The length of a user name is sent in one byte: 256 characters are announced as none.\<close>

lemma socks_user_wraps: "length (px_user px) = 256 \<Longrightarrow> socks_auth px ! 1 = 0"
  by (simp add: socks_auth_def)

end
