(* ===== verification/Spec2Isabelle.thy ===== *)
theory Spec2Isabelle
  imports Sha256 Xxh64 Byte_Channel Handshake File_Sink Server_Upload Upload_Plan Reader_Pipeline Archive Connection Client_Net
begin

text \<open>
  A verification development for \<^emph>\<open>dicker\<close>, a bulk uploader: a client walks directories and
  streams files over several compressed, authenticated connections to a server that writes
  them below a session directory and offers them for download.

  \<^bold>\<open>The program.\<close>  The client (\<open>src/client\<close>) parses a connection URL, walks the roots, filters entries by
  glob rules, cuts big files into chunks and hands each unit to one of several workers.  A worker's
  storage thread reads the unit ahead into buffers that travel through two lock-free rings; the worker compresses
  them and sends frames over its connection, after probes when the server wants to choose.  The server (\<open>src/server\<close>)
  runs one event loop and a consumer thread per upload.  The event loop verifies the handshake, pushes what
  arrives into a byte channel with back-pressure, answers HTTP requests, and takes the connection down.  The consumer
  reads frames from the channel, decompresses and writes files or chunks through the sink of the session.
  Tokens and sessions are kept in sealed files, which a command-line tool edits.  Hashes and the wire
  format are shared (\<open>src/shared\<close>); JSON is a bundled library (\<open>src/cxx_modules/json.hpp\<close>).

  \<^bold>\<open>Theories, shared.\<close>
  \<^item> \<open>Dicker_Prelude\<close>: bytes, strings, searches, words and the lemma collections of the development.
  \<^item> \<open>Wire\<close> (\<open>protocol.h\<close>, \<open>wire.h\<close>): constants, enumerations and field codecs, with the round trips as the locale
    \<open>field_codec\<close> interpreted for 16, 32 and 64 bits.
  \<^item> \<open>Streaming_Hash\<close>, \<open>Sha256\<close> (\<open>sha256.h\<close>, \<open>hmac_sha256.h\<close>) and \<open>Xxh64\<close> (\<open>xxhash.h\<close>): both hashes at machine width,
    equal to their definitions on whole messages, however the input is cut; HMAC is that of RFC 2104.
  \<^item> \<open>Json_Lexer\<close>, \<open>Json_Parser\<close>, \<open>Json_Dump\<close>, \<open>Json_Utf8\<close> (\<open>json.hpp\<close>): the parser reads back what the serialiser writes,
    the serialiser's buffers are never overrun, and parsed text is UTF-8.

  \<^bold>\<open>Theories, server.\<close>
  \<^item> \<open>Byte_Source\<close>, \<open>Byte_Channel\<close> (\<open>byte_channel.cxx\<close>): the contract of an exact read as a locale, and the channel, whose
    reads with all their waits provide it.
  \<^item> \<open>Handshake\<close> (\<open>handshake.cxx\<close>): a request is accepted exactly when it is well formed and authentic.
  \<^item> \<open>Paths\<close>, \<open>File_Sink\<close> (\<open>std::filesystem::path\<close>, \<open>file_sink.cxx\<close>): paths stay below the session directory, chunks
    assemble the file.
  \<^item> \<open>Decompressor\<close> (\<open>decompressor.cxx\<close> and its two implementations): the decoding loops.
  \<^item> \<open>Server_Consumer\<close>, \<open>Server_Upload\<close>, \<open>Server_Delivery\<close> (the consumer thread of \<open>connection.cxx\<close>): it ends, its effect
    depends on the bytes only, stored files match their checksums, accept mode stores only what
    was accepted, and a well-formed upload is stored exactly.
  \<^item> \<open>Connection\<close> (the event loop's side of \<open>connection.cxx\<close>): a transition system of callbacks and consumer steps, with an
    invariant by rule induction: as long as the writes made on reading can be queued, the event loop does not block, and a
    teardown can always go on.  Two lemmas show what happens without that, and with a read larger than the high-water mark.
  \<^item> \<open>Http\<close>, \<open>Router\<close> (\<open>http.cxx\<close>, \<open>router.cxx\<close>, the middleware and the controllers): requests and responses are framed
    correctly, downloads are authorised and confined.
  \<^item> \<open>Db\<close>, \<open>Server_Core\<close> (\<open>db.cxx\<close>, \<open>dbtool.cxx\<close>, \<open>server.cxx\<close>): atomic saving, token verification, the session log.
  \<^item> \<open>Tar\<close>, \<open>Archive\<close> (\<open>archive.cxx\<close> and the pump of \<open>connection.cxx\<close>): the download of a session decodes to its files.

  \<^bold>\<open>Theories, client.\<close>
  \<^item> \<open>Client_Url\<close>, \<open>Client_Net\<close> (\<open>conn.h\<close>, \<open>net.h\<close>, \<open>net_io.h\<close>): URLs, sending and receiving whole buffers, SOCKS5.
  \<^item> \<open>Affinity\<close>, \<open>Filter_Rules\<close>, \<open>Scheduler\<close> (\<open>affinity.h\<close>, \<open>scheduler.h\<close>): the regular expressions mean the glob
    patterns, a dispatch finds a worker, the walk hands out exactly the kept files.
  \<^item> \<open>Storage_Reader\<close>, \<open>Ring\<close>, \<open>Reader_Pipeline\<close> (\<open>task.h\<close>, \<open>storageReader.h\<close>, \<open>ring.h\<close>): the ring is a queue without lost
    wake-ups under every interleaving, the two threads deliver the blocks of the requests and never deadlock.
  \<^item> \<open>Compressor\<close>, \<open>Client_Worker\<close>, \<open>Client_Frames\<close> (\<open>compressor.h\<close>, \<open>worker.h\<close>): the frames a worker sends.
  \<^item> \<open>Upload_Plan\<close> and this theory: the two ends together, from the file on the uploader's disk to the stored file.

  \<^bold>\<open>How code becomes definitions.\<close>  A struct is a record with the fields of the source, an enumeration a datatype, a
  method a function from the state to its result and the new state; an error or exception is \<^const>\<open>None\<close>, a
  status or an error string, as in the source.  Integers are words where their width matters (lengths
  on the wire, ring indices, hash states, file offsets) and numbers where they count bytes in memory.  Log lines are left out; events are
  appended to lists.

  \<^bold>\<open>Parameters.\<close>  What is not in the repository is an argument: file system calls, sockets, libuv, zstd, lz4, AES-GCM,
  BLAKE3, random numbers, conversion of floating-point numbers, and the channels between the client's threads.  What a
  theorem relies on is a named predicate on the argument (\<open>upload_site\<close>, \<open>gcm_correct\<close>, \<open>db_posix\<close>,
  \<open>socket_sends\<close> and others), and the witness next to the theorem gives an instance.

  \<^bold>\<open>Termination and bounds.\<close>  There is no fuel.  Loops that always end are total functions with a measure; loops whose end
  depends on a parameter (a decoder that makes no progress, a chunk size of zero) are partial functions whose
  result \<^const>\<open>None\<close> is divergence, and the theorems prove that they return.  The ring is verified for every capacity
  \<open>2 ^ m\<close> with \<open>m < 63\<close> (below 31 for the gates, which count modulo \<open>2 ^ 32\<close>), and the code uses eight; indices wrap
  around.  The executions of threads are arbitrary lists of steps in one order that all threads see.

  \<^bold>\<open>Not modelled.\<close>  TLS on both sides (glue around wolfSSL), listening sockets and the run loop (calls of libuv), shadow copies
  and other code for Windows, the semaphore that limits disk reads, weak memory orders, the parts of the
  JSON and hash headers the program does not use, the example programs and entry points, and the build scripts.
\<close>

section \<open>The two ends together\<close>

lemma worker_handshake_bytes:
  "handshake wk conn ver =
    request_bytes (cl_key conn) ver (cl_flags conn) (byte_of_algo (comp_algo (compressor wk))) (cl_session conn) @ [Cmd_Upload]"
  by (simp add: handshake_def request_bytes_def signed_prefix_def append_u16_def Let_def)

text \<open>
  Property C31.  The handshake round trip: what a worker sends for a key, a session and its compressor is accepted
  by a server with the same key, which reads back exactly the version, flags, algorithm and session
  of the worker; the only byte after the request is the upload command the consumer thread waits for.
\<close>

theorem handshake_roundtrip:
  assumes "comp_algo (compressor wk) = Zstd \<or> comp_algo (compressor wk) = Lz4" and "length (cl_session conn) = kSessionIdSize"
    and "ver = kProtocolVersion \<or> ver = kMinProtocolVersion"
  shows "parse_and_verify_handshake (handshake wk conn ver) (cl_key conn) out =
      (Ok, out\<lparr>HandshakeRequest.version := ver, flags := cl_flags conn, algo := comp_algo (compressor wk), session_id := cl_session conn\<rparr>) \<and>
    drop kHandshakeRequestSize (handshake wk conn ver) = [Cmd_Upload]"
proof -
  have "byte_of_algo (comp_algo (compressor wk)) = 1 \<or> byte_of_algo (comp_algo (compressor wk)) = 2"
    "algo_of_byte (byte_of_algo (comp_algo (compressor wk))) = comp_algo (compressor wk)"
    using assms(1) by auto
  moreover have "length (cl_session conn) = 16" "ver = 1 \<or> ver = 2"
    using assms(2,3) by (auto simp: kProtocolVersion_def kMinProtocolVersion_def)
  ultimately show ?thesis
    unfolding worker_handshake_bytes
    by (intro conjI) (simp_all add: parse_request_bytes, simp add: request_bytes_def)
qed

definition sample_worker :: "unit Worker" where
  "sample_worker = \<lparr>wk_integrity = True, acceptMode = False, hashFirst = False, nextKey = 0, pending_units = [],
     compressor = \<lparr>comp_algo = Zstd, cctx = (), started = False\<rparr>, wk_events = []\<rparr>"

definition sample_client :: ClientConn where
  "sample_client = \<lparr>cl_flags = 1, cl_key = ''key'', cl_session = replicate 16 7\<rparr>"

theorem handshake_roundtrip_witness:
  "fst (parse_and_verify_handshake (handshake sample_worker sample_client 2) ''key''
     \<lparr>HandshakeRequest.version = 0, flags = 0, algo = AlgoNone, session_id = []\<rparr>) = Ok"
  using handshake_roundtrip [of sample_worker sample_client 2]
  by (simp add: sample_worker_def sample_client_def kProtocolVersion_def)

text \<open>
  Property C30.  End to end: a worker that is given a list of tasks while its network is up sends them all, and
  the server that gets the bytes the worker has sent, cut into pieces in whatever way, stores for
  each task exactly the bytes that the task's range of the file holds on the uploader's disk: a file is
  replaced by them, a chunk is written at its offset, one task after the other.
\<close>

theorem upload_end_to_end:
  assumes "uploader_ready env wk sent decode coding" and "sent net = []"
    and "list_all (on_disk (env_disk env) files) (map snd ts)" and "list_all (task_ok (session_root (sink st))) (map snd ts)"
    and "upload_site cn file content dec pot" and "dec (decoder_ctx st) = decode" and "sink_open file (world st) (sink st)"
    and "\<not> has_mode (conn_mode cn) ModeAccept" and "integrity_checks cn = wk_integrity wk"
  shows "\<exists>wk' net'. process_tasks env ts wk net = Some (True, wk', net') \<and>
    (\<forall>src. source_inv src \<and> source_stream src = Cmd_Upload # sent (worker_finish env net') \<longrightarrow>
      (\<exists>src' st'. consumer_main read_exact cn src st = Some (src', st') \<and>
        content (world st') = fold (put_task (session_root (sink st)) files) (map snd ts) (content (world st)) \<and>
        units_done st' = units_done st + of_nat (length ts)))"
proof -
  obtain wk' net' us where run: "process_tasks env ts wk net = Some (True, wk', net')"
    and sent: "sent (worker_finish env net') = concat (map (unit_stream (wk_integrity wk)) us) @ [byte_of_unit End]"
    and us: "list_all2 (sent_as env) (map snd ts) us" "coded decode us"
    using worker_run_frames [OF assms(1), of ts net] assms(2) by auto
  have n: "length us = length ts"
    using us(1) by (auto dest: list_all2_lengthD)
  show ?thesis
  proof (intro exI conjI, rule run, intro allI impI)
    fix src
    assume src: "source_inv src \<and> source_stream src = Cmd_Upload # sent (worker_finish env net')"
    have stream: "source_stream src = Cmd_Upload # concat (map (unit_stream (integrity_checks cn)) us) @ byte_of_unit End # []"
      using src sent assms(9) by simp
    have "list_all (unit_ok (session_root (sink st))) us" "coded (dec (decoder_ctx st)) us"
      using sent_units_ok [OF us(1) assms(3,4)] us(2) assms(6) by simp_all
    from consumer_delivers [where dec = dec, OF assms(5,8) conjunct1 [OF src] stream this assms(7)]
    show "\<exists>src' st'. consumer_main read_exact cn src st = Some (src', st') \<and>
        content (world st') = fold (put_task (session_root (sink st)) files) (map snd ts) (content (world st)) \<and>
        units_done st' = units_done st + of_nat (length ts)"
      using sent_units_ok [OF us(1) assms(3,4)] n by auto
  qed
qed

definition sample_env :: "(unit, bytes, bytes) worker_env" where
  "sample_env = \<lparr>env_codec = copy_codec, net_connect = Pair True, net_enqueue = (\<lambda>n b. (True, n @ b)),
     net_await = (\<lambda>n b. (True, n @ b)), net_recv_exact = (\<lambda>n k. (None, n)),
     env_disk = mem_disk [''a/f'' \<mapsto> [1, 2, 3, 4, 5, 6, 7]], blake3 = (\<lambda>b. replicate 32 0)\<rparr>"

definition sample_tasks :: "(bool \<times> Task) list" where
  "sample_tasks = [(False, worker_task File ''a/f'' 0 4 7 0), (True, worker_task Chunk ''a/f'' 4 3 7 0)]"

lemma sample_uploader: "uploader_ready sample_env sample_worker (\<lambda>n. n) Some (\<lambda>k s t. s = t)"
  by (simp add: uploader_ready_def sample_env_def sample_worker_def net_sends_def net_up_def copy_codec_documented)

lemma mem_healthy: "fs_healthy mem_os mem_file"
  by (auto simp: fs_healthy_def mem_os_def)

lemma sample_site: "upload_site sample_conn mem_file mem_content (\<lambda>z. Some) (\<lambda>z input. length input)"
  by (simp add: upload_site_def sample_conn_def mem_posix mem_healthy copy_step_decoder)

lemma sample_tasks_ok:
  "list_all (on_disk (env_disk sample_env) (\<lambda>p. [1, 2, 3, 4, 5, 6, 7])) (map snd sample_tasks)"
  "list_all (task_ok (session_root (sink sample_session))) (map snd sample_tasks)"
proof -
  have path: "copy_path ''a/f'' = ''a/f''"
    by (simp add: copy_path_def PATH_CAP_def c_str_def)
  have "disk_open (mem_disk [''a/f'' \<mapsto> x]) ''a/f'' = Some x" for x
    by (simp add: mem_disk_def)
  then show "list_all (on_disk (env_disk sample_env) (\<lambda>p. [1, 2, 3, 4, 5, 6, 7])) (map snd sample_tasks)"
    by (simp add: sample_tasks_def sample_env_def on_disk_def worker_task_def path mem_disk_reads)
  show "list_all (task_ok (session_root (sink sample_session))) (map snd sample_tasks)"
    by (simp add: sample_tasks_def task_ok_def worker_task_def path sample_session_def sample_resolve)
qed

lemma sample_stored_tasks:
  "fold (put_task ''up/5e'' (\<lambda>p. [1, 2, 3, 4, 5, 6, 7])) (map snd sample_tasks) (\<lambda>p. []) ''up/5e/a/f'' = [1, 2, 3, 4, 5, 6, 7]"
proof -
  have path: "copy_path ''a/f'' = ''a/f''" "c_str ''up/5e/a/f'' = ''up/5e/a/f''"
    by (simp_all add: copy_path_def PATH_CAP_def c_str_def)
  show ?thesis
    by (simp add: sample_tasks_def worker_task_def put_task_def path sample_resolve task_data_def stored_def overwrite_def)
qed

theorem upload_end_to_end_witness:
  "\<exists>wk' net' src' st'. process_tasks sample_env sample_tasks sample_worker [] = Some (True, wk', net') \<and>
    consumer_main read_exact sample_conn
      (channel_new 16, [Push (Cmd_Upload # worker_finish sample_env net'), Close]) sample_session = Some (src', st') \<and>
    mem_content (world st') ''up/5e/a/f'' = [1, 2, 3, 4, 5, 6, 7] \<and> units_done st' = 2"
proof -
  have st: "sink_open mem_file (world sample_session) (sink sample_session)" "session_root (sink sample_session) = ''up/5e''"
    "mem_content (world sample_session) = (\<lambda>p. [])" "units_done sample_session = 0"
    by (simp_all add: sink_open_def sample_session_def mem_new_def)
  have cn: "\<not> has_mode (conn_mode sample_conn) ModeAccept" "integrity_checks sample_conn = wk_integrity sample_worker"
    by (simp_all add: sample_conn_def sample_worker_def has_mode_def)
  have src: "source_inv (channel_new 16, [Push b, Close])" "source_stream (channel_new 16, [Push b, Close]) = b" for b
    by (simp_all add: source_inv_def source_stream_def to_come_def chan_simps) (simp add: channel_new_def)
  from upload_end_to_end [OF sample_uploader refl sample_tasks_ok sample_site refl st(1) cn] sample_stored_tasks src
  show ?thesis
    by (fastforce simp: st sample_tasks_def)
qed


definition sample_chunks :: "Task list" where
  "sample_chunks = [worker_task Chunk ''a/f'' 4 1 5 9, worker_task Chunk ''a/f'' 0 2 5 9, worker_task Chunk ''a/f'' 2 2 5 9]"


end
